(* ===== verification/Prelude.thy ===== *)
theory Prelude
  imports Main "HOL-Library.Word" "HOL-Library.Monad_Syntax"
begin

text \<open>
  Shared by every theory of the development: the C integer types as words, the reading of
  \<open>None\<close> as "the C execution has no defined result", the errno values the sources return,
  and generic facts on lists and words.

  Integers: \<^verbatim>\<open>uint8_t\<close>, \<^verbatim>\<open>uint32_t\<close>, \<^verbatim>\<open>size_t\<close> are \<open>8\<close>, \<open>32\<close> and \<open>64 word\<close>;
  the signed \<^verbatim>\<open>loff_t\<close> and \<^verbatim>\<open>ssize_t\<close> are \<open>64 word\<close> too, read by \<open>sint\<close>.  The kernel is
  compiled with \<^verbatim>\<open>-fno-strict-overflow\<close>, so signed addition wraps as it does on words.

  Undefined behaviour: a definition whose result type is \<open>'a option\<close> and whose text says so
  returns \<open>None\<close> where the C code dereferences NULL, indexes out of an array, touches freed or
  uninitialised memory, frees twice, unlocks a mutex it does not hold, or blocks for ever.
\<close>

type_synonym u8 = "8 word"
type_synonym u32 = "32 word"
type_synonym u64 = "64 word"
type_synonym loff_t = "64 word"
type_synonym ssize_t = "64 word"
type_synonym byte = char

abbreviation newline :: byte where "newline \<equiv> CHR 0x0A"

named_theorems ring_simps \<open>index arithmetic of the ten-slot ring\<close>
named_theorems mem_simps \<open>the kernel heap operations on blocks known to be allocated\<close>
named_theorems dev_simps \<open>consequences of the driver invariant\<close>

section \<open>Error numbers\<close>

definition ENOMEM :: ssize_t where "ENOMEM = 12"
definition EFAULT :: ssize_t where "EFAULT = 14"
definition EINVAL :: ssize_t where "EINVAL = 22"
definition ENOTTY :: ssize_t where "ENOTTY = 25"
definition ERESTARTSYS :: ssize_t where "ERESTARTSYS = 512"

lemmas errno_defs = ENOMEM_def EFAULT_def EINVAL_def ENOTTY_def ERESTARTSYS_def

lemma errno_negative [simp]:
  "sint (- ENOMEM) = -12" "sint (- EFAULT) = -14" "sint (- EINVAL) = -22"
  "sint (- ENOTTY) = -25" "sint (- ERESTARTSYS) = -512"
  by (simp_all add: errno_defs)

section \<open>Undefined behaviour\<close>

definition guard :: "bool \<Rightarrow> unit option" where
  "guard b = (if b then Some () else None)"

lemma guard_simps [simp]: "guard True = Some ()" "guard False = None"
  by (simp_all add: guard_def)

lemma guard_eq_Some [simp]: "guard b = Some u \<longleftrightarrow> b"
  by (simp add: guard_def)

section \<open>Waiting\<close>

text \<open>What becomes of a call that may wait, in the programs where others run meanwhile.\<close>

datatype 'a outcome = Blocked | Done 'a

lemma outcome_returns:
  assumes "\<exists>res. x = Some res \<and> (case res of Blocked \<Rightarrow> B | Done y \<Rightarrow> P y)" "\<not> B"
  shows "\<exists>y. x = Some (Done y) \<and> P y"
proof -
  obtain res where r: "x = Some res" "case res of Blocked \<Rightarrow> B | Done y \<Rightarrow> P y" using assms(1) by blast
  then show ?thesis using assms(2) by (cases res) auto
qed

section \<open>Words\<close>

lemma unat_of_nat_le: "n < 2 ^ LENGTH('a::len) \<Longrightarrow> unat (word_of_nat n :: 'a word) = n"
  by (simp add: unat_of_nat take_bit_nat_eq_self)

lemma word_of_nat_unat: "word_of_nat (unat x) = (x :: 'a::len word)"
  by simp

lemma word_of_nat_eqI: "unat x = n \<Longrightarrow> x = word_of_nat n"
  by auto

lemma unat_widen [simp]:
  "unat (ucast (x :: u8) :: u32) = unat x" "unat (ucast (y :: u32) :: u64) = unat y"
proof -
  have "unat x < 2 ^ 32" using unsigned_less [of x, where 'a = nat] by simp
  then show "unat (ucast x :: u32) = unat x"
    by (simp add: unsigned_ucast_eq take_bit_nat_eq_self)
  have "unat y < 2 ^ 64" using unsigned_less [of y, where 'a = nat] by simp
  then show "unat (ucast y :: u64) = unat y"
    by (simp add: unsigned_ucast_eq take_bit_nat_eq_self)
qed

lemma ucast_word_of_nat: "(ucast (y :: u32) :: u64) = word_of_nat (unat y)"
  by (rule word_of_nat_eqI) simp

lemma unat_plus_small:
  fixes x y :: "'a::len word"
  assumes "unat x + unat y < 2 ^ LENGTH('a)"
  shows "unat (x + y) = unat x + unat y"
  using assms by (simp add: unat_word_ariths)

lemma unat_minus_small:
  fixes x y :: "'a::len word"
  assumes "unat y \<le> unat x"
  shows "unat (x - y) = unat x - unat y"
  using assms by (simp add: unat_sub word_le_nat_alt)

lemma uint_less_iff_unat: "uint (x :: 'a::len word) < 2 ^ k \<longleftrightarrow> unat x < 2 ^ k"
  using of_nat_less_iff [of "unat x" "2 ^ k", where 'a = int] by simp

lemma int_less_power_iff: "int n < 2 ^ k \<longleftrightarrow> n < 2 ^ k"
  using of_nat_less_iff [of n "2 ^ k", where 'a = int] by simp

lemma signed_take_bit_minus:
  "signed_take_bit n (k - 2 ^ Suc n) = (signed_take_bit n k :: int)"
  by (simp only: signed_take_bit_eq_iff_take_bit_eq take_bit_eq_mod minus_mod_self2)

lemma sint_eq_unat:
  fixes x :: u64
  assumes "unat x < 2 ^ 63"
  shows "sint x = int (unat x)"
proof -
  have "uint x < 2 ^ 63" using assms uint_less_iff_unat [of x 63] by simp
  moreover have "- (2 ^ 63) \<le> uint x" using uint_ge_0 [of x] by (rule order.trans [rotated]) simp
  ultimately have "signed_take_bit 63 (uint x) = uint x"
    by (intro signed_take_bit_int_eq_self) simp_all
  then show ?thesis by (simp add: sint_uint)
qed

lemma sint_nonneg_unat:
  fixes x :: u64
  assumes "0 \<le> sint x"
  shows "unat x < 2 ^ 63" "sint x = int (unat x)"
proof -
  have lt: "sint x < 2 ^ 63" using sint_lt [of x] by simp
  have "uint x = sint x mod 2 ^ 64" by (simp add: uint_sint take_bit_eq_mod)
  also have "\<dots> = sint x" using assms lt by simp
  finally show *: "sint x = int (unat x)" by simp
  with lt have "uint x < 2 ^ 63" by simp
  then show "unat x < 2 ^ 63" by (simp only: uint_less_iff_unat)
qed

lemma sint_word_of_nat:
  assumes "n < 2 ^ 63"
  shows "sint (word_of_nat n :: u64) = int n"
proof -
  have u: "unat (word_of_nat n :: u64) = n" using assms by (intro unat_of_nat_le) simp
  have "sint (word_of_nat n :: u64) = int (unat (word_of_nat n :: u64))"
    by (rule sint_eq_unat) (simp only: u assms)
  then show ?thesis by (simp only: u)
qed

lemma sint_plus_of_nat:
  fixes x :: u64
  assumes "0 \<le> sint x" "unat x + n < 2 ^ 63"
  shows "sint (x + word_of_nat n) = sint x + int n"
proof -
  have n: "unat (word_of_nat n :: u64) = n" using assms(2) by (intro unat_of_nat_le) simp
  have u: "unat (x + word_of_nat n) = unat x + n"
    using assms(2) by (subst unat_plus_small) (simp_all add: n)
  have "sint (x + word_of_nat n) = int (unat (x + word_of_nat n))"
    by (rule sint_eq_unat) (simp only: u assms)
  then show ?thesis by (simp only: u of_nat_add sint_nonneg_unat(2) [OF assms(1)])
qed

section \<open>Lists\<close>

text \<open>The index \<^verbatim>\<open>memchr(s, c, n)\<close> finds, \<open>None\<close> for NULL.\<close>

fun memchr :: "byte list \<Rightarrow> byte \<Rightarrow> nat option" where
  "memchr [] c = None"
| "memchr (x # xs) c = (if x = c then Some 0 else map_option Suc (memchr xs c))"

lemma memchr_eq_None [simp]: "memchr xs c = None \<longleftrightarrow> c \<notin> set xs"
  by (induction xs) auto

lemma memchr_first: "memchr xs c = Some i \<Longrightarrow> i < length xs \<and> xs ! i = c \<and> c \<notin> set (take i xs)"
  by (induction xs arbitrary: i) (auto split: if_splits simp: less_Suc_eq_0_disj)

lemma those_map_Some [simp]: "those (map Some xs) = Some xs"
  by (induction xs) auto

lemma sum_list_nth_le:
  fixes xs :: "nat list"
  shows "i < length xs \<Longrightarrow> xs ! i \<le> sum_list xs"
  by (rule member_le_sum_list) auto

lemma length_concat_drop_le:
  "length (concat (drop k xss)) \<le> length (concat xss)"
  by (metis append_take_drop_id concat_append le_add2 length_append)

lemma take_add_append:
  "take m xs @ take n (drop m xs) = take (m + n) xs"
  by (simp add: take_add)

end
