(* ===== verification/Kmem.thy ===== *)
theory Kmem
  imports Prelude
begin

text \<open>
  The kernel heap the driver allocates from.  A pointer is the identity of a block (\<open>0\<close> is
  NULL), a block is a list of cells, and a cell is \<open>None\<close> while nothing has been written to it.
  The allocator itself is not part of the repository: the address a call of \<^verbatim>\<open>kmalloc\<close> or
  \<^verbatim>\<open>krealloc\<close> returns is an argument of the operations below (\<open>0\<close> when it fails), and the two
  contracts state what the kernel documents of it.  Everything here that returns an option
  returns \<open>None\<close> on undefined behaviour.
\<close>

type_synonym addr = "64 word"
type_synonym block = "byte option list"
type_synonym heap = "addr \<rightharpoonup> block"

text \<open>
  No configuration of the kernel has a \<^verbatim>\<open>KMALLOC_MAX_SIZE\<close> above 4 GiB; larger requests fail.
\<close>

definition kmalloc_max :: nat where
  "kmalloc_max = 2 ^ 32"

definition kmalloc_contract :: "heap \<Rightarrow> addr \<Rightarrow> u64 \<Rightarrow> bool" where
  "kmalloc_contract h a n \<longleftrightarrow> (a \<noteq> 0 \<longrightarrow> h a = None \<and> unat n \<le> kmalloc_max)"

definition krealloc_contract :: "heap \<Rightarrow> addr \<Rightarrow> addr \<Rightarrow> u64 \<Rightarrow> bool" where
  "krealloc_contract h p a n \<longleftrightarrow> (a \<noteq> 0 \<longrightarrow> (a = p \<or> h a = None) \<and> unat n \<le> kmalloc_max)"

definition kmalloc :: "heap \<Rightarrow> addr \<Rightarrow> u64 \<Rightarrow> addr \<times> heap" where
  "kmalloc h a n = (if a = 0 then (0, h) else (a, h(a \<mapsto> replicate (unat n) None)))"

definition kfree :: "heap \<Rightarrow> addr \<Rightarrow> heap option" where
  "kfree h a = (if a = 0 then Some h else case h a of None \<Rightarrow> None | Some _ \<Rightarrow> Some (h(a := None)))"

text \<open>\<^verbatim>\<open>krealloc(p, 0)\<close> frees \<open>p\<close> and returns \<^verbatim>\<open>ZERO_SIZE_PTR\<close>, which is 16.\<close>

definition krealloc :: "heap \<Rightarrow> addr \<Rightarrow> addr \<Rightarrow> u64 \<Rightarrow> (addr \<times> heap) option" where
  "krealloc h p a n =
     (if n = 0 then map_option (\<lambda>h'. (16, h')) (kfree h p)
      else if p = 0 then Some (kmalloc h a n)
      else case h p of
        None \<Rightarrow> None
      | Some blk \<Rightarrow>
          if a = 0 then Some (0, h)
          else Some (a, (h(p := None))(a \<mapsto>
                 take (unat n) blk @ replicate (unat n - length blk) None)))"

definition mem_write :: "heap \<Rightarrow> addr \<Rightarrow> nat \<Rightarrow> byte list \<Rightarrow> heap option" where
  "mem_write h a off bs =
     (case h a of
        None \<Rightarrow> None
      | Some blk \<Rightarrow>
          if off + length bs \<le> length blk
          then Some (h(a \<mapsto> take off blk @ map Some bs @ drop (off + length bs) blk))
          else None)"

definition mem_read :: "heap \<Rightarrow> addr \<Rightarrow> nat \<Rightarrow> nat \<Rightarrow> byte list option" where
  "mem_read h a off n =
     (case h a of
        None \<Rightarrow> None
      | Some blk \<Rightarrow> if off + n \<le> length blk then those (take n (drop off blk)) else None)"

text \<open>An allocated block that is initialised throughout and holds exactly the bytes \<open>bs\<close>.\<close>

definition holds :: "heap \<Rightarrow> addr \<Rightarrow> byte list \<Rightarrow> bool" where
  "holds h a bs \<longleftrightarrow> h a = Some (map Some bs)"

text \<open>The bytes of an initialised block, as a function of its address.\<close>

definition bytes_at :: "heap \<Rightarrow> addr \<Rightarrow> byte list" where
  "bytes_at h a = (case h a of None \<Rightarrow> [] | Some blk \<Rightarrow> map the blk)"

section \<open>Laws of the heap operations\<close>

lemma holds_bytes_at [mem_simps]: "holds h a bs \<Longrightarrow> bytes_at h a = bs"
  by (simp add: holds_def bytes_at_def comp_def)

lemma holds_dom: "holds h a bs \<Longrightarrow> h a \<noteq> None"
  by (simp add: holds_def)

lemma holds_frame [simp]: "b \<noteq> a \<Longrightarrow> holds (h(b := x)) a bs = holds h a bs"
  by (simp add: holds_def)

lemma bytes_at_frame [simp]: "b \<noteq> a \<Longrightarrow> bytes_at (h(b := x)) a = bytes_at h a"
  by (simp add: bytes_at_def)

lemma mem_read_holds [mem_simps]:
  "holds h a bs \<Longrightarrow> off + n \<le> length bs \<Longrightarrow> mem_read h a off n = Some (take n (drop off bs))"
  by (simp add: mem_read_def holds_def take_map drop_map)

lemma kfree_holds [mem_simps]: "holds h a bs \<Longrightarrow> a \<noteq> 0 \<Longrightarrow> kfree h a = Some (h(a := None))"
  by (simp add: kfree_def holds_def)

lemma kfree_null [simp]: "kfree h 0 = Some h"
  by (simp add: kfree_def)

lemma kmalloc_null [simp]: "kmalloc h 0 n = (0, h)"
  by (simp add: kmalloc_def)

lemma mem_write_fresh [mem_simps]:
  "length bs = unat n \<Longrightarrow>
   mem_write (h(a \<mapsto> replicate (unat n) None)) a 0 bs = Some (h(a \<mapsto> map Some bs))"
  by (simp add: mem_write_def)

lemma kfree_fresh [mem_simps]:
  "a \<noteq> 0 \<Longrightarrow> h a = None \<Longrightarrow> kfree (h(a \<mapsto> blk)) a = Some h"
  by (auto simp: kfree_def fun_upd_idem)

text \<open>Each of the operations leaves the blocks it is not given alone.\<close>

lemma kheap_frame:
  "kfree h a = Some h' \<Longrightarrow> b \<noteq> a \<Longrightarrow> h' b = h b"
  "mem_write h a off bs = Some h' \<Longrightarrow> b \<noteq> a \<Longrightarrow> h' b = h b"
  "krealloc h p a n = Some (q, h') \<Longrightarrow> n \<noteq> 0 \<Longrightarrow> b \<noteq> p \<Longrightarrow> b \<noteq> a \<Longrightarrow> h' b = h b"
  "krealloc h p a n = Some (q, h') \<Longrightarrow> n \<noteq> 0 \<Longrightarrow> q = 0 \<or> q = a"
  by (auto simp: kfree_def mem_write_def krealloc_def kmalloc_def split: if_splits option.splits)

text \<open>Growing a block and writing behind its old contents appends to it.\<close>

lemma krealloc_append:
  assumes "holds h p bs" "p \<noteq> 0" "a \<noteq> 0"
    and "unat n = length bs + length cs" "cs \<noteq> []"
  shows "krealloc h p a n = Some (a, (h(p := None))(a \<mapsto> map Some bs @ replicate (length cs) None))"
    and "mem_write ((h(p := None))(a \<mapsto> map Some bs @ replicate (length cs) None)) a (length bs) cs
         = Some ((h(p := None))(a \<mapsto> map Some (bs @ cs)))"
proof -
  have "n \<noteq> 0" using assms(4,5) by auto
  with assms show "krealloc h p a n =
      Some (a, (h(p := None))(a \<mapsto> map Some bs @ replicate (length cs) None))"
    by (simp add: krealloc_def holds_def)
  show "mem_write ((h(p := None))(a \<mapsto> map Some bs @ replicate (length cs) None)) a (length bs) cs
         = Some ((h(p := None))(a \<mapsto> map Some (bs @ cs)))"
    by (simp add: mem_write_def)
qed

lemma krealloc_fails:
  "holds h p bs \<Longrightarrow> p \<noteq> 0 \<Longrightarrow> n \<noteq> 0 \<Longrightarrow> krealloc h p 0 n = Some (0, h)"
  by (simp add: krealloc_def holds_def)

text \<open>Freeing a list of distinct allocated blocks succeeds and removes exactly those.\<close>

fun kfree_all :: "heap \<Rightarrow> addr list \<Rightarrow> heap option" where
  "kfree_all h [] = Some h"
| "kfree_all h (a # as) = do { h' \<leftarrow> kfree h a; kfree_all h' as }"

lemma kfree_all_distinct:
  assumes "distinct as" "\<forall>a \<in> set as. a \<noteq> 0 \<and> h a \<noteq> None"
  shows "kfree_all h as = Some (h |` (- set as))"
  using assms
proof (induction as arbitrary: h)
  case Nil
  then show ?case by simp
next
  case (Cons a as)
  then obtain blk where "h a = Some blk" by auto
  with Cons.prems have "kfree h a = Some (h(a := None))" by (simp add: kfree_def)
  moreover have "kfree_all (h(a := None)) as = Some ((h(a := None)) |` (- set as))"
    using Cons.prems by (intro Cons.IH) auto
  moreover have "(h(a := None)) |` (- set as) = h |` (- set (a # as))"
    by (auto simp: restrict_map_def fun_eq_iff)
  ultimately show ?case by simp
qed

end
