(* ===== verification/Command_Store.thy ===== *)
theory Command_Store
  imports Prelude
begin

text \<open>
  The contract between the driver and the buffer it stores commands in: a bounded store that
  keeps the most recent entries in order and locates the entry that holds a given offset of
  their concatenation.  \<open>push\<close> and \<open>locate\<close> are the reference definitions; the locale
  \<open>command_store\<close> states the contract, and its lemmas are what a client may rely on.
  The theory \<open>Circular_Buffer\<close> interprets it on the code's ring.
\<close>

section \<open>Reference definitions\<close>

text \<open>Append an entry and forget the oldest ones beyond the capacity.\<close>

definition push :: "nat \<Rightarrow> 'e list \<Rightarrow> 'e \<Rightarrow> 'e list" where
  "push n es e = drop (Suc (length es) - n) (es @ [e])"

lemma length_push [simp]: "length es \<le> n \<Longrightarrow> length (push n es e) = min n (Suc (length es))"
  by (auto simp: push_def)

lemma push_room: "length es < n \<Longrightarrow> push n es e = es @ [e]"
  by (simp add: push_def)

lemma push_full: "length es = n \<Longrightarrow> 0 < n \<Longrightarrow> push n es e = tl es @ [e]"
  by (cases es) (simp_all add: push_def)

lemma set_push: "set (push n es e) \<subseteq> insert e (set es)"
  unfolding push_def by (auto dest: in_set_dropD)

lemma map_push: "map f (push n es e) = push n (map f es) (f e)"
  by (simp add: push_def drop_map [symmetric])

text \<open>Pushing onto the last entries of a list gives the last entries of the longer list.\<close>

lemma push_drop:
  assumes "0 < n"
  shows "push n (drop (length xs - n) xs) e = drop (length (xs @ [e]) - n) (xs @ [e])"
proof (cases "length xs < n")
  case False
  then have "Suc (length (drop (length xs - n) xs)) - n = 1" using assms by simp
  moreover have "length (xs @ [e]) - n = Suc (length xs - n)" using False by simp
  ultimately show ?thesis using False assms by (simp add: push_def drop_Suc flip: drop_drop tl_drop)
qed (simp add: push_def)

text \<open>Which of several consecutive pieces of the given sizes holds an offset, and where in it.\<close>

fun locate :: "nat list \<Rightarrow> nat \<Rightarrow> (nat \<times> nat) option" where
  "locate [] off = None"
| "locate (s # ss) off =
     (if off < s then Some (0, off) else map_option (apfst Suc) (locate ss (off - s)))"

lemma locate_eq_None [simp]: "locate ss off = None \<longleftrightarrow> sum_list ss \<le> off"
  by (induction ss off rule: locate.induct) auto

lemma locate_SomeD:
  assumes "locate ss off = Some (i, k)"
  shows "i < length ss" "k < ss ! i" "off = sum_list (take i ss) + k"
proof -
  have "i < length ss \<and> k < ss ! i \<and> off = sum_list (take i ss) + k"
    using assms
  proof (induction ss off arbitrary: i k rule: locate.induct)
    case (2 s ss off)
    show ?case
    proof (cases "off < s")
      case False
      with "2.prems" obtain j where j: "i = Suc j" "locate ss (off - s) = Some (j, k)"
        by (auto simp: apfst_def map_prod_def split: prod.splits)
      with "2.IH" [OF False j(2)] False show ?thesis by auto
    qed (use "2.prems" in auto)
  qed simp
  then show "i < length ss" "k < ss ! i" "off = sum_list (take i ss) + k" by auto
qed

lemma locate_Some_ex: "off < sum_list ss \<Longrightarrow> \<exists>i k. locate ss off = Some (i, k)"
  using locate_eq_None [of ss off] by (cases "locate ss off") auto

lemma locate_drop_concat:
  assumes "locate (map length xss) off = Some (i, k)"
  shows "drop off (concat xss) = drop k (xss ! i) @ concat (drop (Suc i) xss)"
  using assms
proof (induction "map length xss" off arbitrary: xss i k rule: locate.induct)
  case (2 s ss off)
  then obtain xs yss where xss: "xss = xs # yss" "s = length xs" "ss = map length yss"
    by (cases xss) auto
  show ?case
  proof (cases "off < s")
    case False
    with 2(3) obtain j where j: "i = Suc j" "locate (map length yss) (off - s) = Some (j, k)"
      unfolding xss by (auto simp: apfst_def map_prod_def split: prod.splits)
    from 2(1) [OF False xss(3)] j(2) xss(3)
    have "drop (off - s) (concat yss) = drop k (yss ! j) @ concat (drop (Suc j) yss)" by simp
    with False xss j show ?thesis by simp
  qed (use 2(3) xss in auto)
qed simp

text \<open>Adding one entry after another.\<close>

fun add_all :: "('s \<Rightarrow> 'e \<Rightarrow> 's option) \<Rightarrow> 's \<Rightarrow> 'e list \<Rightarrow> 's option" where
  "add_all add s [] = Some s"
| "add_all add s (e # es) = do { s' \<leftarrow> add s e; add_all add s' es }"

section \<open>The contract\<close>

locale command_store =
  fixes cap :: nat
    and start :: 's
    and add :: "'s \<Rightarrow> 'e \<Rightarrow> 's option"
    and find :: "'s \<Rightarrow> u64 \<Rightarrow> ('e \<times> u64) option option"
    and entries :: "'s \<Rightarrow> 'e list"
    and len :: "'e \<Rightarrow> nat"
    and inv :: "'s \<Rightarrow> bool"
  assumes cap_pos: "0 < cap"
    and inv_start: "inv start"
    and entries_start: "entries start = []"
    and entries_bound: "inv s \<Longrightarrow> length (entries s) \<le> cap"
    and add_spec: "inv s \<Longrightarrow> \<exists>s'. add s e = Some s' \<and> inv s' \<and> entries s' = push cap (entries s) e"
    and find_spec: "inv s \<Longrightarrow> sum_list (map len (entries s)) < 2 ^ 64 \<Longrightarrow>
      find s off = Some (map_option (\<lambda>(i, k). (entries s ! i, word_of_nat k))
        (locate (map len (entries s)) (unat off)))"
begin

text \<open>Any number of additions keeps exactly the most recent \<open>cap\<close> entries, oldest first.\<close>

lemma add_all_spec:
  "inv s \<Longrightarrow> \<exists>s'. add_all add s es = Some s' \<and> inv s' \<and>
     entries s' = drop (length (entries s @ es) - cap) (entries s @ es)"
proof (induction es arbitrary: s)
  case Nil
  then show ?case using entries_bound [of s] by simp
next
  case (Cons e es)
  obtain s1 where s1: "add s e = Some s1" "inv s1" "entries s1 = push cap (entries s) e"
    using add_spec [OF Cons.prems] by blast
  obtain s2 where s2: "add_all add s1 es = Some s2" "inv s2"
    "entries s2 = drop (length (entries s1 @ es) - cap) (entries s1 @ es)"
    using Cons.IH [OF s1(2)] by blast
  have "entries s2 = drop (length (entries s @ e # es) - cap) (entries s @ e # es)"
    using s1(3) s2(3) entries_bound [OF Cons.prems]
    by (cases "length (entries s) < cap") (auto simp: push_room push_def drop_Cons' not_less)
  with s1 s2 show ?case by simp
qed

lemma add_all_start:
  "\<exists>s'. add_all add start es = Some s' \<and> inv s' \<and> entries s' = drop (length es - cap) es"
  using add_all_spec [OF inv_start] by (simp add: entries_start)

text \<open>Finding fails exactly from the end of the stored data on.\<close>

lemma find_none:
  "inv s \<Longrightarrow> sum_list (map len (entries s)) < 2 ^ 64 \<Longrightarrow>
   find s off = Some None \<longleftrightarrow> sum_list (map len (entries s)) \<le> unat off"
  by (simp add: find_spec)

text \<open>
  A successful search names the entry and the position in it that continue the concatenated
  data from the given offset, whatever bytes the entries stand for.
\<close>

lemma find_some:
  assumes "inv s" "sum_list (map len (entries s)) < 2 ^ 64"
    and "unat off < sum_list (map len (entries s))"
    and "\<And>e. e \<in> set (entries s) \<Longrightarrow> length (bytes e) = len e"
  obtains i e k where
    "find s off = Some (Some (e, k))" "i < length (entries s)" "e = entries s ! i"
    "unat k < len e"
    "drop (unat off) (concat (map bytes (entries s))) =
       drop (unat k) (bytes e) @ concat (drop (Suc i) (map bytes (entries s)))"
proof -
  have lens: "map len (entries s) = map length (map bytes (entries s))" using assms(4) by simp
  obtain i k where ik: "locate (map len (entries s)) (unat off) = Some (i, k)"
    using locate_Some_ex [OF assms(3)] by blast
  note d = locate_SomeD [OF ik]
  have "k < 2 ^ 64"
    using d(1,2) assms(2) sum_list_nth_le [of i "map len (entries s)"] by simp
  then have k: "unat (word_of_nat k :: u64) = k" by (intro unat_of_nat_le) simp
  have i: "i < length (entries s)" using d(1) by simp
  show ?thesis
  proof (rule that)
    show "find s off = Some (Some (entries s ! i, word_of_nat k))"
      using find_spec [OF assms(1,2)] ik by simp
    show "unat (word_of_nat k :: u64) < len (entries s ! i)" using d(2) i k by simp
    show "drop (unat off) (concat (map bytes (entries s))) =
       drop (unat (word_of_nat k :: u64)) (bytes (entries s ! i)) @
         concat (drop (Suc i) (map bytes (entries s)))"
      using locate_drop_concat [OF ik [unfolded lens]] i k by simp
  qed (use i in simp_all)
qed

end

end
