(* ===== verification/Circular_Buffer.thy ===== *)
theory Circular_Buffer
  imports Kmem Command_Store
begin

text \<open>
  \<^verbatim>\<open>aesd-char-driver/aesd-circular-buffer.c\<close> and \<^verbatim>\<open>.h\<close>: the ring of ten write
  commands.  The ring stores pointers and sizes and never looks at the bytes.  The operations
  return \<open>None\<close> where an offset outside the array would be used.  The invariant \<open>cb_inv\<close> rules
  that out, \<open>contents\<close> reads the ring as a list, oldest entry first, and the interpretation
  \<open>ring\<close> of \<open>command_store\<close> is the refinement: the code implements a bounded list of the
  last ten entries.
\<close>

section \<open>Data\<close>

abbreviation MAX_OPS :: nat where "MAX_OPS \<equiv> 10"

record aesd_buffer_entry =
  buffptr :: addr
  esize :: u64

record aesd_circular_buffer =
  entry :: "aesd_buffer_entry list"
  in_offs :: u8
  out_offs :: u8
  full :: bool

definition null_entry :: aesd_buffer_entry where
  "null_entry = \<lparr>buffptr = 0, esize = 0\<rparr>"

text \<open>The sum is computed as an \<^verbatim>\<open>int\<close> and stored back in a \<^verbatim>\<open>uint8_t\<close>.\<close>

definition next_offs :: "u8 \<Rightarrow> u8" where
  "next_offs i = word_of_nat ((unat i + 1) mod MAX_OPS)"

lemma unat_next_offs [ring_simps]: "unat (next_offs i) = (unat i + 1) mod MAX_OPS"
  unfolding next_offs_def by (rule unat_of_nat_le) (simp add: less_trans [OF mod_less_divisor])

lemma unat_inc [ring_simps]: "unat (c :: u8) < MAX_OPS \<Longrightarrow> unat (c + 1) = unat c + 1"
  using unat_plus_small [of c 1] by simp

section \<open>Operations\<close>

definition aesd_circular_buffer_init ::
  "aesd_circular_buffer option \<Rightarrow> aesd_circular_buffer option" where
  "aesd_circular_buffer_init buffer =
     (case buffer of
        None \<Rightarrow> None
      | Some _ \<Rightarrow> Some \<lparr>entry = replicate MAX_OPS null_entry, in_offs = 0, out_offs = 0, full = False\<rparr>)"

text \<open>
  The result pairs the buffer after the call (\<open>None\<close> for a NULL argument) with the pointer the
  function returns.
\<close>

definition aesd_circular_buffer_add_entry ::
  "aesd_circular_buffer option \<Rightarrow> aesd_buffer_entry option \<Rightarrow>
   (aesd_circular_buffer option \<times> addr) option" where
  "aesd_circular_buffer_add_entry buffer add_entry =
     (let ret_val = 0 in
      case (buffer, add_entry) of
        (Some b, Some e) \<Rightarrow>
          if unat (in_offs b) < length (entry b) then
            (let b1 = (if \<not> full b then
                         b\<lparr>entry := (entry b)[unat (in_offs b) := e],
                           in_offs := next_offs (in_offs b)\<rparr>
                       else
                         b\<lparr>entry := (entry b)[unat (in_offs b) := e],
                           in_offs := next_offs (in_offs b),
                           out_offs := next_offs (out_offs b)\<rparr>);
                 b2 = (if in_offs b1 = out_offs b1 \<and> \<not> full b1 then b1\<lparr>full := True\<rparr> else b1)
             in Some (Some b2, ret_val))
          else None
      | _ \<Rightarrow> Some (buffer, 0))"

text \<open>
  The search loop: \<open>Some (Some (i, k))\<close> is a return of \<^verbatim>\<open>&buffer->entry[i]\<close> with \<open>k\<close> stored
  through the pointer argument, \<open>Some None\<close> a return of NULL.
\<close>

function find_loop ::
  "aesd_circular_buffer \<Rightarrow> u64 \<Rightarrow> u64 \<Rightarrow> u8 \<Rightarrow> u8 \<Rightarrow> (u8 \<times> u64) option option" where
  "find_loop b char_offset accumulated_bytes index entries_checked =
     (if unat entries_checked < MAX_OPS then
        if unat index < length (entry b) then
          let size = esize (entry b ! unat index) in
          if char_offset < accumulated_bytes + size then
            Some (Some (index, char_offset - accumulated_bytes))
          else
            let accumulated_bytes' = accumulated_bytes + size;
                index' = next_offs index;
                entries_checked' = entries_checked + 1 in
            if full b \<and> unat entries_checked' \<ge> MAX_OPS then Some None
            else if \<not> full b \<and> index' = in_offs b then Some None
            else find_loop b char_offset accumulated_bytes' index' entries_checked'
        else None
      else Some None)"
  by pat_completeness auto
termination
proof (relation "measure (\<lambda>(b, off, acc, i, c). MAX_OPS - unat c)", goal_cases)
  case (2 b off acc i c)
  then show ?case by (simp add: unat_inc)
qed simp

declare find_loop.simps [simp del]

text \<open>
  The result pairs the index of the entry returned (\<open>None\<close> for NULL) with the variable behind
  \<^verbatim>\<open>entry_offset_byte_rtn\<close> after the call (\<open>None\<close> when that pointer is NULL).
\<close>

definition aesd_circular_buffer_find_entry_offset_for_fpos ::
  "aesd_circular_buffer option \<Rightarrow> u64 \<Rightarrow> u64 option \<Rightarrow> (u8 option \<times> u64 option) option" where
  "aesd_circular_buffer_find_entry_offset_for_fpos buffer char_offset entry_offset_byte_rtn =
     (case (buffer, entry_offset_byte_rtn) of
        (Some b, Some r) \<Rightarrow>
          if \<not> full b \<and> in_offs b = out_offs b then Some (None, Some r)
          else (case find_loop b char_offset 0 (out_offs b) 0 of
                  None \<Rightarrow> None
                | Some None \<Rightarrow> Some (None, Some r)
                | Some (Some (index, k)) \<Rightarrow> Some (Some index, Some k))
      | _ \<Rightarrow> Some (None, entry_offset_byte_rtn))"

text \<open>
  \<^verbatim>\<open>AESD_CIRCULAR_BUFFER_FOREACH\<close> runs its body with \<open>index = 0, \<dots>, 9\<close>, whether or not the
  slot is in use.
\<close>

definition foreach_indices :: "nat list" where
  "foreach_indices = [0..<MAX_OPS]"

section \<open>Invariant and abstraction\<close>

definition cb_inv :: "aesd_circular_buffer \<Rightarrow> bool" where
  "cb_inv b \<longleftrightarrow>
     length (entry b) = MAX_OPS \<and> unat (in_offs b) < MAX_OPS \<and> unat (out_offs b) < MAX_OPS \<and>
     (if full b then in_offs b = out_offs b
      else out_offs b = 0 \<and> (\<forall>i \<in> {unat (in_offs b)..<MAX_OPS}. entry b ! i = null_entry))"

definition entry_count :: "aesd_circular_buffer \<Rightarrow> nat" where
  "entry_count b = (if full b then MAX_OPS else unat (in_offs b))"

definition slot :: "aesd_circular_buffer \<Rightarrow> nat \<Rightarrow> nat" where
  "slot b k = (unat (out_offs b) + k) mod MAX_OPS"

definition contents :: "aesd_circular_buffer \<Rightarrow> aesd_buffer_entry list" where
  "contents b = map (\<lambda>k. entry b ! slot b k) [0..<entry_count b]"

definition ring_start :: aesd_circular_buffer where
  "ring_start = \<lparr>entry = replicate MAX_OPS null_entry, in_offs = 0, out_offs = 0, full = False\<rparr>"

definition ring_add :: "aesd_circular_buffer \<Rightarrow> aesd_buffer_entry \<Rightarrow> aesd_circular_buffer option" where
  "ring_add b e =
     (case aesd_circular_buffer_add_entry (Some b) (Some e) of
        Some (Some b', _) \<Rightarrow> Some b'
      | _ \<Rightarrow> None)"

definition ring_find ::
  "aesd_circular_buffer \<Rightarrow> u64 \<Rightarrow> (aesd_buffer_entry \<times> u64) option option" where
  "ring_find b off =
     (case aesd_circular_buffer_find_entry_offset_for_fpos (Some b) off (Some 0) of
        Some (Some i, Some k) \<Rightarrow> Some (Some (entry b ! unat i, k))
      | Some (None, _) \<Rightarrow> Some None
      | _ \<Rightarrow> None)"

abbreviation entry_len :: "aesd_buffer_entry \<Rightarrow> nat" where
  "entry_len e \<equiv> unat (esize e)"

definition ring_bytes :: "aesd_circular_buffer \<Rightarrow> nat" where
  "ring_bytes b = sum_list (map entry_len (contents b))"

lemma length_contents [simp]: "length (contents b) = entry_count b"
  by (simp add: contents_def)

lemma nth_contents: "k < entry_count b \<Longrightarrow> contents b ! k = entry b ! slot b k"
  by (simp add: contents_def)

lemma contents_full:
  assumes "cb_inv b" "full b"
  shows "contents b = rotate (unat (out_offs b)) (entry b)"
  using assms
  by (intro nth_equalityI)
    (simp_all add: nth_contents entry_count_def cb_inv_def slot_def nth_rotate)

lemma contents_not_full:
  assumes "cb_inv b" "\<not> full b"
  shows "contents b = take (unat (in_offs b)) (entry b)"
  using assms
  by (intro nth_equalityI) (auto simp: nth_contents entry_count_def cb_inv_def slot_def)

lemma entry_count_le: "cb_inv b \<Longrightarrow> entry_count b \<le> MAX_OPS"
  by (auto simp: cb_inv_def entry_count_def)

lemma slot_less: "slot b k < MAX_OPS"
  by (simp add: slot_def)

section \<open>The search\<close>

text \<open>The two ways the loop ends without a match agree on the number of valid entries.\<close>

lemma last_entry_iff:
  assumes "cb_inv b" "k < entry_count b" "unat i = slot b (Suc k)"
  shows "(if full b then MAX_OPS \<le> Suc k else i = in_offs b) \<longleftrightarrow> Suc k = entry_count b"
proof (cases "full b")
  case False
  then have "slot b (Suc k) = Suc k mod MAX_OPS" "entry_count b = unat (in_offs b)" "entry_count b < MAX_OPS"
    using assms(1) by (auto simp: slot_def cb_inv_def entry_count_def)
  moreover have "i = in_offs b \<longleftrightarrow> slot b (Suc k) = unat (in_offs b)"
    using assms(3) by (simp add: word_unat_eq_iff)
  moreover have "Suc k \<le> entry_count b" using assms(2) by simp
  ultimately show ?thesis using False by auto
qed (use assms(2) in \<open>auto simp: entry_count_def\<close>)

lemma find_loop_step:
  assumes "cb_inv b" "k < entry_count b" "unat index = slot b k" "unat chk = k"
  shows "find_loop b off acc index chk =
     (let size = esize (contents b ! k) in
      if off < acc + size then Some (Some (index, off - acc))
      else if Suc k = entry_count b then Some None
      else find_loop b off (acc + size) (next_offs index) (chk + 1))"
proof -
  have "k < MAX_OPS" "length (entry b) = MAX_OPS"
    using assms(1,2) entry_count_le [OF assms(1)] by (auto simp: cb_inv_def)
  moreover have "unat (next_offs index) = slot b (Suc k)"
    using assms(3) by (simp add: ring_simps slot_def mod_simps)
  note stop = last_entry_iff [OF assms(1,2) this]
  ultimately show ?thesis
    using assms slot_less [of b k] stop
    by (subst find_loop.simps) (cases "full b", simp_all add: unat_inc Let_def nth_contents)
qed

text \<open>What the loop has passed with the \<open>k\<close>-th entry; the sum does not wrap around.\<close>

lemma find_loop_passed:
  assumes "ring_bytes b < 2 ^ 64" "k < entry_count b" "unat acc = sum_list (map entry_len (take k (contents b)))"
  shows "sum_list (map entry_len (take (Suc k) (contents b))) = unat acc + entry_len (contents b ! k)"
    "unat (acc + esize (contents b ! k)) = unat acc + entry_len (contents b ! k)"
proof -
  show sum: "sum_list (map entry_len (take (Suc k) (contents b))) = unat acc + entry_len (contents b ! k)"
    using assms(2,3) by (simp add: take_Suc_conv_app_nth)
  have "sum_list (map entry_len (take (Suc k) (contents b))) \<le> ring_bytes b"
    unfolding ring_bytes_def by (metis append_take_drop_id le_add1 map_append sum_list_append)
  with sum show "unat (acc + esize (contents b ! k)) = unat acc + entry_len (contents b ! k)"
    using assms(1) by (intro unat_plus_small) simp
qed

lemma find_loop_spec:
  assumes "cb_inv b" "ring_bytes b < 2 ^ 64" "k < entry_count b"
    and "unat index = slot b k" "unat chk = k"
    and "unat acc = sum_list (map entry_len (take k (contents b)))" "unat acc \<le> unat off"
  shows "find_loop b off acc index chk =
    Some (map_option (\<lambda>(i, p). (word_of_nat (slot b (k + i)), word_of_nat p))
      (locate (map entry_len (drop k (contents b))) (unat off - unat acc)))"
  using assms(3-)
proof (induction "entry_count b - k" arbitrary: k index chk acc)
  case (Suc n)
  let ?e = "contents b ! k"
  have k10: "k < MAX_OPS" using Suc.prems(1) entry_count_le [OF assms(1)] by simp
  have dk: "drop k (contents b) = ?e # drop (Suc k) (contents b)"
    using Suc.prems(1) by (simp add: Cons_nth_drop_Suc)
  note sum = find_loop_passed(1) [OF assms(2) Suc.prems(1,4)] and nowrap = find_loop_passed(2) [OF assms(2) Suc.prems(1,4)]
  note step = find_loop_step [OF assms(1) Suc.prems(1-3)]
  show ?case
  proof (cases "unat off < unat acc + entry_len ?e")
    case True
    moreover have "off - acc = word_of_nat (unat off - unat acc)"
      by (intro word_of_nat_eqI unat_minus_small Suc.prems(5))
    moreover have "index = word_of_nat (slot b k)"
      using Suc.prems(2) by (rule word_of_nat_eqI)
    moreover have "unat off - unat acc < entry_len ?e" using True Suc.prems(5) by simp
    ultimately show ?thesis unfolding step by (simp add: dk word_less_nat_alt nowrap)
  next
    case miss: False
    show ?thesis
    proof (cases "Suc k = entry_count b")
      case True
      then have "drop (Suc k) (contents b) = []" by simp
      with True miss show ?thesis by (simp add: step dk word_less_nat_alt nowrap)
    next
      case False
      have "find_loop b off (acc + esize ?e) (next_offs index) (chk + 1) =
        Some (map_option (\<lambda>(i, p). (word_of_nat (slot b (Suc k + i)), word_of_nat p))
          (locate (map entry_len (drop (Suc k) (contents b))) (unat off - unat (acc + esize ?e))))"
        using Suc.hyps(2) Suc.prems False miss sum k10
        by (intro Suc.hyps(1)) (simp_all add: nowrap ring_simps slot_def mod_simps)
      with False miss show ?thesis
        by (auto simp: step dk word_less_nat_alt nowrap apfst_def map_prod_def option.map_comp
            comp_def split: prod.splits intro!: option.map_cong)
    qed
  qed
qed simp

lemma find_entry_spec:
  assumes "cb_inv b" "ring_bytes b < 2 ^ 64"
  shows "aesd_circular_buffer_find_entry_offset_for_fpos (Some b) off (Some r) =
    Some (case locate (map entry_len (contents b)) (unat off) of
            None \<Rightarrow> (None, Some r)
          | Some (i, p) \<Rightarrow> (Some (word_of_nat (slot b i)), Some (word_of_nat p)))"
proof (cases "entry_count b = 0")
  case True
  then have "\<not> full b" "in_offs b = out_offs b" "contents b = []"
    using assms(1) by (auto simp: entry_count_def cb_inv_def unat_eq_0 contents_def split: if_splits)
  then show ?thesis by (simp add: aesd_circular_buffer_find_entry_offset_for_fpos_def)
next
  case False
  then have "\<not> (\<not> full b \<and> in_offs b = out_offs b)"
    using assms(1) by (auto simp: entry_count_def cb_inv_def)
  moreover have "unat (out_offs b) = slot b 0" using assms(1) by (simp add: slot_def cb_inv_def)
  ultimately show ?thesis
    using find_loop_spec [OF assms, of 0 "out_offs b" 0 0 off] False
    by (auto simp: aesd_circular_buffer_find_entry_offset_for_fpos_def simp del: locate_eq_None
        split: option.splits)
qed

section \<open>Adding an entry\<close>

lemma add_entry_eq:
  assumes "cb_inv b"
  shows "aesd_circular_buffer_add_entry (Some b) (Some e) =
    Some (Some \<lparr>entry = (entry b)[unat (in_offs b) := e], in_offs = next_offs (in_offs b),
            out_offs = (if full b then next_offs (out_offs b) else out_offs b),
            full = (full b \<or> next_offs (in_offs b) = out_offs b)\<rparr>, 0)"
  using assms by (cases b) (auto simp: aesd_circular_buffer_add_entry_def cb_inv_def Let_def)

lemma slot_wrap:
  assumes "unat (out_offs b) < MAX_OPS" "k < MAX_OPS"
  shows "slot b (Suc k) = unat (out_offs b) \<longleftrightarrow> k = 9"
proof (cases "unat (out_offs b) + Suc k < MAX_OPS")
  case False
  then have "slot b (Suc k) = unat (out_offs b) + Suc k - MAX_OPS"
    using assms by (simp add: slot_def mod_if)
  then show ?thesis using assms False by auto
qed (simp add: slot_def)

lemma cb_inv_start [simp]: "cb_inv ring_start"
  by (simp add: cb_inv_def ring_start_def)

lemma contents_start [simp]: "contents ring_start = []"
  by (simp add: contents_def ring_start_def entry_count_def)

lemma ring_add_full:
  assumes "cb_inv b" "full b"
  shows "\<exists>b'. ring_add b e = Some b' \<and> cb_inv b' \<and> contents b' = tl (contents b) @ [e] \<and> entry_count b = MAX_OPS"
proof -
  define b' where "b' = \<lparr>entry = (entry b)[unat (in_offs b) := e], in_offs = next_offs (in_offs b),
            out_offs = next_offs (out_offs b), full = True\<rparr>"
  have add: "ring_add b e = Some b'"
    using add_entry_eq [OF assms(1), of e] assms(2) by (simp add: ring_add_def b'_def)
  have c: "entry_count b = MAX_OPS" "entry_count b' = MAX_OPS" using assms(2) by (simp_all add: entry_count_def b'_def)
  have slot': "slot b' k = slot b (Suc k)" for k
    using assms(2) by (simp add: slot_def b'_def ring_simps mod_simps)
  have in': "in_offs b = out_offs b" "length (entry b) = MAX_OPS" "unat (out_offs b) < MAX_OPS"
    using assms by (auto simp: cb_inv_def)
  have nth': "entry b' ! slot b' k = (if k = 9 then e else contents b ! Suc k)" if "k < MAX_OPS" for k
  proof -
    have "entry b' = (entry b)[unat (out_offs b) := e]" using in'(1) by (simp add: b'_def)
    then show ?thesis
      using slot_wrap [OF in'(3) that] in'(2,3) c(1) that
      by (cases "k = 9") (simp_all add: slot' nth_contents)
  qed
  have "contents b' = tl (contents b) @ [e]"
    using c by (intro nth_equalityI) (auto simp: nth_contents [of _ b'] nth' nth_append nth_tl less_Suc_eq)
  moreover have "cb_inv b'" using assms by (auto simp: cb_inv_def b'_def ring_simps)
  ultimately show ?thesis using add c by blast
qed

lemma ring_add_room:
  assumes "cb_inv b" "\<not> full b"
  shows "\<exists>b'. ring_add b e = Some b' \<and> cb_inv b' \<and> contents b' = contents b @ [e] \<and> entry_count b < MAX_OPS"
proof -
  define b' where "b' = \<lparr>entry = (entry b)[unat (in_offs b) := e], in_offs = next_offs (in_offs b),
            out_offs = out_offs b, full = (next_offs (in_offs b) = out_offs b)\<rparr>"
  have add: "ring_add b e = Some b'"
    using add_entry_eq [OF assms(1), of e] assms(2) by (simp add: ring_add_def b'_def)
  let ?i = "unat (in_offs b)"
  have i: "?i < MAX_OPS" "out_offs b = 0" "entry_count b = ?i" "length (entry b) = MAX_OPS"
    using assms by (auto simp: cb_inv_def entry_count_def)
  have wrap: "next_offs (in_offs b) = 0 \<longleftrightarrow> Suc ?i = MAX_OPS"
    using i by (auto simp: word_unat_eq_iff ring_simps mod_Suc)
  then have c': "entry_count b' = Suc ?i" "\<And>k. k < Suc ?i \<Longrightarrow> slot b' k = k"
    using assms(2) i by (auto simp: entry_count_def b'_def slot_def ring_simps)
  have "contents b' = contents b @ [e]"
    using assms(2) i c' by (intro nth_equalityI)
      (auto simp: nth_contents nth_append slot_def b'_def nth_list_update less_Suc_eq)
  moreover have "cb_inv b'" using assms i wrap by (auto simp: cb_inv_def b'_def ring_simps mod_Suc)
  ultimately show ?thesis using add i by auto
qed

lemma ring_add_inv:
  assumes "cb_inv b"
  shows "\<exists>b'. ring_add b e = Some b' \<and> cb_inv b' \<and> contents b' = push MAX_OPS (contents b) e"
  using ring_add_full [OF assms, of e] ring_add_room [OF assms, of e]
  by (cases "full b") (auto simp: push_full push_room)

section \<open>The ring is a command store\<close>

lemma ring_find_spec:
  assumes "cb_inv b" "ring_bytes b < 2 ^ 64"
  shows "ring_find b off = Some (map_option (\<lambda>(i, k). (contents b ! i, word_of_nat k))
    (locate (map entry_len (contents b)) (unat off)))"
proof (cases "locate (map entry_len (contents b)) (unat off)")
  case None
  then show ?thesis by (simp add: ring_find_def find_entry_spec [OF assms] del: locate_eq_None)
next
  case (Some ik)
  moreover obtain i k where "ik = (i, k)" by force
  ultimately have ik: "locate (map entry_len (contents b)) (unat off) = Some (i, k)" by simp
  have "unat (word_of_nat (slot b i) :: u8) = slot b i"
    using slot_less [of b i] by (intro unat_of_nat_le) simp
  then show ?thesis
    using locate_SomeD(1) [OF ik] ik
    by (simp add: ring_find_def find_entry_spec [OF assms] nth_contents)
qed

interpretation ring: command_store MAX_OPS ring_start ring_add ring_find contents entry_len cb_inv
proof unfold_locales
  show "cb_inv s \<Longrightarrow> length (contents s) \<le> MAX_OPS" for s by (simp add: entry_count_le)
qed (simp_all add: ring_add_inv ring_find_spec ring_bytes_def)

text \<open>The search as a client of the ring sees it: the index returned names the entry found.\<close>

lemma find_entry_found:
  assumes "cb_inv b" "ring_bytes b < 2 ^ 64" "unat off < ring_bytes b"
  obtains i k where
    "aesd_circular_buffer_find_entry_offset_for_fpos (Some b) off (Some r) = Some (Some i, Some k)"
    "ring_find b off = Some (Some (entry b ! unat i, k))"
proof -
  obtain i k where "locate (map entry_len (contents b)) (unat off) = Some (i, k)"
    using locate_Some_ex assms(3) unfolding ring_bytes_def by blast
  then show ?thesis
    using that by (simp add: find_entry_spec [OF assms(1,2)] ring_find_def)
qed

lemma find_entry_missing:
  assumes "cb_inv b" "ring_bytes b < 2 ^ 64" "ring_bytes b \<le> unat off"
  shows "aesd_circular_buffer_find_entry_offset_for_fpos (Some b) off (Some r) = Some (None, Some r)"
proof -
  have "locate (map entry_len (contents b)) (unat off) = None"
    using assms(3) by (simp add: ring_bytes_def)
  then show ?thesis by (simp add: find_entry_spec [OF assms(1,2)] del: locate_eq_None)
qed

section \<open>Small rings\<close>

text \<open>Two entries, and a full ring whose oldest entry is in slot 3, for the instances below.\<close>

definition demo_ring :: aesd_circular_buffer where
  "demo_ring = \<lparr>entry = [\<lparr>buffptr = 100, esize = 3\<rparr>, \<lparr>buffptr = 200, esize = 4\<rparr>] @ replicate 8 null_entry,
                in_offs = 2, out_offs = 0, full = False\<rparr>"

lemma demo_cb_inv [simp]: "cb_inv demo_ring"
  by (auto simp: cb_inv_def demo_ring_def nth_append)

lemma demo_contents:
  "contents demo_ring = [\<lparr>buffptr = 100, esize = 3\<rparr>, \<lparr>buffptr = 200, esize = 4\<rparr>]"
  by (simp add: contents_def entry_count_def slot_def demo_ring_def upt_rec)

definition full_ring :: aesd_circular_buffer where
  "full_ring = \<lparr>entry = map (\<lambda>i. \<lparr>buffptr = word_of_nat (100 + i), esize = 1\<rparr>) [0..<10],
                in_offs = 3, out_offs = 3, full = True\<rparr>"

lemma full_cb_inv [simp]: "cb_inv full_ring"
  by (simp add: cb_inv_def full_ring_def)

lemma full_contents:
  "contents full_ring =
     map (\<lambda>a. \<lparr>buffptr = a, esize = 1\<rparr>) [103, 104, 105, 106, 107, 108, 109, 100, 101, 102]"
  by (simp add: contents_def entry_count_def slot_def full_ring_def upt_rec)

section \<open>Properties\<close>

text \<open>
  C1.  Adding an entry to a well-formed ring is defined, keeps the ring well formed, and appends
  the entry to the stored ones, forgetting the oldest when there are ten already.
\<close>

theorem ring_add_refines:
  assumes "cb_inv b"
  shows "\<exists>b'. aesd_circular_buffer_add_entry (Some b) (Some e) = Some (Some b', 0) \<and>
    cb_inv b' \<and> contents b' = push MAX_OPS (contents b) e"
  using ring.add_spec [OF assms, of e] add_entry_eq [OF assms, of e] by (auto simp: ring_add_def)

theorem ring_add_refines_witness:
  "\<exists>b'. aesd_circular_buffer_add_entry (Some full_ring) (Some \<lparr>buffptr = 7, esize = 2\<rparr>) = Some (Some b', 0) \<and>
    cb_inv b' \<and> contents b' = tl (contents full_ring) @ [\<lparr>buffptr = 7, esize = 2\<rparr>]"
  using ring_add_refines [OF full_cb_inv, of "\<lparr>buffptr = 7, esize = 2\<rparr>"]
  by (simp add: full_contents push_def)

text \<open>
  C2.  Searching for an offset returns the entry that holds it and the position in that entry,
  or NULL exactly when the offset lies beyond the stored data; the variable for the position is
  written only when an entry is found.
\<close>

theorem ring_find_correct:
  assumes "cb_inv b" "ring_bytes b < 2 ^ 64"
  shows "if unat off < ring_bytes b then
      \<exists>i < entry_count b. \<exists>k.
        aesd_circular_buffer_find_entry_offset_for_fpos (Some b) off (Some r) =
          Some (Some (word_of_nat (slot b i)), Some k) \<and>
        unat off = sum_list (map entry_len (take i (contents b))) + unat k \<and>
        unat k < entry_len (contents b ! i)
    else aesd_circular_buffer_find_entry_offset_for_fpos (Some b) off (Some r) = Some (None, Some r)"
proof (cases "unat off < ring_bytes b")
  case True
  then obtain i k where ik: "locate (map entry_len (contents b)) (unat off) = Some (i, k)"
    using locate_Some_ex unfolding ring_bytes_def by blast
  have "unat (word_of_nat k :: u64) = k"
    using locate_SomeD(3) [OF ik] unsigned_less [of off, where 'a = nat] by (intro unat_of_nat_le) simp
  then show ?thesis
    using True locate_SomeD [OF ik] ik find_entry_spec [OF assms, of off r]
    by (auto simp: take_map intro!: exI [of _ i])
next
  case False
  then show ?thesis using find_entry_missing [OF assms] by simp
qed

theorem ring_find_correct_witness:
  "\<exists>i < entry_count demo_ring. \<exists>k.
     aesd_circular_buffer_find_entry_offset_for_fpos (Some demo_ring) 4 (Some 0) =
       Some (Some (word_of_nat (slot demo_ring i)), Some k) \<and>
     4 = sum_list (map entry_len (take i (contents demo_ring))) + unat k \<and>
     unat k < entry_len (contents demo_ring ! i)"
proof -
  have "ring_bytes demo_ring < 2 ^ 64" "unat (4 :: u64) < ring_bytes demo_ring"
    by (simp_all add: ring_bytes_def demo_contents)
  with ring_find_correct [OF demo_cb_inv, of 4 0] show ?thesis by simp
qed

text \<open>
  After any sequence of additions to an initialised ring, whatever it was before, it holds
  exactly the last ten entries added, in order, and no addition left the array.
\<close>

lemma ring_keeps_last_ten:
  "\<exists>b0 b. aesd_circular_buffer_init (Some any) = Some b0 \<and> add_all ring_add b0 es = Some b \<and> cb_inv b \<and>
     contents b = drop (length es - MAX_OPS) es"
  using ring.add_all_start [of es] by (auto simp: aesd_circular_buffer_init_def ring_start_def)

end
