(* ===== verification/Aesd_Dev.thy ===== *)
theory Aesd_Dev
  imports Circular_Buffer
begin

text \<open>
  The state of the driver \<^verbatim>\<open>aesd-char-driver/main.c\<close> and \<^verbatim>\<open>aesdchar.h\<close>: the device structure,
  an open file (\<^verbatim>\<open>struct file\<close>), the mutex, and the invariant that ties the ring's pointers to the kernel heap.
  \<open>abs_dev\<close> reads a device as the commands it stores and the bytes of an unfinished one; the
  specification of a write is \<open>spec_write\<close>.
\<close>

section \<open>Data\<close>

record aesd_dev =
  buffer :: aesd_circular_buffer
  buffer_lock :: bool
  partial_write :: addr
  partial_size :: u64

text \<open>\<^verbatim>\<open>private_data\<close> is NULL or points to the one device of the module.\<close>

datatype dev_ptr = NullDev | AesdDevice

record file_t =
  f_pos :: loff_t
  private_data :: dev_ptr

text \<open>The module's global state: \<^verbatim>\<open>aesd_device\<close>, the counter \<^verbatim>\<open>val\<close>, and the heap.\<close>

record kst =
  kheap :: heap
  aesd_device :: aesd_dev
  val :: u32

section \<open>The mutex\<close>

text \<open>
  \<^verbatim>\<open>buffer_lock\<close> is whether the mutex is held.  Taking a held mutex blocks for ever in a
  sequential run, and releasing a free one is undefined: both are \<open>None\<close>.
\<close>

definition mutex_lock :: "kst \<Rightarrow> kst option" where
  "mutex_lock st =
     (if buffer_lock (aesd_device st) then None
      else Some (st\<lparr>aesd_device := (aesd_device st)\<lparr>buffer_lock := True\<rparr>\<rparr>))"

definition mutex_unlock :: "kst \<Rightarrow> kst option" where
  "mutex_unlock st =
     (if buffer_lock (aesd_device st)
      then Some (st\<lparr>aesd_device := (aesd_device st)\<lparr>buffer_lock := False\<rparr>\<rparr>)
      else None)"

text \<open>With a signal pending the call returns \<^verbatim>\<open>-EINTR\<close> and does not take the mutex.\<close>

definition mutex_lock_interruptible :: "bool \<Rightarrow> kst \<Rightarrow> (ssize_t \<times> kst) option" where
  "mutex_lock_interruptible intr st =
     (if intr then Some (- 4, st) else map_option (Pair 0) (mutex_lock st))"

lemma lock_free:
  "\<not> buffer_lock (aesd_device st) \<Longrightarrow>
   mutex_lock st = Some (st\<lparr>aesd_device := (aesd_device st)\<lparr>buffer_lock := True\<rparr>\<rparr>)"
  by (simp add: mutex_lock_def)

lemma unlock_held:
  "buffer_lock (aesd_device st) \<Longrightarrow>
   mutex_unlock st = Some (st\<lparr>aesd_device := (aesd_device st)\<lparr>buffer_lock := False\<rparr>\<rparr>)"
  by (simp add: mutex_unlock_def)

lemmas mutex_defs = mutex_lock_def mutex_unlock_def mutex_lock_interruptible_def

section \<open>Invariant\<close>

text \<open>A block of exactly \<open>n\<close> cells, all of them initialised.\<close>

definition init_block :: "heap \<Rightarrow> addr \<Rightarrow> nat \<Rightarrow> bool" where
  "init_block h a n =
     (case h a of None \<Rightarrow> False | Some blk \<Rightarrow> length blk = n \<and> None \<notin> set blk)"

definition entry_ok :: "heap \<Rightarrow> aesd_buffer_entry \<Rightarrow> bool" where
  "entry_ok h e \<longleftrightarrow>
     buffptr e \<noteq> 0 \<and> 0 < entry_len e \<and> entry_len e \<le> kmalloc_max \<and>
     init_block h (buffptr e) (entry_len e)"

definition partial_ok :: "heap \<Rightarrow> aesd_dev \<Rightarrow> bool" where
  "partial_ok h d \<longleftrightarrow>
     (if partial_write d = 0 then partial_size d = 0
      else 0 < unat (partial_size d) \<and> unat (partial_size d) \<le> kmalloc_max \<and>
           init_block h (partial_write d) (unat (partial_size d)))"

text \<open>The blocks the device is responsible for.\<close>

definition owned :: "aesd_dev \<Rightarrow> addr list" where
  "owned d = (if partial_write d = 0 then [] else [partial_write d]) @
             map buffptr (contents (buffer d))"

definition dev_inv :: "kst \<Rightarrow> bool" where
  "dev_inv st \<longleftrightarrow>
     cb_inv (buffer (aesd_device st)) \<and>
     \<not> buffer_lock (aesd_device st) \<and>
     (\<forall>e \<in> set (contents (buffer (aesd_device st))). entry_ok (kheap st) e) \<and>
     partial_ok (kheap st) (aesd_device st) \<and>
     distinct (owned (aesd_device st))"

text \<open>Blocks that are allocated and that the device does not know: other users' and leaked ones.\<close>

definition stray :: "kst \<Rightarrow> addr set" where
  "stray st = dom (kheap st) - set (owned (aesd_device st))"

section \<open>Abstraction and specification\<close>

definition commands :: "kst \<Rightarrow> byte list list" where
  "commands st = map (\<lambda>e. bytes_at (kheap st) (buffptr e)) (contents (buffer (aesd_device st)))"

definition pending :: "kst \<Rightarrow> byte list" where
  "pending st = (if partial_write (aesd_device st) = 0 then []
                 else bytes_at (kheap st) (partial_write (aesd_device st)))"

definition abs_dev :: "kst \<Rightarrow> byte list list \<times> byte list" where
  "abs_dev st = (commands st, pending st)"

definition stored :: "kst \<Rightarrow> byte list" where
  "stored st = concat (commands st)"

text \<open>
  A write extends the unfinished command; once a newline has been written the whole of it
  becomes a command, and only the last ten commands are kept.
\<close>

definition spec_write :: "byte list \<Rightarrow> byte list list \<times> byte list \<Rightarrow> byte list list \<times> byte list" where
  "spec_write data = (\<lambda>(cs, p).
     if newline \<in> set data then (push MAX_OPS cs (p @ data), []) else (cs, p @ data))"

section \<open>Consequences of the invariant\<close>

lemma map_Some_the: "None \<notin> set blk \<Longrightarrow> map (Some \<circ> the) blk = blk"
  by (induction blk) auto

lemma init_block_holds:
  assumes "init_block h a n"
  shows "holds h a (bytes_at h a)" "length (bytes_at h a) = n"
  using assms
  by (auto simp: init_block_def holds_def bytes_at_def map_Some_the split: option.splits)

lemma init_block_upd [simp]:
  "init_block (h(a \<mapsto> map Some bs)) a n \<longleftrightarrow> length bs = n"
  "b \<noteq> a \<Longrightarrow> init_block (h(b := x)) a n = init_block h a n"
  by (auto simp: init_block_def)

lemma bytes_at_upd [simp]: "bytes_at (h(a \<mapsto> map Some bs)) a = bs"
  by (simp add: bytes_at_def comp_def)

lemma entry_ok_frame: "entry_ok h e \<Longrightarrow> b \<noteq> buffptr e \<Longrightarrow> entry_ok (h(b := x)) e"
  by (simp add: entry_ok_def)

lemma entry_ok_length: "entry_ok h e \<Longrightarrow> length (bytes_at h (buffptr e)) = entry_len e"
  by (auto simp: entry_ok_def dest: init_block_holds)

lemma dev_invD [dest]:
  assumes "dev_inv st"
  shows "cb_inv (buffer (aesd_device st))" "\<not> buffer_lock (aesd_device st)"
    "e \<in> set (contents (buffer (aesd_device st))) \<Longrightarrow> entry_ok (kheap st) e"
    "partial_ok (kheap st) (aesd_device st)" "distinct (owned (aesd_device st))"
  using assms by (auto simp: dev_inv_def)

lemma owned_allocated:
  assumes "dev_inv st" "a \<in> set (owned (aesd_device st))"
  shows "a \<noteq> 0" "kheap st a \<noteq> None"
  using assms
  by (auto simp: dev_inv_def owned_def entry_ok_def partial_ok_def init_block_def
      split: if_splits option.splits)

lemma sum_entry_le:
  "\<forall>e \<in> set es. entry_len e \<le> m \<Longrightarrow> sum_list (map entry_len es) \<le> length es * m"
  by (induction es) auto

text \<open>The ring never holds more than 40 GiB, so no sum of sizes wraps around.\<close>

lemma ring_bytes_bound:
  assumes "dev_inv st"
  shows "ring_bytes (buffer (aesd_device st)) \<le> MAX_OPS * kmalloc_max"
proof -
  let ?es = "contents (buffer (aesd_device st))"
  have "ring_bytes (buffer (aesd_device st)) \<le> length ?es * kmalloc_max"
    unfolding ring_bytes_def using assms
    by (intro sum_entry_le) (auto simp: dev_inv_def entry_ok_def)
  also have "\<dots> \<le> MAX_OPS * kmalloc_max"
    using entry_count_le [OF dev_invD(1) [OF assms]] by simp
  finally show ?thesis .
qed

lemma ring_bytes_small:
  assumes "dev_inv st"
  shows "ring_bytes (buffer (aesd_device st)) < 2 ^ 63"
    "ring_bytes (buffer (aesd_device st)) < 2 ^ 64"
  using ring_bytes_bound [OF assms] by (simp_all add: kmalloc_max_def)

lemma commands_lengths:
  assumes "dev_inv st"
  shows "map length (commands st) = map entry_len (contents (buffer (aesd_device st)))"
  using assms by (auto simp: commands_def dev_inv_def entry_ok_length)

lemma length_stored:
  assumes "dev_inv st"
  shows "length (stored st) = ring_bytes (buffer (aesd_device st))"
  using commands_lengths [OF assms] by (simp add: stored_def ring_bytes_def length_concat)

lemma commands_bound: "dev_inv st \<Longrightarrow> length (commands st) \<le> MAX_OPS"
  using entry_count_le [OF dev_invD(1)] by (simp add: commands_def)

text \<open>Locking and unlocking change nothing the invariant or the abstraction look at.\<close>

lemma lock_irrelevant [simp]:
  "kheap (st\<lparr>aesd_device := d\<rparr>) = kheap st"
  "commands (st\<lparr>aesd_device := d\<lparr>buffer_lock := l\<rparr>\<rparr>) = commands (st\<lparr>aesd_device := d\<rparr>)"
  "pending (st\<lparr>aesd_device := d\<lparr>buffer_lock := l\<rparr>\<rparr>) = pending (st\<lparr>aesd_device := d\<rparr>)"
  "owned (d\<lparr>buffer_lock := l\<rparr>) = owned d"
  by (simp_all add: commands_def pending_def owned_def)

section \<open>The ring and the heap\<close>

definition ring_ptrs :: "aesd_circular_buffer \<Rightarrow> addr set" where
  "ring_ptrs b = buffptr ` set (contents b)"

text \<open>The part of the invariant that concerns the ring alone.\<close>

definition ring_ok :: "heap \<Rightarrow> aesd_circular_buffer \<Rightarrow> bool" where
  "ring_ok h b \<longleftrightarrow> cb_inv b \<and> (\<forall>e \<in> set (contents b). entry_ok h e) \<and>
                 distinct (map buffptr (contents b))"

lemma dev_inv_iff:
  "dev_inv st \<longleftrightarrow>
     \<not> buffer_lock (aesd_device st) \<and> ring_ok (kheap st) (buffer (aesd_device st)) \<and>
     partial_ok (kheap st) (aesd_device st) \<and>
     partial_write (aesd_device st) \<notin> ring_ptrs (buffer (aesd_device st))"
  by (auto simp: dev_inv_def ring_ok_def owned_def ring_ptrs_def entry_ok_def image_iff
      split: if_splits)

definition partial_ptrs :: "aesd_dev \<Rightarrow> addr set" where
  "partial_ptrs d = (if partial_write d = 0 then {} else {partial_write d})"

lemma set_owned: "set (owned d) = partial_ptrs d \<union> ring_ptrs (buffer d)"
  by (simp add: owned_def ring_ptrs_def partial_ptrs_def)

lemma ring_ok_frame: "ring_ok h b \<Longrightarrow> a \<notin> ring_ptrs b \<Longrightarrow> ring_ok (h(a := x)) b"
  by (auto simp: ring_ok_def ring_ptrs_def intro!: entry_ok_frame)

lemma ring_ok_allocated: "ring_ok h b \<Longrightarrow> a \<in> ring_ptrs b \<Longrightarrow> a \<noteq> 0 \<and> h a \<noteq> None"
  by (auto simp: ring_ok_def ring_ptrs_def entry_ok_def init_block_def split: option.splits)

text \<open>The oldest block, when an addition is about to overwrite it.\<close>

definition evicted :: "aesd_circular_buffer \<Rightarrow> addr set" where
  "evicted b = (if entry_count b = MAX_OPS then {buffptr (hd (contents b))} else {})"

lemma evicted_subset: "evicted b \<subseteq> ring_ptrs b"
proof (cases "contents b")
  case Nil
  then have "entry_count b = 0" by (simp flip: length_contents)
  then show ?thesis by (simp add: evicted_def)
qed (auto simp: evicted_def ring_ptrs_def)

lemma ring_ok_add:
  assumes "ring_ok h b" "entry_ok h e" "buffptr e \<notin> ring_ptrs b"
  shows "\<exists>b'. ring_add b e = Some b' \<and> ring_ok h b' \<and>
    contents b' = push MAX_OPS (contents b) e \<and>
    ring_ptrs b' = insert (buffptr e) (ring_ptrs b) - evicted b"
proof -
  obtain b' where b': "ring_add b e = Some b'" "cb_inv b'"
      "contents b' = push MAX_OPS (contents b) e"
    using ring.add_spec assms(1) unfolding ring_ok_def by blast
  have dist: "distinct (map buffptr (contents b @ [e]))"
    using assms(1,3) by (auto simp: ring_ok_def ring_ptrs_def)
  then have "distinct (map buffptr (contents b'))"
    by (metis b'(3) distinct_drop drop_map push_def)
  moreover have "\<forall>e' \<in> set (contents b'). entry_ok h e'"
    using set_push [of MAX_OPS "contents b" e] assms(1,2) b'(3) by (auto simp: ring_ok_def)
  moreover have "ring_ptrs b' = insert (buffptr e) (ring_ptrs b) - evicted b"
  proof (cases "entry_count b = MAX_OPS")
    case True
    then have "contents b' = tl (contents b) @ [e]" "contents b \<noteq> []"
      using b'(3) by (auto simp: push_full simp flip: length_0_conv)
    with dist True show ?thesis
      by (cases "contents b") (auto simp: ring_ptrs_def evicted_def image_iff)
  next
    case False
    then have "contents b' = contents b @ [e]"
      using b'(3) entry_count_le assms(1) by (fastforce simp: ring_ok_def intro: push_room)
    with False show ?thesis by (auto simp: ring_ptrs_def evicted_def)
  qed
  ultimately show ?thesis using b' by (auto simp: ring_ok_def)
qed

text \<open>The commands a ring stands for, over a given heap.\<close>

definition ring_commands :: "heap \<Rightarrow> aesd_circular_buffer \<Rightarrow> byte list list" where
  "ring_commands h b = map (\<lambda>e. bytes_at h (buffptr e)) (contents b)"

lemma commands_ring: "commands st = ring_commands (kheap st) (buffer (aesd_device st))"
  by (simp add: commands_def ring_commands_def)

lemma ring_commands_frame: "a \<notin> ring_ptrs b \<Longrightarrow> ring_commands (h(a := x)) b = ring_commands h b"
  by (auto simp: ring_commands_def ring_ptrs_def intro!: bytes_at_frame)

lemma ring_commands_push:
  "contents b' = push MAX_OPS (contents b) e \<Longrightarrow>
   ring_commands h b' = push MAX_OPS (ring_commands h b) (bytes_at h (buffptr e))"
  by (simp add: ring_commands_def map_push)

lemma pending_spec:
  assumes "dev_inv st"
  shows "length (pending st) = unat (partial_size (aesd_device st))"
    and "partial_write (aesd_device st) \<noteq> 0 \<Longrightarrow>
         holds (kheap st) (partial_write (aesd_device st)) (pending st)"
  using dev_invD(4) [OF assms]
  by (auto simp: partial_ok_def pending_def dest: init_block_holds split: if_splits)

lemma pending_empty_iff: "dev_inv st \<Longrightarrow> pending st = [] \<longleftrightarrow> partial_write (aesd_device st) = 0"
  using pending_spec(1) [of st] dev_invD(4) [of st]
  by (auto simp: partial_ok_def pending_def split: if_splits)

section \<open>A small device\<close>

text \<open>
  Two stored commands and an unfinished third one, for the instances of the theorems: the ring
  holds the blocks 100 and 200, the partial write is block 300.
\<close>

definition demo_heap :: heap where
  "demo_heap = [100 \<mapsto> map Some [CHR ''a'', CHR ''b'', newline],
                200 \<mapsto> map Some [CHR ''c'', CHR ''d'', CHR ''e'', newline],
                300 \<mapsto> [Some (CHR ''x'')]]"

definition demo_st :: kst where
  "demo_st = \<lparr>kheap = demo_heap,
    aesd_device = \<lparr>buffer = demo_ring, buffer_lock = False, partial_write = 300, partial_size = 1\<rparr>,
    val = 1\<rparr>"

definition demo_file :: file_t where
  "demo_file = \<lparr>f_pos = 1, private_data = AesdDevice\<rparr>"

lemma demo_file_sel [simp]: "f_pos demo_file = 1" "private_data demo_file = AesdDevice"
  by (simp_all add: demo_file_def)

lemma demo_inv [simp]: "dev_inv demo_st"
  unfolding dev_inv_def
  by (simp add: demo_st_def demo_contents owned_def partial_ok_def entry_ok_def init_block_def
      demo_heap_def kmalloc_max_def)

lemma demo_abs:
  "commands demo_st = [[CHR ''a'', CHR ''b'', newline], [CHR ''c'', CHR ''d'', CHR ''e'', newline]]"
  "pending demo_st = ''x''"
  by (simp_all add: commands_def pending_def demo_st_def demo_contents bytes_at_def demo_heap_def)

lemma demo_stored:
  "stored demo_st = [CHR ''a'', CHR ''b'', newline, CHR ''c'', CHR ''d'', CHR ''e'', newline]"
  by (simp add: stored_def demo_abs)

end
