(* ===== verification/Aesd_Write.thy ===== *)
theory Aesd_Write
  imports Aesd_Dev
begin

text \<open>
  \<^verbatim>\<open>aesd_write\<close> of \<^verbatim>\<open>aesd-char-driver/main.c\<close>.  The call's environment is made of
  arguments: the bytes readable at the user's buffer, the addresses \<^verbatim>\<open>kmalloc\<close> and
  \<^verbatim>\<open>krealloc\<close> return, and whether a signal interrupts the wait for the mutex.
\<close>

text \<open>
  \<^verbatim>\<open>copy_from_user\<close> fails when fewer than \<open>n\<close> bytes can be read at the user's address.
\<close>

definition copy_from_user :: "byte list \<Rightarrow> nat \<Rightarrow> byte list option" where
  "copy_from_user ubuf n = (if length ubuf < n then None else Some (take n ubuf))"

text \<open>
  The part of the function between taking and releasing the mutex.  The result is the return
  value, the variable \<^verbatim>\<open>tmp_buf\<close> at \<^verbatim>\<open>unlock_exit\<close> (\<open>0\<close> once its block has been handed on
  or freed), and the state.
\<close>

definition write_locked :: "kst \<Rightarrow> addr \<Rightarrow> u64 \<Rightarrow> addr \<Rightarrow> (ssize_t \<times> addr \<times> kst) option" where
  "write_locked st tmp_buf count krealloc_ret = do {
     bytes \<leftarrow> mem_read (kheap st) tmp_buf 0 (unat count);
     let has_newline = memchr bytes newline \<noteq> None;
     let dev = aesd_device st;
     if partial_write dev = 0 \<and> has_newline then do {
       b \<leftarrow> ring_add (buffer dev) \<lparr>buffptr = tmp_buf, esize = count\<rparr>;
       Some (count, 0, st\<lparr>aesd_device := dev\<lparr>buffer := b\<rparr>\<rparr>)
     } else do {
       combined \<leftarrow>
         (if partial_write dev \<noteq> 0 then
            let combined_size = partial_size dev + count in do {
              (combined_buf, h) \<leftarrow> krealloc (kheap st) (partial_write dev) krealloc_ret combined_size;
              if combined_buf = 0 then Some (None, h)
              else do {
                bs \<leftarrow> mem_read h tmp_buf 0 (unat count);
                h' \<leftarrow> mem_write h combined_buf (unat (partial_size dev)) bs;
                h'' \<leftarrow> kfree h' tmp_buf;
                Some (Some (combined_buf, combined_size), h'')
              }
            }
          else Some (Some (tmp_buf, count), kheap st));
       (case combined of
          (None, h) \<Rightarrow> Some (- ENOMEM, tmp_buf, st\<lparr>kheap := h\<rparr>)
        | (Some (combined_buf, combined_size), h) \<Rightarrow>
            if has_newline then do {
              b \<leftarrow> ring_add (buffer dev) \<lparr>buffptr = combined_buf, esize = combined_size\<rparr>;
              Some (count, 0, st\<lparr>kheap := h, aesd_device :=
                dev\<lparr>buffer := b, partial_write := 0, partial_size := 0\<rparr>\<rparr>)
            } else
              Some (count, 0, st\<lparr>kheap := h, aesd_device :=
                dev\<lparr>partial_write := combined_buf, partial_size := combined_size\<rparr>\<rparr>))
     }
   }"

text \<open>
  The debug message at the top reads \<^verbatim>\<open>*f_pos\<close> before any check, so a NULL \<^verbatim>\<open>f_pos\<close> is
  undefined behaviour.
\<close>

definition aesd_write ::
  "kst \<Rightarrow> file_t option \<Rightarrow> byte list option \<Rightarrow> u64 \<Rightarrow> loff_t option \<Rightarrow>
   addr \<Rightarrow> addr \<Rightarrow> bool \<Rightarrow> (ssize_t \<times> kst) option" where
  "aesd_write st0 filp buf count ppos kmalloc_ret krealloc_ret intr =
     (case ppos of
        None \<Rightarrow> None
      | Some pos \<Rightarrow>
        let st = st0\<lparr>val := val st0 + 1\<rparr> in
        (case (buf, filp) of
           (Some ubuf, Some f) \<Rightarrow>
             if sint pos < 0 \<or> count = 0 then Some (- EINVAL, st)
             else if private_data f = NullDev then Some (- EINVAL, st)
             else
               let (tmp_buf, h1) = kmalloc (kheap st) kmalloc_ret count in
               if tmp_buf = 0 then Some (- ENOMEM, st\<lparr>kheap := h1\<rparr>)
               else
                 (case copy_from_user ubuf (unat count) of
                    None \<Rightarrow> do { h2 \<leftarrow> kfree h1 tmp_buf; Some (- EFAULT, st\<lparr>kheap := h2\<rparr>) }
                  | Some bs \<Rightarrow> do {
                      h2 \<leftarrow> mem_write h1 tmp_buf 0 bs;
                      (lock, st1) \<leftarrow> mutex_lock_interruptible intr (st\<lparr>kheap := h2\<rparr>);
                      if lock \<noteq> 0 then do {
                        h3 \<leftarrow> kfree (kheap st1) tmp_buf;
                        Some (- ERESTARTSYS, st1\<lparr>kheap := h3\<rparr>)
                      } else do {
                        (retval, tmp_left, st2) \<leftarrow> write_locked st1 tmp_buf count krealloc_ret;
                        st3 \<leftarrow> mutex_unlock st2;
                        h \<leftarrow> kfree (kheap st3) tmp_left;
                        Some (retval, st3\<lparr>kheap := h\<rparr>)
                      }
                    })
         | _ \<Rightarrow> Some (- EINVAL, st)))"

text \<open>
  What the kernel promises of the two allocations of one call: the blocks it returns are not in
  use, and a request above the largest size fails.
\<close>

definition write_alloc_contract :: "kst \<Rightarrow> u64 \<Rightarrow> addr \<Rightarrow> addr \<Rightarrow> bool" where
  "write_alloc_contract st count a c \<longleftrightarrow>
     kmalloc_contract (kheap st) a count \<and>
     krealloc_contract (kheap st) (partial_write (aesd_device st)) c
       (partial_size (aesd_device st) + count) \<and>
     (c = a \<longrightarrow> c = 0)"

section \<open>The effect of a successful write\<close>

text \<open>
  The invariant again, the specified abstract state, and the blocks nobody owns: they grow by
  the block of the command that is pushed out, and by nothing else.
\<close>

definition write_effect :: "kst \<Rightarrow> byte list \<Rightarrow> kst \<Rightarrow> bool" where
  "write_effect st data st' \<longleftrightarrow>
     dev_inv st' \<and> abs_dev st' = spec_write data (abs_dev st) \<and>
     stray st' = stray st \<union> (if newline \<in> set data then evicted (buffer (aesd_device st)) else {})"

text \<open>The heap in which block \<open>p\<close> (if any) has given way to a block \<open>a\<close> holding \<open>bs\<close>.\<close>

definition replace_block :: "heap \<Rightarrow> addr \<Rightarrow> addr \<Rightarrow> byte list \<Rightarrow> heap" where
  "replace_block h p a bs = (if p = 0 then h else h(p := None))(a \<mapsto> map Some bs)"

lemma replace_block_spec [simp]:
  "init_block (replace_block h p a bs) a n \<longleftrightarrow> length bs = n"
  "bytes_at (replace_block h p a bs) a = bs"
  by (simp_all add: replace_block_def)

lemma dom_replace_block:
  "dom (replace_block h p a bs) = insert a (if p = 0 then dom h else dom h - {p})"
  by (auto simp: replace_block_def split: if_splits)

lemma replace_block_ring:
  assumes "p \<notin> ring_ptrs b" "a \<notin> ring_ptrs b"
  shows "ring_ok h b \<Longrightarrow> ring_ok (replace_block h p a bs) b"
    and "ring_commands (replace_block h p a bs) b = ring_commands h b"
  using assms by (auto simp: replace_block_def ring_ok_frame ring_commands_frame)

text \<open>What is known of the block \<open>a\<close> a write ends up with: it is new, or the old partial one.\<close>

definition block_step :: "kst \<Rightarrow> addr \<Rightarrow> u64 \<Rightarrow> byte list \<Rightarrow> bool" where
  "block_step st a n data \<longleftrightarrow>
     dev_inv st \<and> a \<noteq> 0 \<and> (a = partial_write (aesd_device st) \<or> kheap st a = None) \<and>
     data \<noteq> [] \<and> unat n = length (pending st @ data) \<and> unat n \<le> kmalloc_max"

lemma block_stepD:
  assumes "block_step st a n data"
  defines "p \<equiv> partial_write (aesd_device st)" and "b \<equiv> buffer (aesd_device st)"
  defines "h' \<equiv> replace_block (kheap st) p a (pending st @ data)"
  shows "a \<notin> ring_ptrs b" "p \<notin> ring_ptrs b" "ring_ok h' b"
    "ring_commands h' b = commands st" "entry_ok h' \<lparr>buffptr = a, esize = n\<rparr>"
    "bytes_at h' a = pending st @ data" "dom h' = insert a (dom (kheap st) - partial_ptrs (aesd_device st))"
    "a \<notin> stray st"
proof -
  have inv: "dev_inv st" using assms(1) by (simp add: block_step_def)
  then have ring: "ring_ok (kheap st) b" and p: "p \<notin> ring_ptrs b"
    by (simp_all add: dev_inv_iff p_def b_def)
  show "p \<notin> ring_ptrs b" by (rule p)
  show a: "a \<notin> ring_ptrs b"
    using assms(1) ring_ok_allocated [OF ring, of a] p by (auto simp: block_step_def p_def)
  show "ring_ok h' b" "ring_commands h' b = commands st"
    using replace_block_ring [OF p a] ring by (simp_all add: h'_def commands_ring b_def)
  show "entry_ok h' \<lparr>buffptr = a, esize = n\<rparr>"
    using assms(1) by (auto simp: entry_ok_def h'_def block_step_def)
  show "bytes_at h' a = pending st @ data" by (simp add: h'_def)
  show "dom h' = insert a (dom (kheap st) - partial_ptrs (aesd_device st))" "a \<notin> stray st"
    using assms(1)
    by (auto simp: h'_def p_def dom_replace_block partial_ptrs_def stray_def set_owned block_step_def)
qed

text \<open>No newline yet: the block becomes the partial command.\<close>

lemma accumulate_effect:
  assumes "block_step st a n data" "newline \<notin> set data"
    and "kheap st' = replace_block (kheap st) (partial_write (aesd_device st)) a (pending st @ data)"
    and "aesd_device st' = (aesd_device st)\<lparr>partial_write := a, partial_size := n\<rparr>"
  shows "write_effect st data st'"
proof -
  note d = block_stepD [OF assms(1)]
  have "dev_inv st'"
    using d assms(1) unfolding dev_inv_iff assms(3,4)
    by (auto simp: partial_ok_def block_step_def dev_inv_iff entry_ok_def)
  moreover have "abs_dev st' = spec_write data (abs_dev st)"
    using d assms(1,2)
    by (simp add: abs_dev_def spec_write_def commands_ring assms(3,4) pending_def [of st']
        block_step_def)
  moreover have "stray st' = stray st"
    using d(1,7,8) assms(1)
    by (auto simp: stray_def set_owned assms(3,4) partial_ptrs_def block_step_def)
  ultimately show ?thesis using assms(2) by (simp add: write_effect_def)
qed

text \<open>A newline: the block is added to the ring.\<close>

lemma complete_effect:
  assumes "block_step st a n data" "newline \<in> set data"
  obtains b' where "ring_add (buffer (aesd_device st)) \<lparr>buffptr = a, esize = n\<rparr> = Some b'"
    "\<And>st'. kheap st' = replace_block (kheap st) (partial_write (aesd_device st)) a (pending st @ data) \<Longrightarrow>
       aesd_device st' = (aesd_device st)\<lparr>buffer := b', partial_write := 0, partial_size := 0\<rparr> \<Longrightarrow>
       write_effect st data st'"
proof -
  note d = block_stepD [OF assms(1)]
  have "buffptr \<lparr>buffptr = a, esize = n\<rparr> \<notin> ring_ptrs (buffer (aesd_device st))" using d(1) by simp
  then obtain b' where b': "ring_add (buffer (aesd_device st)) \<lparr>buffptr = a, esize = n\<rparr> = Some b'"
    "ring_ok (replace_block (kheap st) (partial_write (aesd_device st)) a (pending st @ data)) b'"
    "contents b' = push MAX_OPS (contents (buffer (aesd_device st))) \<lparr>buffptr = a, esize = n\<rparr>"
    "ring_ptrs b' = insert a (ring_ptrs (buffer (aesd_device st))) - evicted (buffer (aesd_device st))"
    using ring_ok_add [OF d(3,5)] by auto
  show ?thesis
  proof (rule that [OF b'(1)])
    fix st' :: kst
    assume h': "kheap st' = replace_block (kheap st) (partial_write (aesd_device st)) a (pending st @ data)"
      and dev': "aesd_device st' = (aesd_device st)\<lparr>buffer := b', partial_write := 0, partial_size := 0\<rparr>"
    have "0 \<notin> ring_ptrs b'" using ring_ok_allocated [OF b'(2), of 0] by blast
    then have "dev_inv st'"
      using b'(2) assms(1) by (auto simp: dev_inv_iff h' dev' partial_ok_def block_step_def)
    moreover have "abs_dev st' = spec_write data (abs_dev st)"
      using d assms(2) ring_commands_push [OF b'(3)]
      by (simp add: abs_dev_def spec_write_def commands_ring [of st'] h' dev' pending_def [of st'])
    moreover have "stray st' = stray st \<union> evicted (buffer (aesd_device st))"
    proof -
      have sub: "ring_ptrs (buffer (aesd_device st)) \<subseteq> dom (kheap st)"
        using assms(1) ring_ok_allocated by (auto simp: block_step_def dev_inv_iff)
      have disj: "partial_ptrs (aesd_device st) \<inter> ring_ptrs (buffer (aesd_device st)) = {}"
        using d(2) by (simp add: partial_ptrs_def)
      show ?thesis
        using sub disj d(1,8) evicted_subset [of "buffer (aesd_device st)"]
        unfolding stray_def set_owned h' dev' d(7)
        by (auto simp: partial_ptrs_def b'(4))
    qed
    ultimately show "write_effect st data st'" using assms(2) by (simp add: write_effect_def)
  qed
qed

section \<open>Running the code\<close>

text \<open>The heap steps of appending to a partial command, in the order of the code.\<close>

lemma heap_append_steps:
  assumes "holds h p ps" "p \<noteq> 0" "c \<noteq> 0" "a \<noteq> 0" "c = p \<or> h c = None" "h a = None" "c \<noteq> a"
    and "unat n = length ps + length data" "data \<noteq> []"
  defines "h1 \<equiv> h(a \<mapsto> map Some data)"
  obtains h2 h3 where
    "krealloc h1 p c n = Some (c, h2)" "mem_read h2 a 0 (length data) = Some data"
    "mem_write h2 c (length ps) data = Some h3"
    "kfree h3 a = Some (replace_block h p c (ps @ data))"
proof -
  have ap: "a \<noteq> p" using assms(1,6) by (auto simp: holds_def)
  then have "holds h1 p ps" using assms(1) by (simp add: h1_def)
  note grow = krealloc_append [OF this assms(2,3,8,9)]
  show ?thesis
  proof (rule that [OF grow(1) _ grow(2)])
    show "mem_read ((h1(p := None))(c \<mapsto> map Some ps @ replicate (length data) None)) a 0 (length data)
        = Some data"
      using ap assms(7) by (intro trans [OF mem_read_holds [of _ _ data]]) (simp_all add: holds_def h1_def)
    have "(h1(p := None, c \<mapsto> map Some (ps @ data)))(a := None) =
        replace_block h p c (ps @ data)"
      using ap assms(2,6,7) by (auto simp: h1_def replace_block_def fun_eq_iff)
    then show "kfree (h1(p := None, c \<mapsto> map Some (ps @ data))) a = Some (replace_block h p c (ps @ data))"
      using assms(4,7) ap by (simp add: kfree_def h1_def)
  qed
qed

text \<open>
  The checks, the allocation and the copy at the top of the function reduce a call with valid
  arguments to the part under the mutex.
\<close>

definition unlocked_free :: "ssize_t \<times> addr \<times> kst \<Rightarrow> (ssize_t \<times> kst) option" where
  "unlocked_free = (\<lambda>(retval, tmp_left, st2). do {
     st3 \<leftarrow> mutex_unlock st2;
     h \<leftarrow> kfree (kheap st3) tmp_left;
     Some (retval, st3\<lparr>kheap := h\<rparr>)
   })"

definition locked_with :: "kst \<Rightarrow> addr \<Rightarrow> byte list \<Rightarrow> kst" where
  "locked_with st a data =
     st\<lparr>val := val st + 1, kheap := (kheap st)(a \<mapsto> map Some data),
        aesd_device := (aesd_device st)\<lparr>buffer_lock := True\<rparr>\<rparr>"

lemma aesd_write_valid:
  assumes "dev_inv st" "private_data f = AesdDevice" "0 \<le> sint pos" "count \<noteq> 0"
    and "unat count \<le> length ubuf" "a \<noteq> 0" "kheap st a = None"
  shows "aesd_write st (Some f) (Some ubuf) count (Some pos) a c False =
    do { r \<leftarrow> write_locked (locked_with st a (take (unat count) ubuf)) a count c; unlocked_free r }"
  using assms
  by (simp add: aesd_write_def kmalloc_def copy_from_user_def mem_write_fresh Let_def dev_inv_def
      mutex_defs locked_with_def unlocked_free_def cong: bind_option_cong)

text \<open>The post-state of a call, over the heap and the device fields it leaves.\<close>

definition after_write :: "kst \<Rightarrow> heap \<Rightarrow> aesd_circular_buffer \<Rightarrow> addr \<Rightarrow> u64 \<Rightarrow> kst" where
  "after_write st h b p n =
     st\<lparr>val := val st + 1, kheap := h,
        aesd_device := (aesd_device st)\<lparr>buffer := b, partial_write := p, partial_size := n\<rparr>\<rparr>"

lemma after_write_sel [simp]:
  "kheap (after_write st h b p n) = h"
  "aesd_device (after_write st h b p n) =
     (aesd_device st)\<lparr>buffer := b, partial_write := p, partial_size := n\<rparr>"
  by (simp_all add: after_write_def)

definition locked_result ::
  "kst \<Rightarrow> addr \<Rightarrow> byte list \<Rightarrow> heap \<Rightarrow> aesd_circular_buffer \<Rightarrow> addr \<Rightarrow> u64 \<Rightarrow> kst" where
  "locked_result st a data h b p n =
     (locked_with st a data)\<lparr>kheap := h, aesd_device :=
       (aesd_device (locked_with st a data))\<lparr>buffer := b, partial_write := p, partial_size := n\<rparr>\<rparr>"

lemma unlocked_free_locked:
  assumes "\<not> buffer_lock (aesd_device st)" "kfree h t = Some h'"
  shows "unlocked_free (r, t, locked_result st a data h b p n) = Some (r, after_write st h' b p n)"
  using assms
  by (cases st, cases "aesd_device st")
    (simp add: locked_result_def unlocked_free_def locked_with_def after_write_def mutex_unlock_def)

text \<open>\<open>write_locked\<close>, case by case.\<close>

lemma locked_with_sel [simp]:
  "kheap (locked_with st a data) = (kheap st)(a \<mapsto> map Some data)"
  "aesd_device (locked_with st a data) = (aesd_device st)\<lparr>buffer_lock := True\<rparr>"
  by (simp_all add: locked_with_def)

lemma locked_with_read:
  "length data = n \<Longrightarrow> mem_read (h(a \<mapsto> map Some data)) a 0 n = Some data"
  by (simp add: mem_read_holds holds_def)

lemma write_locked_first:
  assumes "partial_write (aesd_device st) = 0" "length data = unat count" "newline \<notin> set data"
  shows "write_locked (locked_with st a data) a count c =
    Some (count, 0, locked_result st a data ((kheap st)(a \<mapsto> map Some data))
      (buffer (aesd_device st)) a count)"
  using assms by (simp add: write_locked_def locked_with_read locked_result_def)

lemma write_locked_direct:
  assumes "partial_write (aesd_device st) = 0" "partial_size (aesd_device st) = 0"
    and "length data = unat count" "newline \<in> set data"
    and "ring_add (buffer (aesd_device st)) \<lparr>buffptr = a, esize = count\<rparr> = Some b"
  shows "write_locked (locked_with st a data) a count c =
    Some (count, 0, locked_result st a data ((kheap st)(a \<mapsto> map Some data)) b 0 0)"
  using assms by (cases st, cases "aesd_device st") (simp add: write_locked_def locked_with_read locked_with_def locked_result_def)

lemma write_locked_nomem:
  assumes "holds (kheap st) (partial_write (aesd_device st)) ps" "partial_write (aesd_device st) \<noteq> 0"
    and "length data = unat count" "kheap st a = None" "partial_size (aesd_device st) + count \<noteq> 0"
  shows "write_locked (locked_with st a data) a count 0 = Some (- ENOMEM, a, locked_with st a data)"
proof -
  have "a \<noteq> partial_write (aesd_device st)" using assms(1,4) by (auto simp: holds_def)
  with assms show ?thesis
    by (simp add: write_locked_def locked_with_read krealloc_fails)
qed

lemma write_locked_append:
  assumes "holds (kheap st) p ps" "p \<noteq> 0" "c \<noteq> 0" "a \<noteq> 0" "c = p \<or> kheap st c = None"
    and "kheap st a = None" "c \<noteq> a" "data \<noteq> []" "length data = unat count"
    and "p = partial_write (aesd_device st)" "length ps = unat (partial_size (aesd_device st))"
    and "unat (partial_size (aesd_device st) + count) = length ps + length data"
  shows "newline \<notin> set data \<Longrightarrow> write_locked (locked_with st a data) a count c =
    Some (count, 0, locked_result st a data (replace_block (kheap st) p c (ps @ data))
      (buffer (aesd_device st)) c (partial_size (aesd_device st) + count))"
    and "newline \<in> set data \<Longrightarrow>
      ring_add (buffer (aesd_device st))
        \<lparr>buffptr = c, esize = partial_size (aesd_device st) + count\<rparr> = Some b \<Longrightarrow>
      write_locked (locked_with st a data) a count c =
      Some (count, 0, locked_result st a data (replace_block (kheap st) p c (ps @ data)) b 0 0)"
proof -
  obtain h2 h3 where h:
    "krealloc ((kheap st)(a \<mapsto> map Some data)) p c (partial_size (aesd_device st) + count) = Some (c, h2)"
    "mem_read h2 a 0 (length data) = Some data"
    "mem_write h2 c (length ps) data = Some h3"
    "kfree h3 a = Some (replace_block (kheap st) p c (ps @ data))"
    using heap_append_steps [OF assms(1-7,12,8)] by blast
  note facts = h(1) [unfolded assms(10)] h(2) [unfolded assms(9)] h(3) [unfolded assms(11)] h(4)
    assms(2,3,9,10)
  show "newline \<notin> set data \<Longrightarrow> write_locked (locked_with st a data) a count c =
    Some (count, 0, locked_result st a data (replace_block (kheap st) p c (ps @ data))
      (buffer (aesd_device st)) c (partial_size (aesd_device st) + count))"
    using facts by (simp add: write_locked_def locked_with_read locked_result_def)
  show "newline \<in> set data \<Longrightarrow>
      ring_add (buffer (aesd_device st))
        \<lparr>buffptr = c, esize = partial_size (aesd_device st) + count\<rparr> = Some b \<Longrightarrow>
      write_locked (locked_with st a data) a count c =
      Some (count, 0, locked_result st a data (replace_block (kheap st) p c (ps @ data)) b 0 0)"
    using facts by (simp add: write_locked_def locked_with_read locked_result_def)
qed

text \<open>What it leaves alone, and what it leaves in \<^verbatim>\<open>tmp_buf\<close>.\<close>

lemma write_locked_frame:
  assumes "write_locked st a n c = Some (r, t, st')" "partial_size (aesd_device st) + n \<noteq> 0"
    and "b \<noteq> a" "b \<noteq> partial_write (aesd_device st)" "b \<noteq> c"
  shows "kheap st' b = kheap st b"
  using assms
  by (auto simp: write_locked_def Let_def kheap_frame split: bind_splits if_splits option.splits prod.splits
      dest: kheap_frame)

lemma write_locked_left:
  "write_locked st a n c = Some (r, t, st') \<Longrightarrow> t = 0 \<or> t = a"
  by (auto simp: write_locked_def Let_def split: bind_splits if_splits option.splits prod.splits)

section \<open>Every call\<close>

text \<open>The facts about one call that the cases below share.\<close>

lemma write_sizes:
  assumes "dev_inv st" "write_alloc_contract st count a c" "a \<noteq> 0" "count \<noteq> 0"
  shows "unat (partial_size (aesd_device st) + count) = length (pending st) + unat count"
    "partial_size (aesd_device st) + count \<noteq> 0"
proof -
  have "unat count \<le> kmalloc_max" "length (pending st) \<le> kmalloc_max"
    using assms(2,3) dev_invD(4) [OF assms(1)] pending_spec(1) [OF assms(1)]
    by (auto simp: write_alloc_contract_def kmalloc_contract_def partial_ok_def split: if_splits)
  then show *: "unat (partial_size (aesd_device st) + count) = length (pending st) + unat count"
    using pending_spec(1) [OF assms(1)]
    by (subst unat_plus_small) (simp_all add: kmalloc_max_def)
  show "partial_size (aesd_device st) + count \<noteq> 0"
    using * assms(4) by (metis add_is_0 unat_0 unat_eq_0)
qed

lemma write_block_step:
  assumes "dev_inv st" "write_alloc_contract st count a c" "a \<noteq> 0" "count \<noteq> 0"
    and "length data = unat count"
  shows "partial_write (aesd_device st) = 0 \<Longrightarrow> block_step st a count data"
    and "c \<noteq> 0 \<Longrightarrow> block_step st c (partial_size (aesd_device st) + count) data"
proof -
  have "data \<noteq> []" using assms(4,5) by (auto simp: unat_eq_0)
  then show "partial_write (aesd_device st) = 0 \<Longrightarrow> block_step st a count data"
    and "c \<noteq> 0 \<Longrightarrow> block_step st c (partial_size (aesd_device st) + count) data"
    using assms write_sizes [OF assms(1-4)] pending_empty_iff [OF assms(1)]
    by (auto simp: block_step_def write_alloc_contract_def kmalloc_contract_def krealloc_contract_def)
qed

lemma after_write_effect:
  assumes "block_step st a n data"
  defines "h \<equiv> replace_block (kheap st) (partial_write (aesd_device st)) a (pending st @ data)"
  shows "newline \<notin> set data \<Longrightarrow> write_effect st data (after_write st h (buffer (aesd_device st)) a n)"
    and "newline \<in> set data \<Longrightarrow>
      \<exists>b. ring_add (buffer (aesd_device st)) \<lparr>buffptr = a, esize = n\<rparr> = Some b \<and>
          write_effect st data (after_write st h b 0 0)"
proof -
  show "newline \<notin> set data \<Longrightarrow> write_effect st data (after_write st h (buffer (aesd_device st)) a n)"
    using accumulate_effect [OF assms(1)] by (simp add: h_def)
  assume nl: "newline \<in> set data"
  obtain b where "ring_add (buffer (aesd_device st)) \<lparr>buffptr = a, esize = n\<rparr> = Some b"
    "write_effect st data (after_write st h b 0 0)"
    by (rule complete_effect [OF assms(1) nl]) (auto simp: h_def)
  then show "\<exists>b. ring_add (buffer (aesd_device st)) \<lparr>buffptr = a, esize = n\<rparr> = Some b \<and>
          write_effect st data (after_write st h b 0 0)" by blast
qed

abbreviation locked_part :: "kst \<Rightarrow> addr \<Rightarrow> byte list \<Rightarrow> u64 \<Rightarrow> addr \<Rightarrow> (ssize_t \<times> kst) option" where
  "locked_part st a data count c \<equiv>
     do { r \<leftarrow> write_locked (locked_with st a data) a count c; unlocked_free r }"

lemma locked_part_first:
  assumes "block_step st a count data" "length data = unat count"
    and p: "partial_write (aesd_device st) = 0"
  shows "\<exists>st'. locked_part st a data count c = Some (count, st') \<and> write_effect st data st'"
proof -
  have inv: "dev_inv st" using assms(1) by (simp add: block_step_def)
  have pend: "pending st = []" "partial_size (aesd_device st) = 0"
    using pending_empty_iff [OF inv] pending_spec(1) [OF inv] p by (auto simp: unat_eq_0)
  note fin = unlocked_free_locked [OF dev_invD(2) [OF inv] kfree_null]
  have h: "replace_block (kheap st) (partial_write (aesd_device st)) a (pending st @ data) =
      (kheap st)(a \<mapsto> map Some data)" using p pend(1) by (simp add: replace_block_def)
  note eff = after_write_effect [OF assms(1), unfolded h]
  show ?thesis
  proof (cases "newline \<in> set data")
    case True
    with eff(2) obtain b where
      b: "ring_add (buffer (aesd_device st)) \<lparr>buffptr = a, esize = count\<rparr> = Some b"
      "write_effect st data (after_write st ((kheap st)(a \<mapsto> map Some data)) b 0 0)" by blast
    show ?thesis
      using b(2) write_locked_direct [OF p pend(2) assms(2) True b(1)] by (simp add: fin)
  next
    case False
    show ?thesis using eff(1) [OF False] write_locked_first [OF p assms(2) False]
      by (simp add: fin)
  qed
qed

lemma locked_part_append:
  assumes "block_step st c (partial_size (aesd_device st) + count) data" "length data = unat count"
    and p: "partial_write (aesd_device st) \<noteq> 0"
    and a: "a \<noteq> 0" "kheap st a = None" "c \<noteq> a"
  shows "\<exists>st'. locked_part st a data count c = Some (count, st') \<and> write_effect st data st'"
proof -
  have b: "dev_inv st" "c \<noteq> 0" "c = partial_write (aesd_device st) \<or> kheap st c = None" "data \<noteq> []"
    "unat (partial_size (aesd_device st) + count) = length (pending st) + length data"
    using assms(1) by (auto simp: block_step_def)
  note fin = unlocked_free_locked [OF dev_invD(2) [OF b(1)] kfree_null]
  note app = write_locked_append [OF pending_spec(2) [OF b(1) p] p b(2) a(1) b(3) a(2,3) b(4) assms(2)
    refl pending_spec(1) [OF b(1)] b(5)]
  note eff = after_write_effect [OF assms(1)]
  show ?thesis
  proof (cases "newline \<in> set data")
    case True
    with eff(2) obtain b' where
      b': "ring_add (buffer (aesd_device st)) \<lparr>buffptr = c, esize = partial_size (aesd_device st) + count\<rparr>
        = Some b'"
      "write_effect st data (after_write st
         (replace_block (kheap st) (partial_write (aesd_device st)) c (pending st @ data)) b' 0 0)"
      by blast
    show ?thesis using b'(2) app(2) [OF True b'(1)] by (simp add: fin)
  next
    case False
    show ?thesis using eff(1) [OF False] app(1) [OF False] by (simp add: fin)
  qed
qed

lemma aesd_write_success:
  assumes inv: "dev_inv st" and dev: "private_data f = AesdDevice"
    and args: "0 \<le> sint pos" "count \<noteq> 0" "unat count \<le> length ubuf"
    and alloc: "write_alloc_contract st count a c" "a \<noteq> 0" "pending st \<noteq> [] \<longrightarrow> c \<noteq> 0"
  shows "\<exists>st'. aesd_write st (Some f) (Some ubuf) count (Some pos) a c False = Some (count, st') \<and>
           write_effect st (take (unat count) ubuf) st'"
proof -
  let ?data = "take (unat count) ubuf"
  have len: "length ?data = unat count" using args(3) by simp
  have fresh: "kheap st a = None" "c \<noteq> a"
    using alloc(1,2) by (auto simp: write_alloc_contract_def kmalloc_contract_def)
  note step = write_block_step [OF inv alloc(1,2) args(2) len]
  show ?thesis
    unfolding aesd_write_valid [OF inv dev args alloc(2) fresh(1)]
  proof (cases "partial_write (aesd_device st) = 0")
    case True
    then show "\<exists>st'. locked_part st a ?data count c = Some (count, st') \<and> write_effect st ?data st'"
      by (intro locked_part_first step(1) len)
  next
    case False
    then have "c \<noteq> 0" using alloc(3) pending_empty_iff [OF inv] by simp
    with False show "\<exists>st'. locked_part st a ?data count c = Some (count, st') \<and> write_effect st ?data st'"
      using alloc(2) fresh len by (intro locked_part_append step(2)) auto
  qed
qed

text \<open>
  A call that fails leaves the device and the heap as they were: only the debug counter moves.
\<close>

definition unchanged_write :: "kst \<Rightarrow> kst \<Rightarrow> bool" where
  "unchanged_write st st' \<longleftrightarrow> st' = st\<lparr>val := val st + 1\<rparr>"

lemma aesd_write_no_memory:
  assumes inv: "dev_inv st" and dev: "private_data f = AesdDevice"
    and args: "0 \<le> sint pos" "count \<noteq> 0" "unat count \<le> length ubuf"
    and alloc: "write_alloc_contract st count a 0" "a \<noteq> 0" "pending st \<noteq> []"
  shows "\<exists>st'. aesd_write st (Some f) (Some ubuf) count (Some pos) a 0 False = Some (- ENOMEM, st') \<and>
           unchanged_write st st'"
proof -
  have fresh: "kheap st a = None"
    using alloc(1,2) by (auto simp: write_alloc_contract_def kmalloc_contract_def)
  have p: "partial_write (aesd_device st) \<noteq> 0" using alloc(3) pending_empty_iff [OF inv] by simp
  have len: "length (take (unat count) ubuf) = unat count" using args(3) by simp
  have d: "(aesd_device st)\<lparr>buffer_lock := False\<rparr> = aesd_device st"
    using dev_invD(2) [OF inv] by (cases "aesd_device st") simp
  have h: "((kheap st)(a := None)) = kheap st" using fresh by (auto simp: fun_eq_iff)
  have "write_locked (locked_with st a (take (unat count) ubuf)) a count 0 =
      Some (- ENOMEM, a, locked_with st a (take (unat count) ubuf))"
    by (rule write_locked_nomem [OF pending_spec(2) [OF inv p] p len fresh
        write_sizes(2) [OF inv alloc(1,2) args(2)]])
  then show ?thesis
    using alloc(2) d h
    by (simp add: aesd_write_valid [OF inv dev args alloc(2) fresh] unlocked_free_def mutex_unlock_def
        kfree_def unchanged_write_def locked_with_def)
qed

text \<open>
  Any call whatever, on a device that satisfies the invariant and with a non-NULL \<^verbatim>\<open>f_pos\<close>, is
  free of undefined behaviour, and it either stores all its bytes or changes nothing.
\<close>

definition write_errors :: "ssize_t set" where
  "write_errors = {- EINVAL, - ENOMEM, - EFAULT, - ERESTARTSYS}"

lemma aesd_write_rejected:
  assumes inv: "dev_inv st" and alloc: "write_alloc_contract st count a c"
    and bad: "buf = None \<or> filp = None \<or> sint pos < 0 \<or> count = 0 \<or>
      private_data (the filp) = NullDev \<or> a = 0 \<or> length (the buf) < unat count \<or> intr"
  shows "\<exists>r st'. aesd_write st filp buf count (Some pos) a c intr = Some (r, st') \<and>
           r \<in> write_errors \<and> unchanged_write st st'"
proof (cases "buf = None \<or> filp = None \<or> sint pos < 0 \<or> count = 0 \<or>
      private_data (the filp) = NullDev \<or> a = 0")
  case True
  then show ?thesis
    by (auto simp: aesd_write_def write_errors_def unchanged_write_def Let_def split: option.splits)
next
  case False
  then obtain ubuf f where bf: "buf = Some ubuf" "filp = Some f" by auto
  have a: "a \<noteq> 0" "kheap st a = None"
    using False alloc by (auto simp: write_alloc_contract_def kmalloc_contract_def)
  have h: "(kheap st)(a := None) = kheap st" using a(2) by (auto simp: fun_eq_iff)
  show ?thesis
  proof (cases "length ubuf < unat count")
    case True
    then show ?thesis using False bf a h
      by (simp add: aesd_write_def Let_def kmalloc_def copy_from_user_def kfree_def write_errors_def
          unchanged_write_def)
  next
    case ok: False
    with False bad bf have "intr" by simp
    then show ?thesis using False bf a h ok
      by (simp add: aesd_write_def Let_def kmalloc_def copy_from_user_def mem_write_fresh
          mutex_lock_interruptible_def kfree_def write_errors_def unchanged_write_def)
  qed
qed

definition stored_all :: "kst \<Rightarrow> byte list option \<Rightarrow> u64 \<Rightarrow> ssize_t \<Rightarrow> kst \<Rightarrow> bool" where
  "stored_all st buf count r st' \<longleftrightarrow>
     r = count \<and> 0 < sint r \<and> buf \<noteq> None \<and> write_effect st (take (unat count) (the buf)) st'"

lemma aesd_write_outcome:
  assumes inv: "dev_inv st" and alloc: "write_alloc_contract st count a c"
  shows "\<exists>r st'. aesd_write st filp buf count (Some pos) a c intr = Some (r, st') \<and>
     (stored_all st buf count r st' \<or> r \<in> write_errors \<and> unchanged_write st st')"
proof (cases "buf = None \<or> filp = None \<or> sint pos < 0 \<or> count = 0 \<or>
      private_data (the filp) = NullDev \<or> a = 0 \<or> length (the buf) < unat count \<or> intr")
  case True
  from aesd_write_rejected [OF inv alloc this] show ?thesis by blast
next
  case False
  then obtain ubuf f where bf: "buf = Some ubuf" "filp = Some f" by auto
  with False have ok: "private_data f = AesdDevice" "0 \<le> sint pos" "count \<noteq> 0"
      "unat count \<le> length ubuf" "a \<noteq> 0" "\<not> intr"
    by (auto intro: dev_ptr.exhaust [of "private_data f"])
  show ?thesis
  proof (cases "pending st \<noteq> [] \<and> c = 0")
    case True
    then show ?thesis
      using aesd_write_no_memory [OF inv ok(1-4) _ ok(5)] alloc bf ok(6)
      by (fastforce simp: write_errors_def)
  next
    case False
    have "unat count \<le> kmalloc_max"
      using alloc ok(5) by (simp add: write_alloc_contract_def kmalloc_contract_def)
    then have "sint count = int (unat count)"
      by (intro sint_eq_unat) (simp add: kmalloc_max_def)
    moreover have "0 < unat count" using ok(3) by (simp add: unat_gt_0)
    ultimately have "0 < sint count" by (metis of_nat_0_less_iff)
    with False show ?thesis
      using aesd_write_success [OF inv ok(1-4) alloc ok(5)] bf ok(6)
      by (fastforce simp: stored_all_def)
  qed
qed

lemma unchanged_write_keeps:
  assumes "unchanged_write st st'"
  shows "dev_inv st' = dev_inv st" "abs_dev st' = abs_dev st" "stray st' = stray st"
  using assms
  by (simp_all add: unchanged_write_def dev_inv_def abs_dev_def commands_def pending_def stray_def)

lemma aesd_write_inv:
  assumes "dev_inv st" "write_alloc_contract st count a c"
    and "aesd_write st filp buf count (Some pos) a c intr = Some (r, st')"
  shows "dev_inv st'"
  using aesd_write_outcome [OF assms(1,2), of filp buf pos intr] assms(1,3)
  by (auto simp: stored_all_def write_effect_def unchanged_write_keeps)

lemma write_errors_negative: "r \<in> write_errors \<Longrightarrow> sint r < 0"
  by (auto simp: write_errors_def)

section \<open>Properties\<close>

text \<open>
  C3.  A valid write for which memory is available returns the number of bytes written, extends
  the unfinished command by them, and turns it into the newest stored command when they contain
  a newline; at most the ten newest commands are kept.
\<close>

theorem aesd_write_stores:
  assumes "dev_inv st" "private_data f = AesdDevice"
    and "0 \<le> sint pos" "count \<noteq> 0" "unat count \<le> length ubuf"
    and "write_alloc_contract st count a c" "a \<noteq> 0" "pending st \<noteq> [] \<longrightarrow> c \<noteq> 0"
  shows "\<exists>st'. aesd_write st (Some f) (Some ubuf) count (Some pos) a c False = Some (count, st') \<and>
    dev_inv st' \<and>
    (let data = take (unat count) ubuf in
     if newline \<in> set data
     then commands st' = push MAX_OPS (commands st) (pending st @ data) \<and> pending st' = []
     else commands st' = commands st \<and> pending st' = pending st @ data)"
  using aesd_write_success [OF assms]
  by (auto simp: write_effect_def spec_write_def abs_dev_def Let_def split: if_splits)

lemma demo_alloc: "write_alloc_contract demo_st 2 500 300" "write_alloc_contract demo_st 2 500 0"
  by (simp_all add: write_alloc_contract_def kmalloc_contract_def krealloc_contract_def demo_st_def
      demo_heap_def kmalloc_max_def)

theorem aesd_write_stores_witness:
  "\<exists>st'. aesd_write demo_st (Some demo_file) (Some [CHR ''y'', newline]) 2 (Some 0) 500 300 False =
       Some (2, st') \<and> dev_inv st' \<and>
     commands st' = commands demo_st @ [[CHR ''x'', CHR ''y'', newline]] \<and> pending st' = []"
  using aesd_write_stores [OF demo_inv, of demo_file 0 2 "[CHR ''y'', newline]" 500 300] demo_alloc
  by (simp add: demo_abs push_def)

text \<open>
  A write with any arguments (but a NULL \<^verbatim>\<open>f_pos\<close>) and any behaviour of the allocator, of
  the user's memory and of signals has a defined result: no block is freed twice, used after
  being freed, written or read beyond its end or read before it is written, and the mutex is
  free afterwards.  Either all bytes are stored, or an error number is returned and the device
  and the heap are what they were.
\<close>

lemma aesd_write_defined:
  assumes "dev_inv st" "write_alloc_contract st count a c"
  shows "\<exists>r st'. aesd_write st filp buf count (Some pos) a c intr = Some (r, st') \<and> dev_inv st' \<and>
    (if 0 < sint r
     then r = count \<and> abs_dev st' = spec_write (take (unat count) (the buf)) (abs_dev st)
     else r \<in> {- EINVAL, - ENOMEM, - EFAULT, - ERESTARTSYS} \<and>
          kheap st' = kheap st \<and> aesd_device st' = aesd_device st)"
proof -
  obtain r st' where run: "aesd_write st filp buf count (Some pos) a c intr = Some (r, st')"
    and out: "stored_all st buf count r st' \<or> r \<in> write_errors \<and> unchanged_write st st'"
    using aesd_write_outcome [OF assms] by blast
  show ?thesis
    using run out aesd_write_inv [OF assms run] write_errors_negative [of r]
    by (auto simp: stored_all_def write_effect_def write_errors_def unchanged_write_def)
qed

end
