(* ===== verification/Aesd_Read.thy ===== *)
theory Aesd_Read
  imports Aesd_Dev
begin

text \<open>
  \<^verbatim>\<open>aesd_read\<close> of \<^verbatim>\<open>aesd-char-driver/main.c\<close>.  The user's buffer is given by the number of
  bytes that can be written at its address (\<open>None\<close> for NULL); \<^verbatim>\<open>copy_to_user\<close> fails when a
  copy would go beyond them.  The bytes that reached the user are the second component of the
  result.  The loop has no bound in the code, so it is a partial function: \<open>None\<close> is undefined
  behaviour or a loop that never ends, and the main lemma says that neither happens.
\<close>

section \<open>The code\<close>

text \<open>
  One run of the \<^verbatim>\<open>while\<close> loop: whether it left with \<^verbatim>\<open>-EFAULT\<close>, then \<^verbatim>\<open>*f_pos\<close>,
  \<^verbatim>\<open>bytes_copied\<close> and the bytes copied.
\<close>

partial_function (option) read_loop ::
  "nat \<Rightarrow> heap \<Rightarrow> aesd_circular_buffer \<Rightarrow> u64 \<Rightarrow> loff_t \<Rightarrow> u64 \<Rightarrow> u64 \<Rightarrow> byte list \<Rightarrow>
   (bool \<times> loff_t \<times> u64 \<times> byte list) option" where
  "read_loop cap h b remaining_count pos entry_offset bytes_copied out =
     (if remaining_count > 0 then do {
        found \<leftarrow> aesd_circular_buffer_find_entry_offset_for_fpos (Some b) pos (Some entry_offset);
        (case found of
           (None, _) \<Rightarrow> Some (False, pos, bytes_copied, out)
         | (Some index, offset_rtn) \<Rightarrow>
             let e = entry b ! unat index; entry_offset' = the offset_rtn in
             if buffptr e = 0 then Some (False, pos, bytes_copied, out)
             else
               let room = esize e - entry_offset';
                   bytes_to_read = (if room > remaining_count then remaining_count else room) in
               if cap < unat bytes_copied + unat bytes_to_read
               then Some (True, pos, bytes_copied, out)
               else do {
                 bs \<leftarrow> mem_read h (buffptr e) (unat entry_offset') (unat bytes_to_read);
                 read_loop cap h b (remaining_count - bytes_to_read) (pos + bytes_to_read)
                   entry_offset' (bytes_copied + bytes_to_read) (out @ bs)
               })
      } else Some (False, pos, bytes_copied, out))"

text \<open>The part of the function that holds the mutex.\<close>

definition read_locked ::
  "kst \<Rightarrow> nat \<Rightarrow> u64 \<Rightarrow> loff_t \<Rightarrow> (ssize_t \<times> byte list \<times> loff_t \<times> kst) option" where
  "read_locked st cap count pos = do {
     (fault, pos', bytes_copied, out) \<leftarrow>
       read_loop cap (kheap st) (buffer (aesd_device st)) count pos 0 0 [];
     let retval = (if fault then - EFAULT else if bytes_copied > 0 then bytes_copied else 0);
     st' \<leftarrow> mutex_unlock st;
     Some (retval, out, pos', st')
   }"

definition aesd_read ::
  "kst \<Rightarrow> file_t option \<Rightarrow> nat option \<Rightarrow> u64 \<Rightarrow> loff_t option \<Rightarrow> bool \<Rightarrow>
   (ssize_t \<times> byte list \<times> loff_t \<times> kst) option" where
  "aesd_read st filp buf count ppos intr =
     (case ppos of
        None \<Rightarrow> None
      | Some pos \<Rightarrow>
        (case (buf, filp) of
           (Some cap, Some f) \<Rightarrow>
             if sint pos < 0 \<or> count = 0 then Some (- EINVAL, [], pos, st)
             else if private_data f = NullDev then None
             else do {
               (retval, st1) \<leftarrow> mutex_lock_interruptible intr st;
               if retval \<noteq> 0 then Some (- ERESTARTSYS, [], pos, st1)
               else read_locked st1 cap count pos
             }
         | _ \<Rightarrow> Some (- EINVAL, [], pos, st)))"

lemmas aesd_read_defs = aesd_read_def read_locked_def

section \<open>The loop\<close>

text \<open>
  One iteration, in terms of the bytes stored: the chunk copied is the next part of the
  concatenated commands, and it is not empty.
\<close>

lemma read_loop_stop:
  assumes "ring_ok h b" "ring_bytes b < 2 ^ 64" "rem = 0 \<or> ring_bytes b \<le> unat pos"
  shows "read_loop cap h b rem pos eo copied out = Some (False, pos, copied, out)"
  using assms find_entry_missing [of b pos eo]
  by (subst read_loop.simps) (auto simp: ring_ok_def)

lemma find_chunk:
  assumes "ring_ok h b" "ring_bytes b < 2 ^ 64" "unat pos < ring_bytes b"
  obtains i k e where
    "aesd_circular_buffer_find_entry_offset_for_fpos (Some b) pos (Some eo) = Some (Some i, Some k)"
    "e = entry b ! unat i" "entry_ok h e" "unat k < entry_len e"
    "entry_len e - unat k \<le> ring_bytes b - unat pos"
    "\<And>n. n \<le> entry_len e - unat k \<Longrightarrow> take n (drop (unat pos) (concat (ring_commands h b))) =
       take n (drop (unat k) (bytes_at h (buffptr e)))"
proof -
  have inv: "cb_inv b" and ok: "\<And>e. e \<in> set (contents b) \<Longrightarrow> entry_ok h e"
    using assms(1) by (auto simp: ring_ok_def)
  obtain i k where find:
    "aesd_circular_buffer_find_entry_offset_for_fpos (Some b) pos (Some eo) = Some (Some i, Some k)"
    "ring_find b pos = Some (Some (entry b ! unat i, k))"
    using find_entry_found [OF inv assms(2,3)] by blast
  define e where "e = entry b ! unat i"
  let ?bytes = "\<lambda>e. bytes_at h (buffptr e)"
  have tot: "sum_list (map entry_len (contents b)) < 2 ^ 64"
      "unat pos < sum_list (map entry_len (contents b))"
    using assms(2,3) by (simp_all add: ring_bytes_def)
  obtain j e' k' where f: "ring_find b pos = Some (Some (e', k'))"
    "j < length (contents b)" "e' = contents b ! j" "unat k' < entry_len e'"
    "drop (unat pos) (concat (map ?bytes (contents b))) =
       drop (unat k') (?bytes e') @ concat (drop (Suc j) (map ?bytes (contents b)))"
    by (rule ring.find_some [OF inv tot, where bytes = ?bytes]) (simp_all add: ok entry_ok_length)
  have j: "e \<in> set (contents b)" "unat k < entry_len e"
    "drop (unat pos) (concat (ring_commands h b)) =
       drop (unat k) (?bytes e) @ concat (drop (Suc j) (ring_commands h b))"
    using f find(2) by (simp_all add: e_def ring_commands_def)
  note eok = ok [OF j(1)] and len = entry_ok_length [OF ok [OF j(1)]]
  have "length (drop (unat pos) (concat (ring_commands h b))) = ring_bytes b - unat pos"
    using ok by (simp add: length_concat ring_commands_def ring_bytes_def comp_def entry_ok_length
        cong: map_cong)
  then have "entry_len e - unat k \<le> ring_bytes b - unat pos" using len by (simp add: j(3))
  then show thesis by (rule that [OF find(1) e_def eok j(2)]) (simp add: j(3) len)
qed

lemma read_loop_chunk:
  assumes "ring_ok h b" "ring_bytes b < 2 ^ 64" "rem \<noteq> 0" "unat pos < ring_bytes b"
  obtains n eo' where "0 < unat n" "n \<le> rem" "unat n \<le> ring_bytes b - unat pos"
    "read_loop cap h b rem pos eo copied out =
      (if cap < unat copied + unat n then Some (True, pos, copied, out)
       else read_loop cap h b (rem - n) (pos + n) eo' (copied + n)
              (out @ take (unat n) (drop (unat pos) (concat (ring_commands h b)))))"
proof -
  obtain i k e where
    find: "aesd_circular_buffer_find_entry_offset_for_fpos (Some b) pos (Some eo) = Some (Some i, Some k)"
    and e: "e = entry b ! unat i" "entry_ok h e" "unat k < entry_len e"
      "entry_len e - unat k \<le> ring_bytes b - unat pos"
    and data: "\<And>n. n \<le> entry_len e - unat k \<Longrightarrow> take n (drop (unat pos) (concat (ring_commands h b))) =
       take n (drop (unat k) (bytes_at h (buffptr e)))"
    by (rule find_chunk [OF assms(1,2,4), of eo]) (rule that, assumption+)
  define n where "n = (if esize e - k > rem then rem else esize e - k)"
  have room: "unat (esize e - k) = entry_len e - unat k" using e(3) by (intro unat_minus_small) simp
  have n: "unat n = min (unat rem) (entry_len e - unat k)"
    using room by (auto simp: n_def word_less_nat_alt min_def)
  have read: "mem_read h (buffptr e) (unat k) (unat n) =
      Some (take (unat n) (drop (unat pos) (concat (ring_commands h b))))"
    using e(2,3) n entry_ok_length [OF e(2)]
    by (subst data) (auto simp: entry_ok_def intro!: mem_read_holds init_block_holds)
  have "read_loop cap h b rem pos eo copied out =
      (if cap < unat copied + unat n then Some (True, pos, copied, out)
       else read_loop cap h b (rem - n) (pos + n) k (copied + n)
              (out @ take (unat n) (drop (unat pos) (concat (ring_commands h b)))))"
    using find read e(2) assms(3)
    by (subst read_loop.simps, cases "rem < esize e - k")
      (simp_all add: Let_def e(1) [symmetric] n_def entry_ok_def word_gt_0)
  moreover have "0 < unat n" using n e(3) assms(3) by (simp add: unat_gt_0)
  moreover have "n \<le> rem" using n by (simp add: word_le_nat_alt)
  moreover have "unat n \<le> ring_bytes b - unat pos" using n e(4) by simp
  ultimately show thesis by (rule that [rotated 3])
qed

text \<open>
  What a run of the loop may return when \<open>n\<close> bytes can be delivered and \<open>rest\<close> is the data from
  the position on: all of the \<open>n\<close> bytes, or a part of them that the user's buffer has room for.
\<close>

definition loop_result ::
  "nat \<Rightarrow> nat \<Rightarrow> loff_t \<Rightarrow> u64 \<Rightarrow> byte list \<Rightarrow> byte list \<Rightarrow>
   (bool \<times> loff_t \<times> u64 \<times> byte list) option \<Rightarrow> bool" where
  "loop_result cap n pos copied out rest r \<longleftrightarrow>
     (\<exists>m \<le> n. (if unat copied + n \<le> cap then m = n else unat copied + m \<le> cap) \<and>
        r = Some (cap < unat copied + n, pos + word_of_nat m, copied + word_of_nat m, out @ take m rest))"

lemma loop_result_now:
  "unat copied \<le> cap \<Longrightarrow> fault \<longleftrightarrow> cap < unat copied + n \<Longrightarrow> fault \<or> n = 0 \<Longrightarrow>
   loop_result cap n pos copied out rest (Some (fault, pos, copied, out))"
  unfolding loop_result_def by (intro exI [of _ 0]) auto

lemma loop_result_step:
  assumes "loop_result cap (n - unat c) (pos + c) (copied + c) (out @ take (unat c) rest)
      (drop (unat c) rest) r"
    and "unat c \<le> n" "unat (copied + c) = unat copied + unat c"
  shows "loop_result cap n pos copied out rest r"
proof -
  obtain m where "m \<le> n - unat c"
    "if unat copied + n \<le> cap then m = n - unat c else unat copied + unat c + m \<le> cap"
    "r = Some (cap < unat copied + n, pos + c + word_of_nat m, copied + c + word_of_nat m,
       (out @ take (unat c) rest) @ take m (drop (unat c) rest))"
    using assms(1,2) unfolding loop_result_def assms(3) by auto
  then show ?thesis
    using assms(2) unfolding loop_result_def
    by (intro exI [of _ "unat c + m"]) (auto simp: take_add add.assoc split: if_splits)
qed

text \<open>
  The whole loop.  It ends, and it copies the stored bytes from the position on, across entry
  boundaries.
\<close>

text \<open>A round after which the loop goes on, from what the rest of the loop does.\<close>

lemma read_loop_goes_on:
  assumes "loop_result cap (min (unat (rem - c)) (size_all - unat (pos + c))) (pos + c) (copied + c)
      (out @ take (unat c) (drop (unat pos) xs)) (drop (unat (pos + c)) xs) r"
    and w: "unat (rem - c) = unat rem - unat c" "unat (pos + c) = unat pos + unat c" "unat (copied + c) = unat copied + unat c"
    and c: "unat c \<le> unat rem" "unat c \<le> size_all - unat pos"
  shows "loop_result cap (min (unat rem) (size_all - unat pos)) pos copied out (drop (unat pos) xs) r"
proof -
  have "min (unat (rem - c)) (size_all - unat (pos + c)) = min (unat rem) (size_all - unat pos) - unat c"
    by (simp add: w)
  moreover have "drop (unat (pos + c)) xs = drop (unat c) (drop (unat pos) xs)"
    by (simp only: w(2) drop_drop add.commute [of "unat c"])
  ultimately have "loop_result cap (min (unat rem) (size_all - unat pos) - unat c) (pos + c) (copied + c)
      (out @ take (unat c) (drop (unat pos) xs)) (drop (unat c) (drop (unat pos) xs)) r"
    using assms(1) by simp
  then show ?thesis by (rule loop_result_step) (use c w in simp_all)
qed

lemma read_loop_spec:
  assumes "ring_ok h b" "ring_bytes b < 2 ^ 63"
  shows "unat pos < 2 ^ 63 \<Longrightarrow> unat copied + unat rem < 2 ^ 64 \<Longrightarrow> unat copied \<le> cap \<Longrightarrow>
    loop_result cap (min (unat rem) (ring_bytes b - unat pos)) pos copied out
      (drop (unat pos) (concat (ring_commands h b))) (read_loop cap h b rem pos eo copied out)"
proof (induction "unat rem" arbitrary: rem pos eo copied out rule: less_induct)
  case less
  have tot: "ring_bytes b < 2 ^ 64" using assms(2) by simp
  show ?case
  proof (cases "rem = 0 \<or> ring_bytes b \<le> unat pos")
    case True
    then show ?thesis
      using less.prems(3) unfolding read_loop_stop [OF assms(1) tot True]
      by (intro loop_result_now) auto
  next
    case False
    then have "rem \<noteq> 0" "unat pos < ring_bytes b" by auto
    from read_loop_chunk [OF assms(1) tot this, of cap eo copied out] obtain c eo' where
      c: "0 < unat c" "c \<le> rem" "unat c \<le> ring_bytes b - unat pos" and
      step: "read_loop cap h b rem pos eo copied out =
        (if cap < unat copied + unat c then Some (True, pos, copied, out)
         else read_loop cap h b (rem - c) (pos + c) eo' (copied + c)
                (out @ take (unat c) (drop (unat pos) (concat (ring_commands h b)))))" by blast
    have w: "unat (rem - c) = unat rem - unat c" "unat (pos + c) = unat pos + unat c"
      "unat (copied + c) = unat copied + unat c" "unat c \<le> unat rem"
      using c less.prems(1,2) assms(2)
      by (auto simp: word_le_nat_alt intro!: unat_minus_small unat_plus_small)
    show ?thesis
    proof (cases "cap < unat copied + unat c")
      case True
      then show ?thesis
        using c w(4) less.prems(3) unfolding step by (simp, intro loop_result_now) auto
    next
      case room: False
      show ?thesis
        unfolding step if_not_P [OF room]
        by (rule read_loop_goes_on [OF less.hyps w c(3)]) (use c room less.prems assms(2) w in simp_all)
    qed
  qed
qed

section \<open>The whole call\<close>

lemma lock_unlock:
  assumes "dev_inv st"
  shows "(st\<lparr>aesd_device := (aesd_device st)\<lparr>buffer_lock := True\<rparr>\<rparr>)
      \<lparr>aesd_device := (aesd_device st)\<lparr>buffer_lock := False\<rparr>\<rparr> = st"
  using dev_invD(2) [OF assms] by (cases st, cases "aesd_device st") simp

lemma aesd_read_run:
  assumes inv: "dev_inv st" and "private_data f = AesdDevice" "0 \<le> sint pos" "count \<noteq> 0"
  defines "n \<equiv> min (unat count) (length (stored st) - unat pos)"
  obtains m where "m \<le> n" "if n \<le> cap then m = n else m \<le> cap"
    "aesd_read st (Some f) (Some cap) count (Some pos) False =
      Some (if cap < n then - EFAULT else word_of_nat n, take m (drop (unat pos) (stored st)),
            pos + word_of_nat m, st)"
proof -
  have ok: "ring_ok (kheap st) (buffer (aesd_device st))" using inv by (simp add: dev_inv_iff)
  have "unat pos < 2 ^ 63" using assms(3) by (rule sint_nonneg_unat)
  then have "loop_result cap n pos 0 [] (drop (unat pos) (stored st))
      (read_loop cap (kheap st) (buffer (aesd_device st)) count pos 0 0 [])"
    using read_loop_spec [OF ok ring_bytes_small(1) [OF inv], of pos 0 count cap "[]" 0]
      unsigned_less [of count, where 'a = nat]
    by (simp add: n_def length_stored [OF inv]) (simp add: stored_def commands_ring)
  then obtain m where m: "m \<le> n" "if n \<le> cap then m = n else m \<le> cap"
    "read_loop cap (kheap st) (buffer (aesd_device st)) count pos 0 0 [] =
      Some (cap < n, pos + word_of_nat m, word_of_nat m, take m (drop (unat pos) (stored st)))"
    unfolding loop_result_def unat_0 add_0 append_Nil by auto
  have "n < 2 ^ 64" using unsigned_less [of count, where 'a = nat] by (simp add: n_def)
  then have "word_of_nat n > (0 :: u64) \<longleftrightarrow> n \<noteq> 0"
    by (simp add: word_less_nat_alt unat_of_nat_le)
  moreover have "cap < n \<or> m = n" using m(2) by (auto split: if_splits)
  ultimately show ?thesis
    using m(3) assms(2-4) dev_invD(2) [OF inv] lock_unlock [OF inv]
    by (intro that [OF m(1,2)])
      (auto simp: aesd_read_defs mutex_defs)
qed

lemma aesd_read_total:
  assumes "dev_inv st" "private_data f = AesdDevice"
  shows "\<exists>r out pos'. aesd_read st (Some f) buf n (Some pos) intr = Some (r, out, pos', st)"
proof (cases "buf = None \<or> sint pos < 0 \<or> n = 0 \<or> intr")
  case True
  then show ?thesis
    using assms
    by (cases buf) (auto simp: aesd_read_defs mutex_lock_interruptible_def)
next
  case False
  then obtain cap where b: "buf = Some cap" "0 \<le> sint pos" "n \<noteq> 0" "intr = False" by auto
  obtain r out pos' where "aesd_read st (Some f) (Some cap) n (Some pos) False = Some (r, out, pos', st)"
    by (rule aesd_read_run [OF assms b(2,3), of cap])
  then show ?thesis unfolding b(1,4) by blast
qed

lemma aesd_read_delivered:
  assumes "dev_inv st" "private_data f = AesdDevice" "0 \<le> sint pos" "count \<noteq> 0"
    and "unat count \<le> cap"
  shows "\<exists>r out pos'. aesd_read st (Some f) (Some cap) count (Some pos) False = Some (r, out, pos', st) \<and>
    out = take (unat count) (drop (unat pos) (stored st)) \<and>
    sint r = int (length out) \<and> sint pos' = sint pos + int (length out)"
proof -
  define n where "n = min (unat count) (length (stored st) - unat pos)"
  obtain m where m: "if n \<le> cap then m = n else m \<le> cap"
    "aesd_read st (Some f) (Some cap) count (Some pos) False =
      Some (if cap < n then - EFAULT else word_of_nat n, take m (drop (unat pos) (stored st)),
            pos + word_of_nat m, st)"
    by (rule aesd_read_run [OF assms(1-4), of cap, folded n_def])
  have n: "n \<le> cap" using assms(5) by (simp add: n_def)
  have out: "take n (drop (unat pos) (stored st)) = take (unat count) (drop (unat pos) (stored st))"
    "n = length (take (unat count) (drop (unat pos) (stored st)))"
    by (auto simp: n_def min_def)
  have tot: "length (stored st) < 2 ^ 63"
    using ring_bytes_small(1) [OF assms(1)] length_stored [OF assms(1)] by simp
  have n63: "n < 2 ^ 63" "unat pos + n < 2 ^ 63"
    using tot sint_nonneg_unat(1) [OF assms(3)] by (auto simp: n_def)
  have run: "aesd_read st (Some f) (Some cap) count (Some pos) False =
      Some (word_of_nat n, take (unat count) (drop (unat pos) (stored st)), pos + word_of_nat n, st)"
    using m n out(1) by simp
  have "sint (word_of_nat n :: u64) = int (length (take (unat count) (drop (unat pos) (stored st))))"
    using sint_word_of_nat [OF n63(1)] by (simp only: out(2) [symmetric])
  moreover have "sint (pos + word_of_nat n) =
      sint pos + int (length (take (unat count) (drop (unat pos) (stored st))))"
    using sint_plus_of_nat [OF assms(3) n63(2)] by (simp only: out(2) [symmetric])
  ultimately show ?thesis using run by blast
qed

section \<open>Properties\<close>

text \<open>
  C4.  A read of \<open>count\<close> bytes at a position delivers the stored bytes from that position on,
  across the boundaries between commands, as many as were asked for or are there; it returns
  their number, advances the position by it, and changes nothing else.
\<close>

theorem aesd_read_delivers:
  assumes "dev_inv st" "private_data f = AesdDevice" "0 \<le> sint pos" "count \<noteq> 0"
    and "unat count \<le> cap"
  shows "\<exists>r out pos'. aesd_read st (Some f) (Some cap) count (Some pos) False = Some (r, out, pos', st) \<and>
    out = take (unat count) (drop (unat pos) (stored st)) \<and>
    sint r = int (length out) \<and> sint pos' = sint pos + int (length out)"
  by (rule aesd_read_delivered [OF assms])

theorem aesd_read_delivers_witness:
  "\<exists>r out pos'. aesd_read demo_st (Some demo_file) (Some 64) 64 (Some 1) False =
      Some (r, out, pos', demo_st) \<and>
    out = [CHR ''b'', newline, CHR ''c'', CHR ''d'', CHR ''e'', newline] \<and>
    sint r = 6 \<and> sint pos' = 7"
  using aesd_read_delivers [OF demo_inv demo_file_sel(2), of 1 64 64] by (simp add: demo_stored)

text \<open>
  C5.  A read on an open file always ends with a defined result and without changing the device,
  whatever the user's buffer, the count, the position and the signals: the loop terminates, all
  memory it reads is allocated and initialised, and the mutex is released on every path.
\<close>

theorem aesd_read_terminates:
  assumes "dev_inv st" "filp = None \<or> private_data (the filp) = AesdDevice"
  shows "\<exists>r out pos'. aesd_read st filp buf count (Some pos) intr = Some (r, out, pos', st)"
proof (cases filp)
  case None
  then show ?thesis by (simp add: aesd_read_defs split: option.split)
next
  case (Some f)
  with assms show ?thesis using aesd_read_total [of st f buf count pos intr] by simp
qed

theorem aesd_read_terminates_witness:
  "\<exists>r out pos'. aesd_read demo_st (Some demo_file) (Some 2) 5 (Some 0) False = Some (r, out, pos', demo_st)"
  using aesd_read_terminates [OF demo_inv, of "Some demo_file" "Some 2" 5 0 False] by simp

end
