(* ===== verification/Aesd_Seek.thy ===== *)
theory Aesd_Seek
  imports Aesd_Dev
begin

text \<open>
  \<^verbatim>\<open>aesd_llseek\<close> and \<^verbatim>\<open>aesd_unlocked_ioctl\<close> of \<^verbatim>\<open>aesd-char-driver/main.c\<close>, with the
  request and its number from \<^verbatim>\<open>aesd_ioctl.h\<close>.  Both write \<^verbatim>\<open>filp->f_pos\<close>; the result holds
  the file after the call.  A file whose \<^verbatim>\<open>private_data\<close> is NULL is dereferenced: \<open>None\<close>.
\<close>

unbundle bit_operations_syntax

section \<open>The code\<close>

definition SEEK_SET :: int where "SEEK_SET = 0"
definition SEEK_CUR :: int where "SEEK_CUR = 1"
definition SEEK_END :: int where "SEEK_END = 2"

lemmas whence_defs = SEEK_SET_def SEEK_CUR_def SEEK_END_def

text \<open>The size of the stored data, summed over all ten slots.\<close>

definition foreach_total :: "aesd_circular_buffer \<Rightarrow> loff_t" where
  "foreach_total b = fold (\<lambda>index total_size. total_size + esize (entry b ! index)) foreach_indices 0"

text \<open>The part under the mutex, up to its release on each path.\<close>

definition llseek_locked :: "kst \<Rightarrow> file_t \<Rightarrow> loff_t \<Rightarrow> int \<Rightarrow> (loff_t \<times> file_t \<times> kst) option" where
  "llseek_locked st filp offset whence =
     (let total_size = foreach_total (buffer (aesd_device st)) in
      case (if whence = SEEK_SET then Some offset
            else if whence = SEEK_CUR then Some (f_pos filp + offset)
            else if whence = SEEK_END then Some (total_size + offset)
            else None) of
        None \<Rightarrow> do { st' \<leftarrow> mutex_unlock st; Some (- EINVAL, filp, st') }
      | Some new_fpos \<Rightarrow>
          if sint new_fpos < 0 \<or> sint new_fpos > sint total_size
          then do { st' \<leftarrow> mutex_unlock st; Some (- EINVAL, filp, st') }
          else do {
            st' \<leftarrow> mutex_unlock st;
            Some (new_fpos, filp\<lparr>f_pos := new_fpos\<rparr>, st')
          })"

definition aesd_llseek :: "kst \<Rightarrow> file_t \<Rightarrow> loff_t \<Rightarrow> int \<Rightarrow> (loff_t \<times> file_t \<times> kst) option" where
  "aesd_llseek st filp offset whence =
     (if private_data filp = NullDev then None
      else do {
        st1 \<leftarrow> mutex_lock st;
        llseek_locked st1 filp offset whence
      })"

lemmas aesd_llseek_defs = aesd_llseek_def llseek_locked_def

record aesd_seekto =
  write_cmd :: u32
  write_cmd_offset :: u32

text \<open>The kernel's encoding of a request number: direction, size, type and number.\<close>

definition IOC :: "u32 \<Rightarrow> u32 \<Rightarrow> u32 \<Rightarrow> u32 \<Rightarrow> u32" where
  "IOC dir type nr sz = push_bit 30 dir OR push_bit 8 type OR nr OR push_bit 16 sz"

definition AESDCHAR_IOCSEEKTO :: u32 where
  "AESDCHAR_IOCSEEKTO = IOC 3 0x16 1 8"

text \<open>\<^verbatim>\<open>(out_offs + i) % 10\<close>, computed in 32 bits and stored in a \<^verbatim>\<open>uint8_t\<close>.\<close>

definition cmd_index :: "aesd_circular_buffer \<Rightarrow> u32 \<Rightarrow> u8" where
  "cmd_index b i = word_of_nat (unat (ucast (out_offs b) + i) mod MAX_OPS)"

definition total_commands :: "aesd_circular_buffer \<Rightarrow> u8" where
  "total_commands b = (if full b then 10 else in_offs b)"

text \<open>The loop that adds up the sizes of the commands before the one asked for.\<close>

definition seek_base :: "aesd_circular_buffer \<Rightarrow> u32 \<Rightarrow> loff_t" where
  "seek_base b n =
     fold (\<lambda>i new_fpos. new_fpos + esize (entry b ! unat (cmd_index b (word_of_nat i)))) [0..<unat n] 0"

definition ioctl_locked :: "kst \<Rightarrow> file_t \<Rightarrow> aesd_seekto \<Rightarrow> (ssize_t \<times> file_t \<times> kst) option" where
  "ioctl_locked st filp seekto =
     (let b = buffer (aesd_device st) in
      if unat (write_cmd seekto) \<ge> unat (total_commands b)
      then do { st' \<leftarrow> mutex_unlock st; Some (- EINVAL, filp, st') }
      else
        let e = entry b ! unat (cmd_index b (write_cmd seekto)) in
        if buffptr e = 0 \<or> unat (write_cmd_offset seekto) \<ge> unat (esize e)
        then do { st' \<leftarrow> mutex_unlock st; Some (- EINVAL, filp, st') }
        else
          let new_fpos = seek_base b (write_cmd seekto) + ucast (write_cmd_offset seekto) in do {
            st' \<leftarrow> mutex_unlock st;
            Some (0, filp\<lparr>f_pos := new_fpos\<rparr>, st')
          })"

text \<open>The argument is the structure behind the user's pointer, \<open>None\<close> when it cannot be read.\<close>

definition aesd_unlocked_ioctl ::
  "kst \<Rightarrow> file_t \<Rightarrow> u32 \<Rightarrow> aesd_seekto option \<Rightarrow> (ssize_t \<times> file_t \<times> kst) option" where
  "aesd_unlocked_ioctl st filp cmd arg =
     (if cmd \<noteq> AESDCHAR_IOCSEEKTO then Some (- ENOTTY, filp, st)
      else case arg of
        None \<Rightarrow> Some (- EFAULT, filp, st)
      | Some seekto \<Rightarrow>
          if private_data filp = NullDev then None
          else do {
            st1 \<leftarrow> mutex_lock st;
            ioctl_locked st1 filp seekto
          })"

lemmas aesd_ioctl_defs = aesd_unlocked_ioctl_def ioctl_locked_def

section \<open>Sums over the ring\<close>

lemma fold_sizes:
  "fold (\<lambda>e t. t + esize e) es acc = acc + word_of_nat (sum_list (map entry_len es))"
  by (induction es arbitrary: acc) (simp_all add: add.assoc)

lemma sum_list_rotate: "sum_list (map f (rotate n xs)) = sum_list (map (f :: 'a \<Rightarrow> nat) xs)"
proof (induction n)
  case (Suc n)
  have "sum_list (map f (rotate1 ys)) = sum_list (map f ys)" for ys by (cases ys) simp_all
  with Suc show ?case by simp
qed simp

lemma slots_total:
  assumes "cb_inv b"
  shows "sum_list (map entry_len (entry b)) = ring_bytes b"
proof (cases "full b")
  case True
  then show ?thesis by (simp add: ring_bytes_def contents_full [OF assms True] sum_list_rotate)
next
  case False
  have "map entry_len (drop (unat (in_offs b)) (entry b)) =
      map (\<lambda>_. 0) (drop (unat (in_offs b)) (entry b))"
    using False assms by (intro nth_equalityI) (auto simp: cb_inv_def null_entry_def)
  then have "sum_list (map entry_len (drop (unat (in_offs b)) (entry b))) = 0" by simp
  then show ?thesis
    unfolding ring_bytes_def contents_not_full [OF assms False]
    using arg_cong [OF append_take_drop_id [of "unat (in_offs b)" "entry b"],
        of "\<lambda>es. sum_list (map entry_len es)"]
    unfolding map_append sum_list_append by linarith
qed

lemma foreach_total_eq:
  assumes "cb_inv b"
  shows "foreach_total b = word_of_nat (ring_bytes b)"
proof -
  have "foreach_total b = fold (\<lambda>e t. t + esize e) (map ((!) (entry b)) [0..<length (entry b)]) 0"
    using assms by (simp add: foreach_total_def foreach_indices_def cb_inv_def fold_map comp_def)
  then show ?thesis
    unfolding map_nth fold_sizes slots_total [OF assms] by simp
qed

section \<open>Seeking\<close>

lemma foreach_total_stored:
  assumes "dev_inv st"
  shows "sint (foreach_total (buffer (aesd_device st))) = int (length (stored st))"
    "unat (foreach_total (buffer (aesd_device st))) = length (stored st)"
proof -
  have b: "length (stored st) < 2 ^ 63" using ring_bytes_small [OF assms] length_stored [OF assms] by simp
  then show u: "unat (foreach_total (buffer (aesd_device st))) = length (stored st)"
    using foreach_total_eq [OF dev_invD(1) [OF assms]] length_stored [OF assms]
    by (simp add: unat_of_nat_le)
  show "sint (foreach_total (buffer (aesd_device st))) = int (length (stored st))"
    using sint_eq_unat [of "foreach_total (buffer (aesd_device st))"] u b by simp
qed

text \<open>A sum that overflows comes out negative, so the range check below is exact.\<close>

lemma sint_add_range:
  fixes x y :: u64
  assumes "0 \<le> sint x" "T < 2 ^ 63"
  shows "0 \<le> sint (x + y) \<and> sint (x + y) \<le> T \<longleftrightarrow> 0 \<le> sint x + sint y \<and> sint x + sint y \<le> T"
    and "0 \<le> sint x + sint y \<Longrightarrow> sint x + sint y \<le> T \<Longrightarrow> sint (x + y) = sint x + sint y"
proof -
  have r: "sint x < 2 ^ 63" "sint y < 2 ^ 63" "- (2 ^ 63) \<le> sint y"
    using sint_lt [of x] sint_lt [of y] sint_ge [of y] by simp_all
  have add: "sint (x + y) = signed_take_bit 63 (sint x + sint y)" by (simp add: sint_word_add)
  have small: "sint (x + y) = sint x + sint y" if "sint x + sint y < 2 ^ 63"
    unfolding add using that r assms(1) by (intro signed_take_bit_int_eq_self) linarith+
  have big: "sint (x + y) < 0" if "2 ^ 63 \<le> sint x + sint y"
  proof -
    have "sint (x + y) = signed_take_bit 63 (sint x + sint y - 2 ^ 64)"
      unfolding add using signed_take_bit_minus [of 63 "sint x + sint y"] by simp
    also have "\<dots> = sint x + sint y - 2 ^ 64"
      using that r by (intro signed_take_bit_int_eq_self) simp_all
    finally show ?thesis using r by simp
  qed
  show "0 \<le> sint (x + y) \<and> sint (x + y) \<le> T \<longleftrightarrow> 0 \<le> sint x + sint y \<and> sint x + sint y \<le> T"
    using small big assms(2) by (cases "sint x + sint y < 2 ^ 63") auto
  show "0 \<le> sint x + sint y \<Longrightarrow> sint x + sint y \<le> T \<Longrightarrow> sint (x + y) = sint x + sint y"
    using small assms(2) by simp
qed

lemma locked_unlock_eq:
  assumes "dev_inv st"
  shows "mutex_lock st = Some (st\<lparr>aesd_device := (aesd_device st)\<lparr>buffer_lock := True\<rparr>\<rparr>)"
    "mutex_unlock (st\<lparr>aesd_device := (aesd_device st)\<lparr>buffer_lock := True\<rparr>\<rparr>) = Some st"
  using dev_invD(2) [OF assms]
  by (cases st, cases "aesd_device st"; simp add: mutex_defs)+

text \<open>The position a call asks for, as an unbounded integer.\<close>

definition seek_target :: "file_t \<Rightarrow> nat \<Rightarrow> loff_t \<Rightarrow> int \<Rightarrow> int option" where
  "seek_target filp n offset whence =
     (if whence = SEEK_SET then Some (sint offset)
      else if whence = SEEK_CUR then Some (sint (f_pos filp) + sint offset)
      else if whence = SEEK_END then Some (int n + sint offset)
      else None)"

lemma aesd_llseek_run:
  assumes inv: "dev_inv st" and "private_data filp = AesdDevice" "0 \<le> sint (f_pos filp)"
  shows "\<exists>r filp'. aesd_llseek st filp offset whence = Some (r, filp', st) \<and>
    (case seek_target filp (length (stored st)) offset whence of
       None \<Rightarrow> r = - EINVAL \<and> filp' = filp
     | Some t \<Rightarrow> if 0 \<le> t \<and> t \<le> int (length (stored st))
                then sint r = t \<and> filp' = filp\<lparr>f_pos := r\<rparr>
                else r = - EINVAL \<and> filp' = filp)"
proof -
  let ?T = "foreach_total (buffer (aesd_device st))"
  have T: "sint ?T = int (length (stored st))" "int (length (stored st)) < 2 ^ 63" "0 \<le> sint ?T"
    using foreach_total_stored(1) [OF inv] ring_bytes_small(1) [OF inv] length_stored [OF inv]
    by (simp_all only: int_less_power_iff of_nat_0_le_iff)
  note lock = locked_unlock_eq [OF inv]
  note cur = sint_add_range [OF assms(3) T(2), of offset]
  note fin = sint_add_range [OF T(3) T(2), of offset]
  consider "whence = SEEK_SET" | "whence = SEEK_CUR" | "whence = SEEK_END"
    | "whence \<noteq> SEEK_SET" "whence \<noteq> SEEK_CUR" "whence \<noteq> SEEK_END" by blast
  then show ?thesis
  proof cases
    case 1
    then show ?thesis using assms(2) lock T(1)
      by (auto simp: aesd_llseek_defs seek_target_def whence_defs Let_def)
  next
    case 2
    then show ?thesis using assms(2) lock T(1) cur
      by (auto simp: aesd_llseek_defs seek_target_def whence_defs Let_def not_less not_le)
  next
    case 3
    then show ?thesis using assms(2) lock T(1) fin
      by (auto simp: aesd_llseek_defs seek_target_def whence_defs Let_def not_less not_le)
  next
    case 4
    then show ?thesis using assms(2) lock by (simp add: aesd_llseek_defs seek_target_def Let_def)
  qed
qed

section \<open>The seek request\<close>

lemma unat_total_commands: "unat (total_commands b) = entry_count b"
  by (simp add: total_commands_def entry_count_def)

lemma cmd_index_slot:
  assumes "cb_inv b" "unat i < entry_count b"
  shows "unat (cmd_index b i) = slot b (unat i)" "entry b ! unat (cmd_index b i) = contents b ! unat i"
proof -
  have "unat (out_offs b) < MAX_OPS" "unat i < MAX_OPS"
    using assms entry_count_le [OF assms(1)] by (simp_all add: cb_inv_def)
  then have "unat (ucast (out_offs b) + i) = unat (out_offs b) + unat i"
    by (subst unat_plus_small) simp_all
  then show "unat (cmd_index b i) = slot b (unat i)"
    unfolding cmd_index_def slot_def
    by (simp add: unat_of_nat_le less_trans [OF mod_less_divisor])
  then show "entry b ! unat (cmd_index b i) = contents b ! unat i"
    using assms(2) by (simp add: nth_contents)
qed

lemma seek_base_eq:
  assumes "cb_inv b" "unat n \<le> entry_count b"
  shows "seek_base b n = word_of_nat (sum_list (map entry_len (take (unat n) (contents b))))"
proof -
  have "entry b ! unat (cmd_index b (word_of_nat i)) = contents b ! i" if "i < unat n" for i
  proof -
    have "unat (word_of_nat i :: u32) = i"
      using that unsigned_less [of n, where 'a = nat] by (intro unat_of_nat_le) simp
    then show ?thesis using cmd_index_slot(2) [OF assms(1), of "word_of_nat i"] that assms(2) by simp
  qed
  then have "seek_base b n =
      fold (\<lambda>i t. t + esize (contents b ! i)) [0..<unat n] 0"
    unfolding seek_base_def by (intro fold_cong) auto
  also have "\<dots> = fold (\<lambda>e t. t + esize e) (map ((!) (contents b)) [0..<unat n]) 0"
    by (simp add: fold_map comp_def)
  also have "map ((!) (contents b)) [0..<unat n] = take (unat n) (contents b)"
    using assms(2) by (intro nth_equalityI) simp_all
  finally show ?thesis by (simp add: fold_sizes)
qed

text \<open>The command and the position in it a request names, if the device stores them.\<close>

definition seek_valid :: "kst \<Rightarrow> aesd_seekto \<Rightarrow> bool" where
  "seek_valid st s \<longleftrightarrow>
     unat (write_cmd s) < length (commands st) \<and>
     unat (write_cmd_offset s) < length (commands st ! unat (write_cmd s))"

definition seek_offset :: "kst \<Rightarrow> aesd_seekto \<Rightarrow> nat" where
  "seek_offset st s =
     length (concat (take (unat (write_cmd s)) (commands st))) + unat (write_cmd_offset s)"

lemma nth_commands_length:
  assumes "dev_inv st" "i < length (commands st)"
  shows "length (commands st ! i) = entry_len (contents (buffer (aesd_device st)) ! i)"
  using arg_cong [OF commands_lengths [OF assms(1)], of "\<lambda>xs. xs ! i"] assms(2)
  by (simp add: commands_def)

lemma seek_offset_bound:
  assumes "seek_valid st s"
  shows "seek_offset st s < length (stored st)"
proof -
  let ?i = "unat (write_cmd s)"
  have "commands st = take ?i (commands st) @ commands st ! ?i # drop (Suc ?i) (commands st)"
    using assms by (simp add: seek_valid_def id_take_nth_drop)
  then have "length (stored st) = length (concat (take ?i (commands st))) +
      (length (commands st ! ?i) + length (concat (drop (Suc ?i) (commands st))))"
    unfolding stored_def by (metis concat.simps(2) concat_append length_append)
  then show ?thesis using assms by (simp add: seek_valid_def seek_offset_def)
qed

lemma aesd_ioctl_run:
  assumes inv: "dev_inv st" and dev: "private_data filp = AesdDevice"
  shows "aesd_unlocked_ioctl st filp AESDCHAR_IOCSEEKTO (Some s) =
    Some (if seek_valid st s
          then (0, filp\<lparr>f_pos := word_of_nat (seek_offset st s)\<rparr>, st)
          else (- EINVAL, filp, st))"
proof -
  let ?b = "buffer (aesd_device st)" and ?c = "write_cmd s"
  have cb: "cb_inv ?b" using inv by blast
  have len: "length (commands st) = entry_count ?b" by (simp add: commands_def)
  note lock = locked_unlock_eq [OF inv]
  show ?thesis
  proof (cases "unat ?c < entry_count ?b")
    case False
    then show ?thesis
      using dev lock len
      by (simp add: aesd_ioctl_defs Let_def unat_total_commands seek_valid_def not_less)
  next
    case True
    let ?e = "contents ?b ! unat ?c"
    have e: "entry ?b ! unat (cmd_index ?b ?c) = ?e" using cmd_index_slot(2) [OF cb True] .
    have ptr: "buffptr ?e \<noteq> 0"
      using dev_invD(3) [OF inv, of ?e] True by (simp add: entry_ok_def)
    have l: "length (commands st ! unat ?c) = entry_len ?e"
      using nth_commands_length [OF inv] True len by simp
    have "seek_base ?b ?c + ucast (write_cmd_offset s) = word_of_nat (seek_offset st s)"
    proof -
      have sum: "sum_list (map entry_len (take (unat ?c) (contents ?b))) =
          length (concat (take (unat ?c) (commands st)))"
        using arg_cong [OF commands_lengths [OF inv], of "\<lambda>xs. sum_list (take (unat ?c) xs)"]
        by (simp add: length_concat take_map)
      show ?thesis
        unfolding seek_base_eq [OF cb less_imp_le [OF True]] sum ucast_word_of_nat
        by (simp only: seek_offset_def of_nat_add)
    qed
    with True show ?thesis
      using dev lock len ptr e l
      by (simp add: aesd_ioctl_defs Let_def unat_total_commands seek_valid_def not_less)
  qed
qed

lemma aesd_ioctl_other:
  "cmd \<noteq> AESDCHAR_IOCSEEKTO \<Longrightarrow> aesd_unlocked_ioctl st filp cmd arg = Some (- ENOTTY, filp, st)"
  "aesd_unlocked_ioctl st filp AESDCHAR_IOCSEEKTO None = Some (- EFAULT, filp, st)"
  by (simp_all add: aesd_ioctl_defs)

lemma stored_nth_seek:
  assumes "seek_valid st s"
  shows "drop (seek_offset st s) (stored st) =
    drop (unat (write_cmd_offset s)) (commands st ! unat (write_cmd s)) @
      concat (drop (Suc (unat (write_cmd s))) (commands st))"
proof -
  let ?i = "unat (write_cmd s)"
  have "commands st = take ?i (commands st) @ commands st ! ?i # drop (Suc ?i) (commands st)"
    using assms by (simp add: seek_valid_def id_take_nth_drop)
  then have "stored st = concat (take ?i (commands st)) @
      (commands st ! ?i @ concat (drop (Suc ?i) (commands st)))"
    unfolding stored_def by (metis concat.simps(2) concat_append)
  then show ?thesis
    using assms by (simp add: seek_offset_def seek_valid_def)
qed

section \<open>Properties\<close>

text \<open>
  C6.  \<^verbatim>\<open>llseek\<close> computes the position relative to the start, the current position or the end
  of the stored data, without error from overflow; it accepts it exactly when it lies within the
  stored data (its end included), and otherwise returns \<^verbatim>\<open>-EINVAL\<close> and leaves the file alone.
  The device is never changed.
\<close>

theorem aesd_llseek_exact:
  assumes "dev_inv st" "private_data filp = AesdDevice" "0 \<le> sint (f_pos filp)"
  shows "\<exists>r filp'. aesd_llseek st filp offset whence = Some (r, filp', st) \<and>
    (case seek_target filp (length (stored st)) offset whence of
       None \<Rightarrow> r = - EINVAL \<and> filp' = filp
     | Some t \<Rightarrow> if 0 \<le> t \<and> t \<le> int (length (stored st))
                then sint r = t \<and> filp' = filp\<lparr>f_pos := r\<rparr>
                else r = - EINVAL \<and> filp' = filp)"
  by (rule aesd_llseek_run [OF assms])

theorem aesd_llseek_exact_witness:
  "\<exists>r filp'. aesd_llseek demo_st demo_file (- 2) SEEK_END = Some (r, filp', demo_st) \<and> sint r = 5"
proof -
  have "seek_target demo_file 7 (- 2) SEEK_END = Some 5"
    by (simp add: seek_target_def whence_defs)
  moreover have "length (stored demo_st) = 7" by (simp add: demo_stored)
  moreover have "0 \<le> sint (f_pos demo_file)" by simp
  ultimately show ?thesis
    using aesd_llseek_exact [OF demo_inv demo_file_sel(2), of "- 2" SEEK_END] by auto
qed

text \<open>
  C7.  The seek request succeeds exactly when the named command is stored and has the named
  byte, and then the file's position is that byte's: what the data holds from it on is the rest
  of that command and the later ones.  Otherwise it returns \<^verbatim>\<open>-EINVAL\<close> and changes nothing.
\<close>

theorem aesd_ioctl_seeks:
  assumes "dev_inv st" "private_data filp = AesdDevice"
  shows "\<exists>r filp'. aesd_unlocked_ioctl st filp AESDCHAR_IOCSEEKTO (Some s) = Some (r, filp', st) \<and>
    (if unat (write_cmd s) < length (commands st) \<and>
        unat (write_cmd_offset s) < length (commands st ! unat (write_cmd s))
     then r = 0 \<and> private_data filp' = private_data filp \<and>
       drop (unat (f_pos filp')) (stored st) =
         drop (unat (write_cmd_offset s)) (commands st ! unat (write_cmd s)) @
           concat (drop (Suc (unat (write_cmd s))) (commands st))
     else r = - EINVAL \<and> filp' = filp)"
proof (cases "seek_valid st s")
  case True
  have "seek_offset st s < 2 ^ 64"
    using seek_offset_bound [OF True] ring_bytes_small(2) [OF assms(1)] length_stored [OF assms(1)]
    by simp
  then have "unat (word_of_nat (seek_offset st s) :: u64) = seek_offset st s"
    by (intro unat_of_nat_le) simp
  with True show ?thesis
    using aesd_ioctl_run [OF assms, of s] stored_nth_seek [OF True] by (simp add: seek_valid_def)
next
  case False
  then show ?thesis using aesd_ioctl_run [OF assms, of s] by (auto simp: seek_valid_def)
qed

theorem aesd_ioctl_seeks_witness:
  "\<exists>r filp'. aesd_unlocked_ioctl demo_st demo_file AESDCHAR_IOCSEEKTO
      (Some \<lparr>write_cmd = 1, write_cmd_offset = 2\<rparr>) = Some (r, filp', demo_st) \<and> r = 0 \<and>
    drop (unat (f_pos filp')) (stored demo_st) = [CHR ''e'', newline]"
proof -
  have "unat (1 :: u32) = 1" "unat (2 :: u32) = 2" by simp_all
  then show ?thesis
    using aesd_ioctl_seeks [OF demo_inv demo_file_sel(2), of "\<lparr>write_cmd = 1, write_cmd_offset = 2\<rparr>"]
    by (auto simp: demo_abs)
qed

end
