(* ===== verification/Aesd_Module.thy ===== *)
theory Aesd_Module
  imports Aesd_Dev
begin

text \<open>
  \<^verbatim>\<open>aesd_open\<close>, \<^verbatim>\<open>aesd_release\<close>, \<^verbatim>\<open>aesd_init_module\<close>, \<^verbatim>\<open>aesd_setup_cdev\<close> and
  \<^verbatim>\<open>aesd_cleanup_module\<close> of \<^verbatim>\<open>aesd-char-driver/main.c\<close>.  The results of
  \<^verbatim>\<open>alloc_chrdev_region\<close> and \<^verbatim>\<open>cdev_add\<close> are arguments; what the module has registered
  with the kernel is the record \<open>chrdev\<close>.
\<close>

section \<open>The code\<close>

text \<open>\<^verbatim>\<open>container_of\<close> takes the device whose \<^verbatim>\<open>cdev\<close> the inode names.\<close>

definition aesd_open :: "dev_ptr \<Rightarrow> file_t \<Rightarrow> int \<times> file_t" where
  "aesd_open i_cdev filp = (0, filp\<lparr>private_data := i_cdev\<rparr>)"

definition aesd_release :: "file_t \<Rightarrow> int \<times> file_t" where
  "aesd_release filp = (0, filp\<lparr>private_data := NullDev\<rparr>)"

record chrdev =
  aesd_major :: nat
  region :: bool
  cdev_live :: bool

definition aesd_setup_cdev :: "int \<Rightarrow> chrdev \<Rightarrow> int \<times> chrdev" where
  "aesd_setup_cdev cdev_add_ret c =
     (let err = cdev_add_ret in (err, c\<lparr>cdev_live := (err = 0)\<rparr>))"

text \<open>The device after \<^verbatim>\<open>memset\<close>.\<close>

definition zero_dev :: aesd_dev where
  "zero_dev = \<lparr>buffer = ring_start, buffer_lock = False, partial_write = 0, partial_size = 0\<rparr>"

definition aesd_init_module ::
  "kst \<Rightarrow> chrdev \<Rightarrow> int \<times> nat \<Rightarrow> int \<Rightarrow> (int \<times> kst \<times> chrdev) option" where
  "aesd_init_module st c alloc_ret cdev_add_ret =
     (let (result, major) = alloc_ret; c1 = c\<lparr>aesd_major := major\<rparr> in
      if result < 0 then Some (result, st, c1)
      else do {
        let dev = zero_dev;
        b \<leftarrow> aesd_circular_buffer_init (Some (buffer dev));
        let dev = dev\<lparr>buffer := b, buffer_lock := False, partial_write := 0, partial_size := 0\<rparr>;
        let (result, c2) = aesd_setup_cdev cdev_add_ret (c1\<lparr>region := True\<rparr>);
        let c3 = (if result \<noteq> 0 then c2\<lparr>region := False\<rparr> else c2);
        Some (result, st\<lparr>aesd_device := dev\<rparr>, c3)
      })"

text \<open>The loop over all slots that frees and clears what they point to.\<close>

fun cleanup_entries :: "nat list \<Rightarrow> heap \<Rightarrow> aesd_circular_buffer \<Rightarrow> (heap \<times> aesd_circular_buffer) option" where
  "cleanup_entries [] h b = Some (h, b)"
| "cleanup_entries (index # rest) h b =
     (let e = entry b ! index in
      if buffptr e \<noteq> 0 then do {
        h' \<leftarrow> kfree h (buffptr e);
        cleanup_entries rest h' (b\<lparr>entry := (entry b)[index := e\<lparr>buffptr := 0\<rparr>]\<rparr>)
      } else cleanup_entries rest h b)"

definition aesd_cleanup_module :: "kst \<Rightarrow> chrdev \<Rightarrow> (kst \<times> chrdev) option" where
  "aesd_cleanup_module st c = do {
     let c1 = c\<lparr>cdev_live := False\<rparr>;
     let dev = aesd_device st;
     (h, dev1) \<leftarrow> (if partial_write dev \<noteq> 0
        then map_option (\<lambda>h. (h, dev\<lparr>partial_write := 0\<rparr>)) (kfree (kheap st) (partial_write dev))
        else Some (kheap st, dev));
     (h', b) \<leftarrow> cleanup_entries foreach_indices h (buffer dev1);
     guard (\<not> buffer_lock dev1);
     Some (st\<lparr>kheap := h', aesd_device := dev1\<lparr>buffer := b\<rparr>\<rparr>, c1\<lparr>region := False\<rparr>)
   }"

section \<open>Loading the module\<close>

lemma aesd_init_ok:
  assumes "0 \<le> fst alloc_ret"
  shows "\<exists>c'. aesd_init_module st c alloc_ret err =
      Some (err, st\<lparr>aesd_device := zero_dev\<rparr>, c') \<and> (region c' \<longleftrightarrow> err = 0) \<and> (cdev_live c' \<longleftrightarrow> err = 0)"
  using assms
  by (auto simp: aesd_init_module_def aesd_setup_cdev_def aesd_circular_buffer_init_def zero_dev_def
      ring_start_def Let_def split: prod.split)

lemma dev_inv_zero:
  shows "dev_inv (st\<lparr>aesd_device := zero_dev\<rparr>)"
    and "abs_dev (st\<lparr>aesd_device := zero_dev\<rparr>) = ([], [])"
    and "stray (st\<lparr>aesd_device := zero_dev\<rparr>) = dom (kheap st)"
  by (simp_all add: dev_inv_def zero_dev_def partial_ok_def owned_def abs_dev_def commands_def
      pending_def stray_def)

section \<open>Unloading it\<close>

abbreviation slot_ptrs :: "aesd_circular_buffer \<Rightarrow> addr list" where
  "slot_ptrs b \<equiv> filter (\<lambda>a. a \<noteq> 0) (map buffptr (entry b))"

text \<open>The non-null pointers in the slots are those of the stored entries, each of them once.\<close>

lemma slot_ptrs_contents:
  assumes "ring_ok h b"
  shows "distinct (slot_ptrs b)" "set (slot_ptrs b) = ring_ptrs b"
proof -
  have cb: "cb_inv b" and dist: "distinct (map buffptr (contents b))" and nz: "0 \<notin> ring_ptrs b"
    using assms ring_ok_allocated [OF assms, of 0] by (auto simp: ring_ok_def)
  have "distinct (slot_ptrs b) \<and> set (slot_ptrs b) = ring_ptrs b"
  proof (cases "full b")
    case True
    note c = contents_full [OF cb True]
    have "distinct (map buffptr (entry b))" using dist by (simp add: c rotate_map [symmetric])
    moreover have "ring_ptrs b = set (map buffptr (entry b))" by (simp add: ring_ptrs_def c)
    ultimately show ?thesis using nz by (auto intro!: distinct_filter)
  next
    case False
    note c = contents_not_full [OF cb False]
    have "slot_ptrs b = filter (\<lambda>a. a \<noteq> 0) (map buffptr (contents b)) @
        filter (\<lambda>a. a \<noteq> 0) (map buffptr (drop (unat (in_offs b)) (entry b)))"
      unfolding c by (metis append_take_drop_id filter_append map_append)
    moreover have "set (map buffptr (drop (unat (in_offs b)) (entry b))) \<subseteq> {0}"
      using cb False by (auto simp: cb_inv_def null_entry_def in_set_conv_nth)
    then have "filter (\<lambda>a. a \<noteq> 0) (map buffptr (drop (unat (in_offs b)) (entry b))) = []"
      by (subst filter_empty_conv) auto
    moreover have "filter (\<lambda>a. a \<noteq> 0) (map buffptr (contents b)) = map buffptr (contents b)"
      using nz by (subst filter_id_conv) (auto simp: ring_ptrs_def)
    ultimately show ?thesis using dist by (simp add: ring_ptrs_def)
  qed
  then show "distinct (slot_ptrs b)" "set (slot_ptrs b) = ring_ptrs b" by auto
qed

lemma cleanup_entries_frees:
  "distinct is \<Longrightarrow>
   kfree_all h (filter (\<lambda>a. a \<noteq> 0) (map (\<lambda>i. buffptr (entry b ! i)) is)) = Some h' \<Longrightarrow>
   \<exists>b'. cleanup_entries is h b = Some (h', b')"
proof (induction "is" arbitrary: h b)
  case (Cons i rest)
  let ?e = "entry b ! i" and ?b = "b\<lparr>entry := (entry b)[i := (entry b ! i)\<lparr>buffptr := 0\<rparr>]\<rparr>"
  show ?case
  proof (cases "buffptr ?e = 0")
    case True
    with Cons show ?thesis by simp
  next
    case False
    with Cons.prems(2) obtain h1 where h1: "kfree h (buffptr ?e) = Some h1"
      "kfree_all h1 (filter (\<lambda>a. a \<noteq> 0) (map (\<lambda>i. buffptr (entry b ! i)) rest)) = Some h'"
      by (auto simp: bind_eq_Some_conv)
    have meq: "map (\<lambda>j. buffptr (entry ?b ! j)) rest = map (\<lambda>j. buffptr (entry b ! j)) rest"
      using Cons.prems(1) by (auto intro!: arg_cong [where f = buffptr] nth_list_update_neq)
    have "kfree_all h1 (filter (\<lambda>a. a \<noteq> 0) (map (\<lambda>j. buffptr (entry ?b ! j)) rest)) = Some h'"
      unfolding meq by (rule h1(2))
    from Cons.IH [OF _ this] Cons.prems(1) h1(1) False show ?thesis by (simp add: Let_def)
  qed
qed simp

text \<open>
  Unloading frees every block of the device exactly once; what stays allocated is what the
  device had lost track of.
\<close>

lemma aesd_cleanup_ok:
  assumes "dev_inv st"
  shows "\<exists>st' c'. aesd_cleanup_module st c = Some (st', c') \<and> \<not> region c' \<and> \<not> cdev_live c' \<and>
    kheap st' = kheap st |` (- set (owned (aesd_device st))) \<and> dom (kheap st') = stray st"
proof -
  let ?d = "aesd_device st" and ?b = "buffer (aesd_device st)"
  define h1 where "h1 = kheap st |` (- partial_ptrs ?d)"
  have ok: "ring_ok (kheap st) ?b" "partial_write ?d \<notin> ring_ptrs ?b" "\<not> buffer_lock ?d"
    using assms by (auto simp: dev_inv_iff)
  have disj: "partial_ptrs ?d \<inter> ring_ptrs ?b = {}" using ok(2) by (simp add: partial_ptrs_def)
  have hp: "h1 = (if partial_write ?d = 0 then kheap st else (kheap st)(partial_write ?d := None))"
    by (auto simp: h1_def partial_ptrs_def restrict_map_def fun_eq_iff)
  have part: "(if partial_write ?d \<noteq> 0
      then map_option (\<lambda>h. (h, ?d\<lparr>partial_write := 0\<rparr>)) (kfree (kheap st) (partial_write ?d))
      else Some (kheap st, ?d)) = Some (h1, ?d\<lparr>partial_write := 0\<rparr>)"
    using owned_allocated [OF assms, of "partial_write ?d"]
    unfolding hp by (cases ?d) (auto simp: partial_ptrs_def set_owned kfree_def)
  have len: "length (entry ?b) = MAX_OPS" using ok(1) by (simp add: ring_ok_def cb_inv_def)
  have idx: "map (\<lambda>i. buffptr (entry ?b ! i)) foreach_indices = map buffptr (entry ?b)"
    using len by (intro nth_equalityI) (simp_all add: foreach_indices_def)
  note ptrs = slot_ptrs_contents [OF ok(1)]
  have "\<forall>a \<in> set (slot_ptrs ?b). a \<noteq> 0 \<and> h1 a \<noteq> None"
    using ring_ok_allocated [OF ok(1)] disj ptrs(2) by (auto simp: h1_def restrict_map_def)
  from kfree_all_distinct [OF ptrs(1) this]
  have "kfree_all h1 (filter (\<lambda>a. a \<noteq> 0) (map (\<lambda>i. buffptr (entry ?b ! i)) foreach_indices)) =
      Some (h1 |` (- ring_ptrs ?b))"
    unfolding idx ptrs(2) .
  from cleanup_entries_frees [OF _ this] obtain b' where
    b': "cleanup_entries foreach_indices h1 ?b = Some (h1 |` (- ring_ptrs ?b), b')"
    by (auto simp: foreach_indices_def)
  have h: "h1 |` (- ring_ptrs ?b) = kheap st |` (- set (owned ?d))"
    by (simp add: h1_def set_owned Int_commute)
  have "dom (kheap st |` (- set (owned ?d))) = stray st" by (auto simp: stray_def)
  moreover have "aesd_cleanup_module st c =
      Some (st\<lparr>kheap := kheap st |` (- set (owned ?d)), aesd_device := ?d\<lparr>partial_write := 0, buffer := b'\<rparr>\<rparr>,
            c\<lparr>cdev_live := False, region := False\<rparr>)"
    using ok(3) b' [unfolded h] by (simp add: aesd_cleanup_module_def part Let_def)
  ultimately show ?thesis by simp
qed

section \<open>Loading and unloading\<close>

text \<open>
  Loading the module when a device number is available leaves an empty device that
  satisfies the invariant; the number stays registered exactly when \<^verbatim>\<open>cdev_add\<close> succeeds, and
  the return value is its result.  When no number is available nothing is initialised.
\<close>

lemma aesd_init_establishes:
  "\<exists>r st' c'. aesd_init_module st c (ret, major) err = Some (r, st', c') \<and>
    (if ret < 0 then r = ret \<and> st' = st \<and> region c' = region c
     else r = err \<and> dev_inv st' \<and> abs_dev st' = ([], []) \<and> kheap st' = kheap st \<and>
          (region c' \<longleftrightarrow> err = 0) \<and> (cdev_live c' \<longleftrightarrow> err = 0))"
proof (cases "ret < 0")
  case True
  then show ?thesis by (simp add: aesd_init_module_def)
next
  case False
  then show ?thesis
    using aesd_init_ok [of "(ret, major)" st c err] dev_inv_zero(1,2) [of st] by auto
qed

text \<open>
  Unloading the module frees every block the device refers to, each exactly once, frees
  nothing else, and unregisters the device.
\<close>

lemma aesd_cleanup_frees_all:
  assumes "dev_inv st"
  shows "\<exists>st' c'. aesd_cleanup_module st c = Some (st', c') \<and> \<not> region c' \<and> \<not> cdev_live c' \<and>
    dom (kheap st') = dom (kheap st) - set (owned (aesd_device st)) \<and>
    (\<forall>a. a \<in> set (owned (aesd_device st)) \<or> kheap st' a = kheap st a)"
proof -
  obtain st' c' where r: "aesd_cleanup_module st c = Some (st', c')" "\<not> region c'" "\<not> cdev_live c'"
    "kheap st' = kheap st |` (- set (owned (aesd_device st)))"
    using aesd_cleanup_ok [OF assms, of c] by blast
  have "dom (kheap st') = dom (kheap st) - set (owned (aesd_device st))"
    "\<forall>a. a \<in> set (owned (aesd_device st)) \<or> kheap st' a = kheap st a"
    unfolding r(4) by (auto simp: restrict_map_def split: if_splits)
  with r show ?thesis by blast
qed

end
