(* ===== verification/File_Operations.thy ===== *)
theory File_Operations
  imports Aesd_Write Aesd_Read Aesd_Seek Aesd_Module
begin

text \<open>
  The contract the four data operations of \<^verbatim>\<open>aesd_fops\<close> share, as the locale \<open>device_op\<close>:
  on a device that satisfies the invariant an operation has a defined result, keeps the
  invariant (so it leaves the mutex free) and loses no block from sight but by evicting a
  command.  Operations that leave the module's state alone satisfy the stronger
  \<open>read_only_op\<close>, which gives the contract.  The operations are wrapped to take their
  arguments as one value.
\<close>

locale device_op =
  fixes run :: "'a \<Rightarrow> kst \<Rightarrow> ('r \<times> kst) option"
    and pre :: "'a \<Rightarrow> kst \<Rightarrow> bool"
  assumes defined: "dev_inv st \<Longrightarrow> pre x st \<Longrightarrow> run x st \<noteq> None"
    and keeps_inv: "dev_inv st \<Longrightarrow> pre x st \<Longrightarrow> run x st = Some (r, st') \<Longrightarrow> dev_inv st'"
    and keeps_stray: "dev_inv st \<Longrightarrow> pre x st \<Longrightarrow> run x st = Some (r, st') \<Longrightarrow> stray st \<subseteq> stray st'"
begin

lemma mutex_balanced:
  "dev_inv st \<Longrightarrow> pre x st \<Longrightarrow>
   \<exists>r st'. run x st = Some (r, st') \<and> \<not> buffer_lock (aesd_device st') \<and>
           stray st \<subseteq> stray st' \<and> dev_inv st'"
  using defined [of st x] keeps_inv [of st x] keeps_stray [of st x] dev_invD(2) by fastforce

end

locale read_only_op =
  fixes run :: "'a \<Rightarrow> kst \<Rightarrow> ('r \<times> kst) option"
    and pre :: "'a \<Rightarrow> kst \<Rightarrow> bool"
  assumes unchanged: "dev_inv st \<Longrightarrow> pre x st \<Longrightarrow> \<exists>r. run x st = Some (r, st)"

sublocale read_only_op \<subseteq> device_op
proof
  show "dev_inv st \<Longrightarrow> pre x st \<Longrightarrow> run x st \<noteq> None" for x st
    using unchanged [of st x] by auto
  show "dev_inv st \<Longrightarrow> pre x st \<Longrightarrow> run x st = Some (r, st') \<Longrightarrow> dev_inv st'" for x st r st'
    using unchanged [of st x] by auto
  show "dev_inv st \<Longrightarrow> pre x st \<Longrightarrow> run x st = Some (r, st') \<Longrightarrow> stray st \<subseteq> stray st'" for x st r st'
    using unchanged [of st x] by auto
qed

section \<open>The driver's operations satisfy it\<close>

definition read_op ::
  "file_t \<times> nat option \<times> u64 \<times> loff_t \<times> bool \<Rightarrow> kst \<Rightarrow> ((ssize_t \<times> byte list \<times> loff_t) \<times> kst) option" where
  "read_op = (\<lambda>(f, buf, n, pos, intr) st.
     map_option (\<lambda>(r, out, pos', st'). ((r, out, pos'), st'))
       (aesd_read st (Some f) buf n (Some pos) intr))"

definition write_op ::
  "file_t \<times> byte list option \<times> u64 \<times> loff_t \<times> addr \<times> addr \<times> bool \<Rightarrow> kst \<Rightarrow> (ssize_t \<times> kst) option" where
  "write_op = (\<lambda>(f, buf, n, pos, a, c, intr) st. aesd_write st (Some f) buf n (Some pos) a c intr)"

definition llseek_op :: "file_t \<times> loff_t \<times> int \<Rightarrow> kst \<Rightarrow> ((loff_t \<times> file_t) \<times> kst) option" where
  "llseek_op = (\<lambda>(f, off, whence) st.
     map_option (\<lambda>(r, f', st'). ((r, f'), st')) (aesd_llseek st f off whence))"

definition ioctl_op ::
  "file_t \<times> u32 \<times> aesd_seekto option \<Rightarrow> kst \<Rightarrow> ((ssize_t \<times> file_t) \<times> kst) option" where
  "ioctl_op = (\<lambda>(f, cmd, arg) st.
     map_option (\<lambda>(r, f', st'). ((r, f'), st')) (aesd_unlocked_ioctl st f cmd arg))"

interpretation read_file: read_only_op read_op "\<lambda>(f, _) st. private_data f = AesdDevice"
proof
  fix st :: kst and x :: "file_t \<times> nat option \<times> u64 \<times> loff_t \<times> bool"
  assume a: "dev_inv st" "(\<lambda>(f, _) st. private_data f = AesdDevice) x st"
  obtain f buf n pos intr where x: "x = (f, buf, n, pos, intr)" by (cases x)
  show "\<exists>r. read_op x st = Some (r, st)"
    using aesd_read_total [OF a(1), of f buf n pos intr] a(2) by (auto simp: read_op_def x)
qed

interpretation llseek_file: read_only_op llseek_op
  "\<lambda>(f, _) st. private_data f = AesdDevice \<and> 0 \<le> sint (f_pos f)"
proof
  fix st :: kst and x :: "file_t \<times> loff_t \<times> int"
  assume a: "dev_inv st" "(\<lambda>(f, _) st. private_data f = AesdDevice \<and> 0 \<le> sint (f_pos f)) x st"
  obtain f off whence where x: "x = (f, off, whence)" by (cases x)
  show "\<exists>r. llseek_op x st = Some (r, st)"
    using aesd_llseek_run [OF a(1), of f off whence] a(2) by (auto simp: llseek_op_def x)
qed

interpretation ioctl_file: read_only_op ioctl_op "\<lambda>(f, _) st. private_data f = AesdDevice"
proof
  fix st :: kst and x :: "file_t \<times> u32 \<times> aesd_seekto option"
  assume a: "dev_inv st" "(\<lambda>(f, _) st. private_data f = AesdDevice) x st"
  obtain f cmd arg where x: "x = (f, cmd, arg)" by (cases x)
  show "\<exists>r. ioctl_op x st = Some (r, st)"
  proof (cases "cmd = AESDCHAR_IOCSEEKTO")
    case True
    then show ?thesis
      using aesd_ioctl_run [OF a(1), of f] aesd_ioctl_other(2) [of st f] a(2)
      by (cases arg) (auto simp: ioctl_op_def x)
  qed (simp add: ioctl_op_def x aesd_ioctl_other(1))
qed

interpretation write_file: device_op write_op
  "\<lambda>(f, buf, n, pos, a, c, intr) st. write_alloc_contract st n a c"
proof
  fix st st' :: kst and r and x :: "file_t \<times> byte list option \<times> u64 \<times> loff_t \<times> addr \<times> addr \<times> bool"
  assume a: "dev_inv st" "(\<lambda>(f, buf, n, pos, a, c, intr) st. write_alloc_contract st n a c) x st"
  obtain f buf n pos p c intr where x: "x = (f, buf, n, pos, p, c, intr)" using prod_cases7 by blast
  note out = aesd_write_outcome [OF a(1), of n p c "Some f" buf pos intr]
  show "write_op x st \<noteq> None" using out a(2) by (auto simp: write_op_def x)
  assume run: "write_op x st = Some (r, st')"
  show "dev_inv st'" using aesd_write_inv [OF a(1)] a(2) run by (auto simp: write_op_def x)
  show "stray st \<subseteq> stray st'"
    using out a(2) run
    by (auto simp: write_op_def x stored_all_def write_effect_def unchanged_write_keeps)
qed

end
