(* ===== verification/Aesd_System.thy ===== *)
theory Aesd_System
  imports File_Operations
begin

text \<open>
  The driver in use: any number of open files, and the file operations of
  \<^verbatim>\<open>struct file_operations aesd_fops\<close> called on them in any order.  Every access to the
  device lies between taking and releasing its mutex, so an execution is a sequence of whole
  operations.  A step exists only where the code has a defined result; \<open>sys_progress\<close> shows
  that in a reachable state every operation has one.
\<close>

section \<open>Steps\<close>

record sys =
  kern :: kst
  files :: "nat \<rightharpoonup> file_t"

text \<open>
  The operations of \<open>aesd_fops\<close> with what their environment decides: for a read the number of
  bytes writable at the buffer and whether a signal is pending, for a write the bytes readable
  at the buffer, the results of the two allocations and the signal.
\<close>

datatype fop =
    Open nat
  | Release nat
  | Read nat "nat option" u64 bool
  | Write nat "byte list option" u64 addr addr bool
  | Llseek nat loff_t int
  | Ioctl nat u32 "aesd_seekto option"

text \<open>
  The file layer hands \<^verbatim>\<open>read\<close> and \<^verbatim>\<open>write\<close> a copy of the file's position and stores it back
  when the call succeeded.
\<close>

definition commit_pos :: "ssize_t \<Rightarrow> loff_t \<Rightarrow> file_t \<Rightarrow> file_t" where
  "commit_pos r pos f = (if 0 \<le> sint r then f\<lparr>f_pos := pos\<rparr> else f)"

inductive sys_step :: "sys \<Rightarrow> fop \<Rightarrow> ssize_t \<Rightarrow> byte list \<Rightarrow> sys \<Rightarrow> bool" where
  Step_Open: "files s fd = None \<Longrightarrow>
    aesd_open AesdDevice \<lparr>f_pos = 0, private_data = NullDev\<rparr> = (r, f) \<Longrightarrow>
    sys_step s (Open fd) (word_of_int r) [] (s\<lparr>files := (files s)(fd \<mapsto> f)\<rparr>)"
| Step_Release: "files s fd = Some f \<Longrightarrow> aesd_release f = (r, f') \<Longrightarrow>
    sys_step s (Release fd) (word_of_int r) [] (s\<lparr>files := (files s)(fd := None)\<rparr>)"
| Step_Read: "files s fd = Some f \<Longrightarrow>
    aesd_read (kern s) (Some f) buf n (Some (f_pos f)) intr = Some (r, out, pos, k) \<Longrightarrow>
    sys_step s (Read fd buf n intr) r out
      (s\<lparr>kern := k, files := (files s)(fd \<mapsto> commit_pos r pos f)\<rparr>)"
| Step_Write: "files s fd = Some f \<Longrightarrow> write_alloc_contract (kern s) n a c \<Longrightarrow>
    aesd_write (kern s) (Some f) buf n (Some (f_pos f)) a c intr = Some (r, k) \<Longrightarrow>
    sys_step s (Write fd buf n a c intr) r []
      (s\<lparr>kern := k, files := (files s)(fd \<mapsto> commit_pos r (f_pos f) f)\<rparr>)"
| Step_Llseek: "files s fd = Some f \<Longrightarrow>
    aesd_llseek (kern s) f off whence = Some (r, f', k) \<Longrightarrow>
    sys_step s (Llseek fd off whence) r [] (s\<lparr>kern := k, files := (files s)(fd \<mapsto> f')\<rparr>)"
| Step_Ioctl: "files s fd = Some f \<Longrightarrow>
    aesd_unlocked_ioctl (kern s) f cmd arg = Some (r, f', k) \<Longrightarrow>
    sys_step s (Ioctl fd cmd arg) r [] (s\<lparr>kern := k, files := (files s)(fd \<mapsto> f')\<rparr>)"

inductive_cases sys_stepE:
  "sys_step s (Open fd) r out s'" "sys_step s (Release fd) r out s'"
  "sys_step s (Read fd buf n intr) r out s'" "sys_step s (Write fd buf n a c intr) r out s'"
  "sys_step s (Llseek fd off whence) r out s'" "sys_step s (Ioctl fd cmd arg) r out s'"

text \<open>The data a step stores in the device: that of a write which did not fail.\<close>

definition accepted :: "fop \<Rightarrow> ssize_t \<Rightarrow> byte list list" where
  "accepted op r =
     (case op of
        Write fd (Some ubuf) n a c intr \<Rightarrow> if 0 < sint r then [take (unat n) ubuf] else []
      | _ \<Rightarrow> [])"

text \<open>How many of the writes contain a newline, and so complete a command.\<close>

abbreviation lines :: "byte list list \<Rightarrow> nat" where
  "lines ws \<equiv> length (filter (\<lambda>w. newline \<in> set w) ws)"

text \<open>Runs from a freshly loaded module on a heap \<open>h\<close>, with the data stored so far.\<close>

inductive sys_run :: "heap \<Rightarrow> sys \<Rightarrow> byte list list \<Rightarrow> bool" for h where
  Run_start: "kheap k = h \<Longrightarrow> 0 \<le> ret \<Longrightarrow>
    aesd_init_module k c (ret, major) 0 = Some (0, k', c') \<Longrightarrow>
    sys_run h \<lparr>kern = k', files = Map.empty\<rparr> []"
| Run_step: "sys_run h s ws \<Longrightarrow> sys_step s op r out s' \<Longrightarrow> sys_run h s' (ws @ accepted op r)"

section \<open>Invariant\<close>

definition file_ok :: "file_t \<Rightarrow> bool" where
  "file_ok f \<longleftrightarrow> 0 \<le> sint (f_pos f) \<and> private_data f = AesdDevice"

definition sys_inv :: "sys \<Rightarrow> bool" where
  "sys_inv s \<longleftrightarrow> dev_inv (kern s) \<and> (\<forall>f \<in> ran (files s). file_ok f)"

lemma sys_inv_upd:
  assumes "sys_inv s" "dev_inv k" "file_ok f"
  shows "sys_inv (s\<lparr>kern := k, files := (files s)(fd \<mapsto> f)\<rparr>)"
  using assms by (auto simp: sys_inv_def ran_def split: if_splits)

lemma sys_inv_upd_files:
  assumes "sys_inv s" "file_ok f"
  shows "sys_inv (s\<lparr>files := (files s)(fd \<mapsto> f)\<rparr>)"
  using assms by (auto simp: sys_inv_def ran_def split: if_splits)

lemma sys_invD:
  "sys_inv s \<Longrightarrow> dev_inv (kern s)"
  "sys_inv s \<Longrightarrow> files s fd = Some f \<Longrightarrow> file_ok f"
  by (auto simp: sys_inv_def ran_def)

text \<open>A read never touches the device, and its position stays within \<^verbatim>\<open>loff_t\<close>.\<close>

lemma read_step:
  assumes "dev_inv k" "file_ok f"
    and "aesd_read k (Some f) buf n (Some (f_pos f)) intr = Some (r, out, pos, k')"
  shows "k' = k \<and> file_ok (commit_pos r pos f)"
proof (cases "buf = None \<or> n = 0 \<or> intr")
  case True
  then show ?thesis
    using assms by (auto simp: aesd_read_defs file_ok_def commit_pos_def mutex_lock_interruptible_def
        split: option.splits if_splits)
next
  case False
  then obtain cap where b: "buf = Some cap" "n \<noteq> 0" "\<not> intr" by auto
  let ?n = "min (unat n) (length (stored k) - unat (f_pos f))"
  obtain m where m: "m \<le> ?n"
    "aesd_read k (Some f) (Some cap) n (Some (f_pos f)) False =
      Some (if cap < ?n then - EFAULT else word_of_nat ?n, take m (drop (unat (f_pos f)) (stored k)),
            f_pos f + word_of_nat m, k)"
    using aesd_read_run [OF assms(1) _ _ b(2), of f "f_pos f" cap] assms(2)
    unfolding file_ok_def by metis
  have pos: "unat (f_pos f) < 2 ^ 63" using assms(2) sint_nonneg_unat by (simp add: file_ok_def)
  have tot: "length (stored k) < 2 ^ 63"
    using ring_bytes_small(1) [OF assms(1)] length_stored [OF assms(1)] by simp
  have sum: "unat (f_pos f) + m < 2 ^ 63" using m(1) pos tot by linarith
  have "unat (word_of_nat m :: u64) = m" using sum by (intro unat_of_nat_le) simp
  then have "unat (f_pos f + word_of_nat m) < 2 ^ 63"
    using sum by (subst unat_plus_small) simp_all
  then have "0 \<le> sint (f_pos f + word_of_nat m)" by (simp add: sint_eq_unat)
  then show ?thesis using assms(2,3) b m(2) by (auto simp: file_ok_def commit_pos_def)
qed

text \<open>How a step may change the set of blocks the device has lost track of.\<close>

definition loses :: "kst \<Rightarrow> byte list list \<Rightarrow> kst \<Rightarrow> bool" where
  "loses k ws k' \<longleftrightarrow>
     (if lines ws = 1 \<and> length (commands k) = MAX_OPS
      then \<exists>a. a \<notin> stray k \<and> stray k' = insert a (stray k)
      else lines ws = 0 \<and> stray k' = stray k \<or> lines ws = 1 \<and> stray k' = stray k)"

lemma losesD: "loses k ws k' \<Longrightarrow> lines ws \<le> 1 \<and> stray k \<subseteq> stray k'"
  by (auto simp: loses_def split: if_splits)

lemma loses_same [simp]: "loses k [] k"
  by (simp add: loses_def)

lemma write_effect_loses:
  assumes "dev_inv k" "write_effect k w k'"
  shows "loses k [w] k'"
proof (cases "newline \<in> set w \<and> length (commands k) = MAX_OPS")
  case True
  then have "evicted (buffer (aesd_device k)) = {buffptr (hd (contents (buffer (aesd_device k))))}"
    by (simp add: evicted_def commands_def)
  moreover have "evicted (buffer (aesd_device k)) \<inter> stray k = {}"
    using evicted_subset by (auto simp: stray_def set_owned)
  ultimately show ?thesis
    using True assms(2)
    by (auto simp: loses_def write_effect_def intro!: exI [of _ "buffptr (hd (contents (buffer (aesd_device k))))"])
next
  case False
  then have "newline \<in> set w \<Longrightarrow> evicted (buffer (aesd_device k)) = {}"
    by (simp add: evicted_def commands_def)
  with False assms(2) show ?thesis by (auto simp: loses_def write_effect_def)
qed

lemma write_step:
  assumes "dev_inv k" "write_alloc_contract k n a c"
    and "aesd_write k (Some f) buf n (Some pos) a c intr = Some (r, k')"
  shows "dev_inv k'"
    and "abs_dev k' = fold spec_write (accepted (Write fd buf n a c intr) r) (abs_dev k)"
    and "loses k (accepted (Write fd buf n a c intr) r) k'"
proof -
  have out: "stored_all k buf n r k' \<or> r \<in> write_errors \<and> unchanged_write k k'"
    using aesd_write_outcome [OF assms(1,2), of "Some f" buf pos intr] assms(3) by simp
  show "dev_inv k'" by (rule aesd_write_inv [OF assms])
  show "abs_dev k' = fold spec_write (accepted (Write fd buf n a c intr) r) (abs_dev k)"
    using out write_errors_negative [of r]
    by (cases buf)
      (auto simp: accepted_def stored_all_def write_effect_def unchanged_write_keeps)
  show "loses k (accepted (Write fd buf n a c intr) r) k'"
    using out write_errors_negative [of r] assms(1)
    by (cases buf)
      (auto simp: accepted_def stored_all_def unchanged_write_keeps loses_def [of _ "[]"]
        intro: write_effect_loses)
qed

text \<open>Seeking never touches the device, and the new position is one in the stored data.\<close>

lemma llseek_step:
  assumes "dev_inv k" "file_ok f" "aesd_llseek k f off whence = Some (r, f', k')"
  shows "k' = k \<and> file_ok f'"
  using aesd_llseek_run [OF assms(1), of f off whence] assms(2,3)
  by (auto simp: file_ok_def split: option.splits if_splits)

lemma ioctl_step:
  assumes "dev_inv k" "file_ok f" "aesd_unlocked_ioctl k f cmd arg = Some (r, f', k')"
  shows "k' = k \<and> file_ok f'"
proof (cases "cmd = AESDCHAR_IOCSEEKTO \<and> arg \<noteq> None")
  case True
  then obtain sk where sk: "cmd = AESDCHAR_IOCSEEKTO" "arg = Some sk" by auto
  have "0 \<le> sint (word_of_nat (seek_offset k sk) :: u64)" if "seek_valid k sk"
  proof -
    have "seek_offset k sk < 2 ^ 63"
      using seek_offset_bound [OF that] ring_bytes_small(1) [OF assms(1)] length_stored [OF assms(1)]
      by simp
    then show ?thesis by (simp add: sint_eq_unat unat_of_nat_le)
  qed
  then show ?thesis
    using aesd_ioctl_run [OF assms(1), of f sk] assms(2,3) sk
    by (auto simp: file_ok_def split: if_splits)
next
  case False
  then show ?thesis using assms(2,3) by (cases arg) (auto simp: aesd_ioctl_defs split: if_splits)
qed

text \<open>One step, whichever it is.\<close>

lemma sys_step_spec:
  assumes "sys_step s op r out s'" "sys_inv s"
  shows "sys_inv s'" "abs_dev (kern s') = fold spec_write (accepted op r) (abs_dev (kern s))"
    "loses (kern s) (accepted op r) (kern s')"
proof -
  have "sys_inv s' \<and> abs_dev (kern s') = fold spec_write (accepted op r) (abs_dev (kern s)) \<and>
      loses (kern s) (accepted op r) (kern s')"
    using assms
  proof (induction rule: sys_step.induct)
    case (Step_Open s fd r f)
    then show ?case
      by (auto simp: sys_inv_def aesd_open_def accepted_def file_ok_def ran_def)
  next
    case (Step_Release s fd f r f')
    then show ?case by (auto simp: sys_inv_def accepted_def ran_def)
  next
    case (Step_Read s fd f buf n intr r out pos k)
    note d = sys_invD(1) [OF Step_Read(3)] sys_invD(2) [OF Step_Read(3,1)]
    show ?case
      using read_step [OF d Step_Read(2)] d Step_Read(3)
      by (auto simp: accepted_def intro!: sys_inv_upd_files)
  next
    case (Step_Write s fd f n a c buf intr r k)
    note d = sys_invD(1) [OF Step_Write(4)] sys_invD(2) [OF Step_Write(4,1)]
    note w = write_step [OF d(1) Step_Write(2,3)]
    have "file_ok (commit_pos r (f_pos f) f)" using d(2) by (auto simp: commit_pos_def file_ok_def)
    then show ?case using w Step_Write(4) by (auto intro!: sys_inv_upd)
  next
    case (Step_Llseek s fd f off whence r f' k)
    note d = sys_invD(1) [OF Step_Llseek(3)] sys_invD(2) [OF Step_Llseek(3,1)]
    show ?case
      using llseek_step [OF d Step_Llseek(2)] d Step_Llseek(3)
      by (auto simp: accepted_def intro!: sys_inv_upd_files)
  next
    case (Step_Ioctl s fd f cmd arg r f' k)
    note d = sys_invD(1) [OF Step_Ioctl(3)] sys_invD(2) [OF Step_Ioctl(3,1)]
    show ?case
      using ioctl_step [OF d Step_Ioctl(2)] d Step_Ioctl(3)
      by (auto simp: accepted_def intro!: sys_inv_upd_files)
  qed
  then show "sys_inv s'" "abs_dev (kern s') = fold spec_write (accepted op r) (abs_dev (kern s))"
    "loses (kern s) (accepted op r) (kern s')" by auto
qed

lemma init_state:
  assumes "kheap k = h" "0 \<le> ret" "aesd_init_module k c (ret, major) 0 = Some (0, k', c')"
  shows "dev_inv k'" "abs_dev k' = ([], [])" "stray k' = dom h"
  using aesd_init_ok [of "(ret, major)" k c 0] dev_inv_zero [of k] assms by auto

lemma sys_run_spec:
  assumes "sys_run h s ws"
  shows "sys_inv s" "abs_dev (kern s) = fold spec_write ws ([], [])"
    "dom h \<subseteq> stray (kern s)"
proof -
  have "sys_inv s \<and> abs_dev (kern s) = fold spec_write ws ([], []) \<and> dom h \<subseteq> stray (kern s)"
    using assms
  proof (induction rule: sys_run.induct)
    case (Run_start k ret c major k' c')
    then show ?case using init_state [OF Run_start] by (simp add: sys_inv_def)
  next
    case (Run_step s ws op r out s')
    then show ?case using sys_step_spec [OF Run_step(2)] losesD by fastforce
  qed
  then show "sys_inv s" "abs_dev (kern s) = fold spec_write ws ([], [])"
    "dom h \<subseteq> stray (kern s)" by auto
qed

section \<open>Progress\<close>

text \<open>
  When an operation may be called: on an open file (or a free descriptor, for \<open>Open\<close>), and for a
  write with an allocator that keeps its contract.
\<close>

definition op_enabled :: "sys \<Rightarrow> fop \<Rightarrow> bool" where
  "op_enabled s op =
     (case op of
        Open fd \<Rightarrow> files s fd = None
      | Release fd \<Rightarrow> files s fd \<noteq> None
      | Read fd buf n intr \<Rightarrow> files s fd \<noteq> None
      | Write fd buf n a c intr \<Rightarrow> files s fd \<noteq> None \<and> write_alloc_contract (kern s) n a c
      | Llseek fd off whence \<Rightarrow> files s fd \<noteq> None
      | Ioctl fd cmd arg \<Rightarrow> files s fd \<noteq> None)"

lemma sys_inv_progress:
  assumes "sys_inv s" "op_enabled s op"
  shows "\<exists>r out s'. sys_step s op r out s'"
proof (cases op)
  case (Open fd)
  then show ?thesis using assms(2) Step_Open [of s fd] by (fastforce simp: op_enabled_def aesd_open_def)
next
  case (Release fd)
  then show ?thesis
    using assms(2) Step_Release [of s fd] by (fastforce simp: op_enabled_def aesd_release_def)
next
  case (Read fd buf n intr)
  then obtain f where f: "files s fd = Some f" using assms(2) by (auto simp: op_enabled_def)
  then have "private_data f = AesdDevice" using sys_invD(2) [OF assms(1) f] by (simp add: file_ok_def)
  then show ?thesis
    using read_file.unchanged [OF sys_invD(1) [OF assms(1)], of "(f, buf, n, f_pos f, intr)"]
      Step_Read [OF f] Read by (fastforce simp: read_op_def)
next
  case (Write fd buf n a c intr)
  then obtain f where f: "files s fd = Some f" "write_alloc_contract (kern s) n a c"
    using assms(2) by (auto simp: op_enabled_def)
  then show ?thesis
    using write_file.defined [OF sys_invD(1) [OF assms(1)], of "(f, buf, n, f_pos f, a, c, intr)"]
      Step_Write [OF f] Write by (fastforce simp: write_op_def)
next
  case (Llseek fd off whence)
  then obtain f where f: "files s fd = Some f" using assms(2) by (auto simp: op_enabled_def)
  then have "private_data f = AesdDevice" "0 \<le> sint (f_pos f)"
    using sys_invD(2) [OF assms(1) f] by (simp_all add: file_ok_def)
  then show ?thesis
    using llseek_file.unchanged [OF sys_invD(1) [OF assms(1)], of "(f, off, whence)"]
      Step_Llseek [OF f] Llseek by (fastforce simp: llseek_op_def)
next
  case (Ioctl fd cmd arg)
  then obtain f where f: "files s fd = Some f" using assms(2) by (auto simp: op_enabled_def)
  then have "private_data f = AesdDevice" using sys_invD(2) [OF assms(1) f] by (simp add: file_ok_def)
  then show ?thesis
    using ioctl_file.unchanged [OF sys_invD(1) [OF assms(1)], of "(f, cmd, arg)"]
      Step_Ioctl [OF f] Ioctl by (fastforce simp: ioctl_op_def)
qed

section \<open>What a history of writes leaves\<close>

lemma fold_spec_snoc: "fold spec_write (ws @ [w]) s = spec_write w (fold spec_write ws s)"
  by simp

lemma spec_write_newline: "newline \<in> set w \<Longrightarrow> spec_write w (cs, p) = (push MAX_OPS cs (p @ w), [])"
  by (simp add: spec_write_def)

lemma spec_write_other: "newline \<notin> set w \<Longrightarrow> spec_write w (cs, p) = (cs, p @ w)"
  by (simp add: spec_write_def)

lemmas spec_writes = spec_write_newline spec_write_other

text \<open>The number of commands is the number of writes with a newline, up to ten.\<close>

lemma spec_lines: "length (fst (fold spec_write ws ([], []))) = min MAX_OPS (lines ws)"
proof (induction ws rule: rev_induct)
  case (snoc w ws)
  then show ?case
    by (cases "fold spec_write ws ([], [])"; cases "newline \<in> set w") (auto simp: spec_writes push_def)
qed simp

text \<open>Only the oldest data is ever forgotten.\<close>

lemma spec_suffix:
  "\<exists>lost. concat ws = lost @ concat (fst (fold spec_write ws ([], []))) @ snd (fold spec_write ws ([], [])) \<and>
     (lines ws \<le> MAX_OPS \<longrightarrow> lost = [])"
proof (induction ws rule: rev_induct)
  case (snoc w ws)
  obtain cs p where cp: "fold spec_write ws ([], []) = (cs, p)" by force
  with snoc obtain lost where lost: "concat ws = lost @ concat cs @ p" "lines ws \<le> MAX_OPS \<longrightarrow> lost = []"
    by auto
  show ?case
  proof (cases "newline \<in> set w")
    case True
    let ?k = "Suc (length cs) - MAX_OPS"
    have "concat (cs @ [p @ w]) = concat (take ?k (cs @ [p @ w])) @ concat (push MAX_OPS cs (p @ w))"
      unfolding push_def concat_append [symmetric]
      by (metis append_take_drop_id length_append_singleton)
    then have "concat (ws @ [w]) =
        (lost @ concat (take ?k (cs @ [p @ w]))) @ concat (push MAX_OPS cs (p @ w))"
      using lost by simp
    moreover have "take ?k (cs @ [p @ w]) = []" if "lines (ws @ [w]) \<le> MAX_OPS"
      using that True spec_lines [of ws] cp by simp
    ultimately show ?thesis using True cp lost(2) by (fastforce simp: spec_writes simp del: concat_append)
  next
    case False
    with cp lost show ?thesis by (auto simp: spec_writes)
  qed
qed simp

text \<open>
  The commands a history of writes completes: a write with a newline completes the data since the
  last one, another write only adds to it.
\<close>

fun completed :: "byte list \<Rightarrow> byte list list \<Rightarrow> byte list list" where
  "completed p [] = []"
| "completed p (w # ws) =
     (if newline \<in> set w then (p @ w) # completed [] ws else completed (p @ w) ws)"

text \<open>The complete lines of a byte stream; what follows the last newline is left out.\<close>

fun complete_lines :: "byte list \<Rightarrow> byte list \<Rightarrow> byte list list" where
  "complete_lines line [] = []"
| "complete_lines line (b # bs) =
     (if b = newline then (line @ [b]) # complete_lines [] bs else complete_lines (line @ [b]) bs)"

lemma complete_lines_append:
  "newline \<notin> set bs \<Longrightarrow> complete_lines line (bs @ rest) = complete_lines (line @ bs) rest"
  by (induction bs arbitrary: line) auto

text \<open>With a newline at most at the end of each write, the commands are the lines of the whole stream.\<close>

lemma completed_lines:
  "\<forall>w \<in> set ws. newline \<notin> set (butlast w) \<Longrightarrow> completed p ws = complete_lines p (concat ws)"
proof (induction p ws rule: completed.induct)
  case (2 p w ws)
  show ?case
  proof (cases w rule: rev_cases)
    case (snoc bs b)
    then have "newline \<notin> set bs" using 2(3) by simp
    then show ?thesis using 2 snoc complete_lines_append [of bs p "b # concat ws"] by auto
  qed (use 2 in simp)
qed simp

lemma fold_spec_completed:
  "length cs \<le> MAX_OPS \<Longrightarrow>
   fst (fold spec_write ws (cs, p)) = drop (length (cs @ completed p ws) - MAX_OPS) (cs @ completed p ws)"
proof (induction ws arbitrary: cs p)
  case (Cons w ws)
  show ?case
  proof (cases "newline \<in> set w")
    case True
    let ?k = "Suc (length cs) - MAX_OPS" and ?all = "cs @ completed p (w # ws)"
    have k: "?k \<le> length ?all - MAX_OPS" "?k \<le> Suc (length cs)" using True by simp_all
    have p: "push MAX_OPS cs (p @ w) @ completed [] ws = drop ?k ?all"
      using True by (simp add: push_def drop_Cons')
    have len: "length (push MAX_OPS cs (p @ w)) \<le> MAX_OPS" by (simp add: push_def)
    have "fst (fold spec_write (w # ws) (cs, p)) = drop (length (drop ?k ?all) - MAX_OPS) (drop ?k ?all)"
      using Cons.IH [OF len, of "[]"] True unfolding p by (simp add: spec_write_newline)
    also have "\<dots> = drop (length ?all - MAX_OPS - ?k + ?k) ?all"
      by (simp only: drop_drop length_drop diff_commute)
    finally show ?thesis using k(1) by (simp only: le_add_diff_inverse2)
  qed (use Cons in \<open>simp add: spec_writes\<close>)
qed simp

text \<open>
  The device loses one block per completed command beyond the tenth, and no other.
\<close>

lemma sys_run_stray:
  assumes "sys_run h s ws"
  shows "finite (stray (kern s) - dom h) \<and> card (stray (kern s) - dom h) = lines ws - MAX_OPS"
  using assms
proof (induction rule: sys_run.induct)
  case (Run_start k ret c major k' c')
  then show ?case using init_state(3) [OF Run_start] by simp
next
  case (Run_step s ws op r out s')
  note inv = sys_run_spec [OF Run_step(1)]
  have len: "length (commands (kern s)) = min MAX_OPS (lines ws)"
    using arg_cong [OF inv(2), of "\<lambda>x. length (fst x)"] spec_lines [of ws] by (simp add: abs_dev_def)
  note loss = sys_step_spec(3) [OF Run_step(2) inv(1)]
  show ?case
  proof (cases "lines (accepted op r) = 1 \<and> length (commands (kern s)) = MAX_OPS")
    case True
    then obtain a where a: "a \<notin> stray (kern s)" "stray (kern s') = insert a (stray (kern s))"
      using loss unfolding loses_def by auto
    with inv(3) have "stray (kern s') - dom h = insert a (stray (kern s) - dom h)" by blast
    moreover have "MAX_OPS \<le> lines ws" using True len by (simp add: min_def split: if_splits)
    ultimately show ?thesis using a(1) Run_step.IH True by (simp add: Suc_diff_le)
  next
    case False
    then have "stray (kern s') = stray (kern s)" "lines (accepted op r) \<le> 1"
      using loss unfolding loses_def by auto
    with Run_step.IH False len show ?thesis by auto
  qed
qed

section \<open>A run\<close>

text \<open>Load the module, open the device as file 3, and write one line.\<close>

abbreviation no_chrdev :: chrdev where
  "no_chrdev \<equiv> \<lparr>aesd_major = 0, region = False, cdev_live = False\<rparr>"

definition boot_k :: kst where
  "boot_k = \<lparr>kheap = Map.empty, aesd_device = zero_dev, val = 0\<rparr>"

lemma boot_inv: "dev_inv boot_k" "abs_dev boot_k = ([], [])"
  using dev_inv_zero [of boot_k] by (simp_all add: boot_k_def)

abbreviation new_file :: file_t where
  "new_file \<equiv> \<lparr>f_pos = 0, private_data = AesdDevice\<rparr>"

lemma boot_run: "sys_run Map.empty \<lparr>kern = boot_k, files = [3 \<mapsto> new_file]\<rparr> []"
proof -
  have "aesd_init_module boot_k no_chrdev (0, 240) 0 =
      Some (0, boot_k, no_chrdev\<lparr>aesd_major := 240, region := True, cdev_live := True\<rparr>)"
    by (simp add: aesd_init_module_def aesd_setup_cdev_def aesd_circular_buffer_init_def zero_dev_def
        ring_start_def boot_k_def Let_def)
  from Run_start [OF refl _ this] have "sys_run Map.empty \<lparr>kern = boot_k, files = Map.empty\<rparr> []"
    by (simp add: boot_k_def)
  from Run_step [OF this Step_Open [of _ 3]] show ?thesis
    by (simp add: aesd_open_def accepted_def)
qed

lemma demo_run:
  "\<exists>k. sys_run Map.empty \<lparr>kern = k, files = [3 \<mapsto> new_file]\<rparr> [[CHR ''h'', CHR ''i'', newline]] \<and>
       commands k = [[CHR ''h'', CHR ''i'', newline]]"
proof -
  let ?w = "[CHR ''h'', CHR ''i'', newline]"
  have al: "write_alloc_contract boot_k 3 64 0"
    by (simp add: write_alloc_contract_def kmalloc_contract_def krealloc_contract_def boot_k_def
        zero_dev_def kmalloc_max_def)
  obtain k where k: "aesd_write boot_k (Some new_file) (Some ?w) 3 (Some 0) 64 0 False = Some (3, k)"
      "write_effect boot_k ?w k"
    using aesd_write_success [OF boot_inv(1), of new_file 0 3 ?w 64 0] al boot_inv(2)
    by (auto simp: abs_dev_def)
  have "sys_step \<lparr>kern = boot_k, files = [3 \<mapsto> new_file]\<rparr> (Write 3 (Some ?w) 3 64 0 False) 3 []
      \<lparr>kern = k, files = [3 \<mapsto> new_file]\<rparr>"
    using Step_Write [of "\<lparr>kern = boot_k, files = [3 \<mapsto> new_file]\<rparr>" 3 new_file 3 64 0 "Some ?w" False 3 k]
      al k(1) by (simp add: commit_pos_def)
  from Run_step [OF boot_run this] have "sys_run Map.empty \<lparr>kern = k, files = [3 \<mapsto> new_file]\<rparr> [?w]"
    by (simp add: accepted_def)
  moreover have "commands k = [?w]"
    using k(2) boot_inv(2) by (auto simp: write_effect_def abs_dev_def spec_write_def push_def)
  ultimately show ?thesis by blast
qed

text \<open>The same line written in two pieces.\<close>

lemma demo_pieces:
  "\<exists>k. sys_run Map.empty \<lparr>kern = k, files = [3 \<mapsto> new_file]\<rparr> [''h'', [CHR ''i'', newline]]"
proof -
  let ?s = "\<lambda>k. \<lparr>kern = k, files = [3 \<mapsto> new_file]\<rparr>"
  let ?k1 = "boot_k\<lparr>val := 1, kheap := [64 \<mapsto> [Some CHR ''h'']],
    aesd_device := zero_dev\<lparr>partial_write := 64, partial_size := 1\<rparr>\<rparr>"
  have al: "write_alloc_contract boot_k 1 64 0" "write_alloc_contract ?k1 2 65 64"
    by (simp_all add: write_alloc_contract_def kmalloc_contract_def krealloc_contract_def boot_k_def
        zero_dev_def kmalloc_max_def)
  have w1: "aesd_write boot_k (Some new_file) (Some ''h'') 1 (Some 0) 64 0 False = Some (1, ?k1)"
    by (simp add: aesd_write_def write_locked_def mutex_defs kmalloc_def kfree_def
        copy_from_user_def mem_read_def mem_write_def boot_k_def zero_dev_def Let_def)
  have "sys_step (?s boot_k) (Write 3 (Some ''h'') 1 64 0 False) 1 [] (?s ?k1)"
    using Step_Write [of "?s boot_k" 3 new_file 1 64 0 "Some ''h''" False 1 ?k1] al(1) w1 by (simp add: commit_pos_def)
  from Run_step [OF boot_run this] have r1: "sys_run Map.empty (?s ?k1) [''h'']" by (simp add: accepted_def)
  have "dev_inv ?k1" using sys_invD(1) [OF sys_run_spec(1) [OF r1]] by simp
  from aesd_write_success [OF this, of new_file 0 2 "[CHR ''i'', newline]" 65 64] al(2)
  obtain k where "aesd_write ?k1 (Some new_file) (Some [CHR ''i'', newline]) 2 (Some 0) 65 64 False = Some (2, k)" by auto
  then have "sys_step (?s ?k1) (Write 3 (Some [CHR ''i'', newline]) 2 65 64 False) 2 [] (?s k)"
    using Step_Write [of "?s ?k1" 3 new_file 2 65 64 "Some [CHR ''i'', newline]" False 2 k] al(2) by (simp add: commit_pos_def)
  from Run_step [OF r1 this] show ?thesis by (auto simp: accepted_def)
qed

section \<open>Properties\<close>

text \<open>
  In every state reachable after loading the module, by any sequence of operations on any
  number of open files, every operation that may be called has a defined result: no deadlock on
  the mutex, no endless loop, no invalid memory access.  The resulting state is safe again.
\<close>

lemma sys_progress:
  assumes "sys_run h s ws" "op_enabled s op"
  shows "\<exists>r out s'. sys_step s op r out s' \<and> dev_inv (kern s') \<and>
    \<not> buffer_lock (aesd_device (kern s')) \<and> (\<forall>fd f. files s' fd = Some f \<longrightarrow> file_ok f)"
proof -
  obtain r out s' where st: "sys_step s op r out s'"
    using sys_inv_progress [OF sys_run_spec(1) [OF assms(1)] assms(2)] by blast
  have "sys_inv s'" by (rule sys_step_spec(1) [OF st sys_run_spec(1) [OF assms(1)]])
  with st show ?thesis by (blast dest: sys_invD dev_invD(2))
qed

text \<open>
  C12.  Whatever was written before, in whatever pieces and by however many files, a reader at the
  beginning of the device, with a buffer of any size, receives the last ten commands completed, in
  order and cut to its buffer.  A command is completed by a write with a newline and consists of
  everything written since the one before.  If no write has a newline but at its end, the commands
  are exactly the complete lines of the bytes written, so the reader receives the last ten of these.
\<close>

theorem sys_read_back:
  assumes "sys_run h s ws" "files s fd = Some f" "f_pos f = 0" "n \<noteq> 0" "unat n \<le> cap"
  shows "(\<exists>r s'. sys_step s (Read fd (Some cap) n False) r
           (take (unat n) (concat (drop (length (completed [] ws) - 10) (completed [] ws)))) s' \<and> kern s' = kern s) \<and>
    ((\<forall>w \<in> set ws. newline \<notin> set (butlast w)) \<longrightarrow> completed [] ws = complete_lines [] (concat ws))"
proof -
  note inv = sys_run_spec(1) [OF assms(1)]
  have f: "private_data f = AesdDevice" using sys_invD(2) [OF inv assms(2)] by (simp add: file_ok_def)
  have "fst (abs_dev (kern s)) = drop (length (completed [] ws) - 10) (completed [] ws)"
    unfolding sys_run_spec(2) [OF assms(1)] using fold_spec_completed [of "[]" ws "[]"] by simp
  then have st: "stored (kern s) = concat (drop (length (completed [] ws) - 10) (completed [] ws))"
    by (simp add: abs_dev_def stored_def)
  obtain r pos' where "aesd_read (kern s) (Some f) (Some cap) n (Some (f_pos f)) False =
      Some (r, take (unat n) (stored (kern s)), pos', kern s)"
    using aesd_read_delivered [OF sys_invD(1) [OF inv] f, of 0 n cap] assms(3-5) by auto
  from Step_Read [OF assms(2) this] show ?thesis unfolding st using completed_lines [of ws "[]"] by fastforce
qed

theorem sys_read_back_witness:
  "\<exists>s r s'. sys_step s (Read 3 (Some 64) 64 False) r [CHR ''h'', CHR ''i'', newline] s' \<and>
     completed [] [''h'', [CHR ''i'', newline]] = complete_lines [] [CHR ''h'', CHR ''i'', newline]"
proof -
  obtain k where "sys_run Map.empty \<lparr>kern = k, files = [3 \<mapsto> new_file]\<rparr> [''h'', [CHR ''i'', newline]]"
    using demo_pieces by blast
  from sys_read_back [OF this, of 3 new_file 64 64] show ?thesis by auto
qed

text \<open>
  C13.  Whatever the writes were, the stored commands followed by the unfinished one are a
  suffix of everything written: nothing is reordered, duplicated or lost but the oldest data,
  and no data at all before eleven commands are complete.
\<close>

theorem sys_forgets_oldest_only:
  assumes "sys_run h s ws"
  shows "(\<exists>lost. concat ws = lost @ stored (kern s) @ pending (kern s) \<and> (lines ws \<le> 10 \<longrightarrow> lost = [])) \<and>
    length (commands (kern s)) = min 10 (lines ws)"
proof -
  have cp: "fold spec_write ws ([], []) = (commands (kern s), pending (kern s))"
    using sys_run_spec(2) [OF assms] by (simp add: abs_dev_def)
  show ?thesis using spec_suffix [of ws] spec_lines [of ws] unfolding cp stored_def by simp
qed

theorem sys_forgets_oldest_only_witness:
  "\<exists>k. stored k @ pending k = [CHR ''h'', CHR ''i'', newline] \<and> length (commands k) = 1"
proof -
  obtain k where "sys_run Map.empty \<lparr>kern = k, files = [3 \<mapsto> new_file]\<rparr> [[CHR ''h'', CHR ''i'', newline]]"
    using demo_run by blast
  from sys_forgets_oldest_only [OF this] show ?thesis by auto
qed

text \<open>
  C14.  Unloading the module after any history leaves exactly one block more on the kernel heap
  than before loading it for every completed command beyond the tenth: nothing else is leaked,
  and no block the module did not allocate is freed.
\<close>

theorem sys_unload_leaks:
  assumes "sys_run h s ws"
  shows "\<exists>k' c'. aesd_cleanup_module (kern s) c = Some (k', c') \<and>
    dom h \<subseteq> dom (kheap k') \<and> finite (dom (kheap k') - dom h) \<and>
    card (dom (kheap k') - dom h) = lines ws - 10"
proof -
  obtain k' c' where "aesd_cleanup_module (kern s) c = Some (k', c')" "dom (kheap k') = stray (kern s)"
    using aesd_cleanup_ok [OF sys_invD(1) [OF sys_run_spec(1) [OF assms]], of c] by blast
  with sys_run_spec(3) [OF assms] sys_run_stray [OF assms] show ?thesis by auto
qed

theorem sys_unload_leaks_witness:
  "\<exists>k k' c'. aesd_cleanup_module k no_chrdev = Some (k', c') \<and>
     commands k = [[CHR ''h'', CHR ''i'', newline]] \<and> dom (kheap k') = {}"
proof -
  obtain k where k: "sys_run Map.empty \<lparr>kern = k, files = [3 \<mapsto> new_file]\<rparr> [[CHR ''h'', CHR ''i'', newline]]"
    "commands k = [[CHR ''h'', CHR ''i'', newline]]"
    using demo_run by blast
  from sys_unload_leaks [OF k(1), of no_chrdev] k(2) show ?thesis by auto
qed

end
