(* ===== verification/Aesd_Results.thy ===== *)
theory Aesd_Results
  imports Aesd_System
begin

text \<open>
  The results of the driver's operations as the system calls see them: an error number from a
  fixed set, or a value in the range the operation promises.
\<close>

definition result_ok :: "sys \<Rightarrow> fop \<Rightarrow> ssize_t \<Rightarrow> byte list \<Rightarrow> bool" where
  "result_ok s op r out \<longleftrightarrow>
     (case op of
        Open fd \<Rightarrow> r = 0
      | Release fd \<Rightarrow> r = 0
      | Read fd buf n intr \<Rightarrow> length out \<le> unat n \<and> (\<forall>cap. buf = Some cap \<longrightarrow> length out \<le> cap) \<and>
          (r \<in> {- EINVAL, - EFAULT, - ERESTARTSYS} \<or> sint r = int (length out))
      | Write fd buf n a c intr \<Rightarrow> r \<in> write_errors \<or> r = n \<and> 0 < sint r
      | Llseek fd off whence \<Rightarrow> r = - EINVAL \<or> 0 \<le> sint r \<and> sint r \<le> int (length (stored (kern s)))
      | Ioctl fd cmd arg \<Rightarrow> r \<in> {0, - EINVAL, - EFAULT, - ENOTTY})"

lemma read_result:
  assumes "dev_inv k" "file_ok f" "aesd_read k (Some f) buf n (Some (f_pos f)) intr = Some (r, out, pos, k')"
  shows "length out \<le> unat n \<and> (\<forall>cap. buf = Some cap \<longrightarrow> length out \<le> cap) \<and>
    (r \<in> {- EINVAL, - EFAULT, - ERESTARTSYS} \<or> sint r = int (length out))"
proof (cases "buf = None \<or> n = 0 \<or> intr")
  case True
  then show ?thesis
    using assms by (auto simp: aesd_read_defs file_ok_def mutex_lock_interruptible_def
        split: option.splits if_splits)
next
  case False
  then obtain cap where b: "buf = Some cap" "n \<noteq> 0" "intr = False" by auto
  have f: "private_data f = AesdDevice" "0 \<le> sint (f_pos f)" using assms(2) by (simp_all add: file_ok_def)
  let ?n = "min (unat n) (length (stored k) - unat (f_pos f))"
  obtain m where m: "m \<le> ?n" "if ?n \<le> cap then m = ?n else m \<le> cap"
    "aesd_read k (Some f) (Some cap) n (Some (f_pos f)) False =
      Some (if cap < ?n then - EFAULT else word_of_nat ?n, take m (drop (unat (f_pos f)) (stored k)),
            f_pos f + word_of_nat m, k)"
    by (rule aesd_read_run [OF assms(1) f b(2), of cap])
  have "length (stored k) < 2 ^ 63"
    using ring_bytes_small(1) [OF assms(1)] length_stored [OF assms(1)] by simp
  then have "sint (word_of_nat ?n :: u64) = int ?n" by (intro sint_word_of_nat) simp
  moreover have "length out = m" "m \<le> cap" "r = (if cap < ?n then - EFAULT else word_of_nat ?n)"
    using m assms(3) b by (auto split: if_splits)
  ultimately show ?thesis using m(1,2) b by (auto split: if_splits)
qed

lemma sys_step_result:
  assumes "sys_inv s" "sys_step s op r out s'"
  shows "result_ok s op r out"
  using assms(2)
proof cases
  case (Step_Read fd f buf n intr pos k)
  then show ?thesis
    using read_result [OF sys_invD(1) [OF assms(1)] sys_invD(2) [OF assms(1) Step_Read(3)] Step_Read(4)]
    by (simp add: result_ok_def)
next
  case (Step_Write fd f n a c buf intr k)
  then show ?thesis
    using aesd_write_outcome [OF sys_invD(1) [OF assms(1)] Step_Write(5), of "Some f" buf "f_pos f" intr]
    by (auto simp: result_ok_def stored_all_def)
next
  case (Step_Llseek fd f off whence f' k)
  have "private_data f = AesdDevice" "0 \<le> sint (f_pos f)"
    using sys_invD(2) [OF assms(1) Step_Llseek(4)] by (simp_all add: file_ok_def)
  from aesd_llseek_run [OF sys_invD(1) [OF assms(1)] this, of off whence] Step_Llseek show ?thesis
    by (auto simp: result_ok_def split: option.splits if_splits)
next
  case (Step_Ioctl fd f cmd arg f' k)
  have f: "private_data f = AesdDevice"
    using sys_invD(2) [OF assms(1) Step_Ioctl(4)] by (simp add: file_ok_def)
  show ?thesis
    using aesd_ioctl_run [OF sys_invD(1) [OF assms(1)] f] aesd_ioctl_other Step_Ioctl
    by (cases "cmd = AESDCHAR_IOCSEEKTO"; cases arg) (auto simp: result_ok_def split: if_splits)
qed (auto simp: result_ok_def aesd_open_def aesd_release_def)

section \<open>Properties\<close>

text \<open>
  C15.  Whatever happened before, every operation returns an error number of its own or a value of
  its range: a read the number of bytes it delivered, never more than asked for or than the
  buffer holds; a write all of its bytes; a seek a position within the stored data; the ioctl,
  opening and releasing 0.
\<close>

theorem sys_results_typed:
  assumes "sys_run h s ws" "sys_step s op r out s'"
  shows "result_ok s op r out"
  by (rule sys_step_result [OF sys_run_spec(1) [OF assms(1)] assms(2)])

theorem sys_results_typed_witness:
  "\<exists>s r out s'. sys_step s (Llseek 3 (- 1) 2) r out s' \<and> stored (kern s) = [CHR ''h'', CHR ''i'', newline] \<and>
     (r = - EINVAL \<or> 0 \<le> sint r \<and> sint r \<le> 3)"
proof -
  let ?s = "\<lambda>k. \<lparr>kern = k, files = [3 \<mapsto> new_file]\<rparr>"
  obtain k where k: "sys_run Map.empty (?s k) [[CHR ''h'', CHR ''i'', newline]]"
    "commands k = [[CHR ''h'', CHR ''i'', newline]]"
    using demo_run by blast
  obtain r out s' where st: "sys_step (?s k) (Llseek 3 (- 1) 2) r out s'"
    using sys_inv_progress [OF sys_run_spec(1) [OF k(1)], of "Llseek 3 (- 1) 2"] by (auto simp: op_enabled_def)
  have len: "stored (kern (?s k)) = [CHR ''h'', CHR ''i'', newline]" using k(2) by (simp add: stored_def)
  from sys_results_typed [OF k(1) st] have "r = - EINVAL \<or> 0 \<le> sint r \<and> sint r \<le> 3"
    unfolding result_ok_def fop.case len by simp
  with st len show ?thesis by blast
qed

end
