(* ===== verification/Aesd_Calls.thy ===== *)
theory Aesd_Calls
  imports Aesd_System
begin

text \<open>
  The file operations of \<^verbatim>\<open>aesd-char-driver/main.c\<close> step by step, for processes that call the driver
  at the same time.  A call is cut where another one can come between: before it takes the mutex,
  while it holds it, and after it has released it.  \<^verbatim>\<open>aesd_write\<close> allocates and fills its temporary
  block before it takes the mutex and frees what is left of it afterwards.  The file layer reads
  the position of a file before \<^verbatim>\<open>read\<close> and \<^verbatim>\<open>write\<close>, and stores it back after them; for a character
  device it takes no lock around that.
\<close>

section \<open>Turns\<close>

datatype request =
    Read_call "nat option" u64
  | Write_call "byte list option" u64
  | Llseek_call loff_t int
  | Ioctl_call u32 "aesd_seekto option"

text \<open>
  Where a call is: the position it was called with and the temporary block of a write (\<open>0\<close> for the
  other calls), and once its result is known, that.
\<close>

datatype stage =
    Entered loff_t
  | Queued loff_t addr
  | Locked loff_t addr
  | Freeing ssize_t addr loff_t
  | Committing ssize_t "byte list" loff_t
  | Returned ssize_t "byte list"

definition enter_turn :: "addr \<Rightarrow> request \<Rightarrow> loff_t \<Rightarrow> file_t \<Rightarrow> kst \<Rightarrow> (stage \<times> kst) option" where
  "enter_turn kmalloc_ret req pos filp st =
     (case req of
        Read_call buf count \<Rightarrow>
          if buf = None \<or> sint pos < 0 \<or> count = 0 then Some (Committing (- EINVAL) [] pos, st)
          else if private_data filp = NullDev then None
          else Some (Queued pos 0, st)
      | Write_call buf count \<Rightarrow>
          let st1 = st\<lparr>val := val st + 1\<rparr> in
          (case buf of
             None \<Rightarrow> Some (Committing (- EINVAL) [] pos, st1)
           | Some ubuf \<Rightarrow>
               if sint pos < 0 \<or> count = 0 then Some (Committing (- EINVAL) [] pos, st1)
               else if private_data filp = NullDev then Some (Committing (- EINVAL) [] pos, st1)
               else
                 let (tmp_buf, h1) = kmalloc (kheap st1) kmalloc_ret count in
                 if tmp_buf = 0 then Some (Committing (- ENOMEM) [] pos, st1\<lparr>kheap := h1\<rparr>)
                 else
                   (case copy_from_user ubuf (unat count) of
                      None \<Rightarrow> do {
                        h2 \<leftarrow> kfree h1 tmp_buf;
                        Some (Committing (- EFAULT) [] pos, st1\<lparr>kheap := h2\<rparr>)
                      }
                    | Some bs \<Rightarrow> do {
                        h2 \<leftarrow> mem_write h1 tmp_buf 0 bs;
                        Some (Queued pos tmp_buf, st1\<lparr>kheap := h2\<rparr>)
                      }))
      | Llseek_call offset whence \<Rightarrow>
          if private_data filp = NullDev then None else Some (Queued pos 0, st)
      | Ioctl_call cmd arg \<Rightarrow>
          if cmd \<noteq> AESDCHAR_IOCSEEKTO then Some (Returned (- ENOTTY) [], st)
          else if arg = None then Some (Returned (- EFAULT) [], st)
          else if private_data filp = NullDev then None
          else Some (Queued pos 0, st))"

text \<open>Reads and writes wait interruptibly, the two seeks do not.\<close>

fun interruptible :: "request \<Rightarrow> bool" where
  "interruptible (Read_call buf count) = True"
| "interruptible (Write_call buf count) = True"
| "interruptible _ = False"

definition wait_turn ::
  "bool \<Rightarrow> request \<Rightarrow> loff_t \<Rightarrow> addr \<Rightarrow> kst \<Rightarrow> (stage \<times> kst) outcome option" where
  "wait_turn intr req pos tmp_buf st =
     (if interruptible req \<and> intr then do {
        h \<leftarrow> kfree (kheap st) tmp_buf;
        Some (Done (Committing (- ERESTARTSYS) [] pos, st\<lparr>kheap := h\<rparr>))
      }
      else if buffer_lock (aesd_device st) then Some Blocked
      else do {
        st1 \<leftarrow> mutex_lock st;
        Some (Done (Locked pos tmp_buf, st1))
      })"

definition locked_turn ::
  "addr \<Rightarrow> request \<Rightarrow> loff_t \<Rightarrow> addr \<Rightarrow> file_t \<Rightarrow> kst \<Rightarrow> (stage \<times> file_t \<times> kst) option" where
  "locked_turn krealloc_ret req pos tmp_buf filp st =
     (case req of
        Read_call (Some cap) count \<Rightarrow> do {
          (r, out, pos', st') \<leftarrow> read_locked st cap count pos;
          Some (Committing r out pos', filp, st')
        }
      | Write_call buf count \<Rightarrow> do {
          (r, tmp_left, st1) \<leftarrow> write_locked st tmp_buf count krealloc_ret;
          st' \<leftarrow> mutex_unlock st1;
          Some (Freeing r tmp_left pos, filp, st')
        }
      | Llseek_call offset whence \<Rightarrow> do {
          (r, filp', st') \<leftarrow> llseek_locked st filp offset whence;
          Some (Returned r [], filp', st')
        }
      | Ioctl_call cmd (Some seekto) \<Rightarrow> do {
          (r, filp', st') \<leftarrow> ioctl_locked st filp seekto;
          Some (Returned r [], filp', st')
        }
      | _ \<Rightarrow> None)"

text \<open>
  One turn of a call, with what its environment decides: the addresses \<^verbatim>\<open>kmalloc\<close> and \<^verbatim>\<open>krealloc\<close>
  return and whether a signal is pending.
\<close>

definition call_turn ::
  "addr \<Rightarrow> addr \<Rightarrow> bool \<Rightarrow> request \<Rightarrow> stage \<Rightarrow> file_t \<Rightarrow> kst \<Rightarrow> (stage \<times> file_t \<times> kst) outcome option" where
  "call_turn kmalloc_ret krealloc_ret intr req sg filp st =
     (case sg of
        Entered pos \<Rightarrow> do {
          (sg', st') \<leftarrow> enter_turn kmalloc_ret req pos filp st;
          Some (Done (sg', filp, st'))
        }
      | Queued pos tmp_buf \<Rightarrow> do {
          res \<leftarrow> wait_turn intr req pos tmp_buf st;
          Some (case res of Blocked \<Rightarrow> Blocked | Done (sg', st') \<Rightarrow> Done (sg', filp, st'))
        }
      | Locked pos tmp_buf \<Rightarrow> map_option Done (locked_turn krealloc_ret req pos tmp_buf filp st)
      | Freeing r tmp_left pos \<Rightarrow> do {
          h \<leftarrow> kfree (kheap st) tmp_left;
          Some (Done (Committing r [] pos, filp, st\<lparr>kheap := h\<rparr>))
        }
      | Committing r out pos \<Rightarrow> Some (Done (Returned r out, commit_pos r pos filp, st))
      | Returned r out \<Rightarrow> Some (Done (Returned r out, filp, st)))"

section \<open>A call alone\<close>

fun call_turns ::
  "addr \<Rightarrow> addr \<Rightarrow> bool \<Rightarrow> request \<Rightarrow> nat \<Rightarrow> stage \<Rightarrow> file_t \<Rightarrow> kst \<Rightarrow> (stage \<times> file_t \<times> kst) outcome option" where
  "call_turns a c intr req 0 sg filp st = Some (Done (sg, filp, st))"
| "call_turns a c intr req (Suc n) sg filp st = do {
     res \<leftarrow> call_turn a c intr req sg filp st;
     (case res of
        Blocked \<Rightarrow> Some Blocked
      | Done (sg', filp', st') \<Rightarrow> call_turns a c intr req n sg' filp' st')
   }"

text \<open>The call as a whole, as the file layer makes it.\<close>

definition whole_call ::
  "addr \<Rightarrow> addr \<Rightarrow> bool \<Rightarrow> request \<Rightarrow> file_t \<Rightarrow> kst \<Rightarrow> (ssize_t \<times> byte list \<times> file_t \<times> kst) option" where
  "whole_call a c intr req filp st =
     (case req of
        Read_call buf count \<Rightarrow> do {
          (r, out, pos, st') \<leftarrow> aesd_read st (Some filp) buf count (Some (f_pos filp)) intr;
          Some (r, out, commit_pos r pos filp, st')
        }
      | Write_call buf count \<Rightarrow> do {
          (r, st') \<leftarrow> aesd_write st (Some filp) buf count (Some (f_pos filp)) a c intr;
          Some (r, [], commit_pos r (f_pos filp) filp, st')
        }
      | Llseek_call offset whence \<Rightarrow> do {
          (r, filp', st') \<leftarrow> aesd_llseek st filp offset whence;
          Some (r, [], filp', st')
        }
      | Ioctl_call cmd arg \<Rightarrow> do {
          (r, filp', st') \<leftarrow> aesd_unlocked_ioctl st filp cmd arg;
          Some (r, [], filp', st')
        })"

lemma call_turns_returned [simp]:
  "call_turns a c intr req n (Returned r out) filp st = Some (Done (Returned r out, filp, st))"
  by (induction n) (simp_all add: call_turn_def)

lemma call_turns_committing [simp]:
  "call_turns a c intr req (Suc n) (Committing r out pos) filp st =
     Some (Done (Returned r out, commit_pos r pos filp, st))"
  by (simp add: call_turn_def)

lemma call_turns_freeing:
  "call_turns a c intr req (Suc (Suc n)) (Freeing r tmp pos) filp st =
     do { h \<leftarrow> kfree (kheap st) tmp;
          Some (Done (Returned r [], commit_pos r pos filp, st\<lparr>kheap := h\<rparr>)) }"
  by (subst call_turns.simps(2)) (simp add: call_turn_def split: bind_split)

lemma call_turns_queued:
  assumes "\<not> buffer_lock (aesd_device st)"
  shows "call_turns a c intr req (Suc n) (Queued pos tmp) filp st =
    (if interruptible req \<and> intr
     then do { h \<leftarrow> kfree (kheap st) tmp;
               call_turns a c intr req n (Committing (- ERESTARTSYS) [] pos) filp (st\<lparr>kheap := h\<rparr>) }
     else do { st1 \<leftarrow> mutex_lock st; call_turns a c intr req n (Locked pos tmp) filp st1 })"
  using assms by (simp add: call_turn_def wait_turn_def split: bind_split)

lemma call_turns_locked:
  "call_turns a c intr req (Suc n) (Locked pos tmp) filp st =
     do { (sg', filp', st') \<leftarrow> locked_turn c req pos tmp filp st; call_turns a c intr req n sg' filp' st' }"
  by (simp add: call_turn_def split: bind_split option.split)

lemma call_turns_entered:
  "call_turns a c intr req (Suc n) (Entered pos) filp st =
     do { (sg', st') \<leftarrow> enter_turn a req pos filp st; call_turns a c intr req n sg' filp st' }"
  by (simp add: call_turn_def split: bind_split)

lemmas call_turns_simps = call_turns_entered call_turns_queued call_turns_locked call_turns_freeing
  call_turns_committing call_turns_returned

lemma five: "(5::nat) = Suc (Suc (Suc (Suc (Suc 0))))"
  by simp

abbreviation call_result ::
  "(ssize_t \<times> byte list \<times> file_t \<times> kst) option \<Rightarrow> (stage \<times> file_t \<times> kst) outcome option" where
  "call_result \<equiv> map_option (\<lambda>(r, out, filp', st'). Done (Returned r out, filp', st'))"

lemma read_turns:
  assumes "\<not> buffer_lock (aesd_device st)"
  shows "call_turns a c intr (Read_call buf n) 5 (Entered (f_pos f)) f st =
    call_result (whole_call a c intr (Read_call buf n) f st)"
  using assms
  by (cases buf)
    (auto simp: five call_turns_simps enter_turn_def locked_turn_def whole_call_def aesd_read_def
      mutex_lock_interruptible_def lock_free kfree_def simp del: call_turns.simps split: bind_split)

lemma llseek_turns:
  assumes "\<not> buffer_lock (aesd_device st)"
  shows "call_turns a c intr (Llseek_call off wh) 5 (Entered (f_pos f)) f st =
    call_result (whole_call a c intr (Llseek_call off wh) f st)"
  using assms
  by (auto simp: five call_turns_simps enter_turn_def locked_turn_def whole_call_def aesd_llseek_def
      simp del: call_turns.simps split: bind_split)

lemma ioctl_turns:
  assumes "\<not> buffer_lock (aesd_device st)"
  shows "call_turns a c intr (Ioctl_call cmd arg) 5 (Entered (f_pos f)) f st =
    call_result (whole_call a c intr (Ioctl_call cmd arg) f st)"
  using assms
  by (cases arg)
    (auto simp: five call_turns_simps enter_turn_def locked_turn_def whole_call_def
      aesd_unlocked_ioctl_def simp del: call_turns.simps split: bind_split)

lemma write_turns:
  assumes "\<not> buffer_lock (aesd_device st)"
  shows "call_turns a c intr (Write_call buf n) 5 (Entered (f_pos f)) f st =
    call_result (whole_call a c intr (Write_call buf n) f st)"
  using assms
  by (cases buf)
    (auto simp: five call_turns_simps enter_turn_def locked_turn_def whole_call_def aesd_write_def
      mutex_lock_interruptible_def lock_free Let_def simp del: call_turns.simps split: bind_split prod.split option.split)

section \<open>A call on its own\<close>

text \<open>
  A call of any of the four operations that takes its turns without another one between them
  does exactly what the whole function does, with the position the file layer hands it.
\<close>

lemma calls_compose:
  assumes "\<not> buffer_lock (aesd_device st)"
  shows "call_turns a c intr req 5 (Entered (f_pos f)) f st =
    map_option (\<lambda>(r, out, f', st'). Done (Returned r out, f', st')) (whole_call a c intr req f st)"
  using read_turns [OF assms] write_turns [OF assms] llseek_turns [OF assms] ioctl_turns [OF assms]
  by (cases req) simp_all

end
