(* ===== verification/Aesd_Call_Turns.thy ===== *)
theory Aesd_Call_Turns
  imports Aesd_Calls
begin

text \<open>
  What one turn of a call achieves while other calls are in progress: it is defined, it waits only
  for a mutex that is held, it keeps the device valid and leaves alone the blocks that belong to
  other calls, and when it decides the result of its call, that is the result of the specification
  on the contents of the device at that moment.
\<close>

section \<open>What a call owns\<close>

fun sg_temp :: "stage \<Rightarrow> addr set" where
  "sg_temp (Queued pos a) = {a} - {0}"
| "sg_temp (Locked pos a) = {a} - {0}"
| "sg_temp (Freeing r a pos) = {a} - {0}"
| "sg_temp _ = {}"

fun holding :: "stage \<Rightarrow> bool" where
  "holding (Locked pos a) = True"
| "holding _ = False"

text \<open>The arguments that got past the checks, and the block that holds the data of a write.\<close>

definition waiting_ok :: "heap \<Rightarrow> request \<Rightarrow> loff_t \<Rightarrow> addr \<Rightarrow> bool" where
  "waiting_ok h req pos a \<longleftrightarrow> 0 \<le> sint pos \<and>
     (case req of
        Read_call buf n \<Rightarrow> buf \<noteq> None \<and> n \<noteq> 0 \<and> a = 0
      | Write_call buf n \<Rightarrow> n \<noteq> 0 \<and> unat n \<le> kmalloc_max \<and> a \<noteq> 0 \<and>
          (case buf of None \<Rightarrow> False
           | Some ubuf \<Rightarrow> unat n \<le> length ubuf \<and> h a = Some (map Some (take (unat n) ubuf)))
      | Llseek_call off wh \<Rightarrow> a = 0
      | Ioctl_call cmd arg \<Rightarrow> cmd = AESDCHAR_IOCSEEKTO \<and> arg \<noteq> None \<and> a = 0)"

fun stage_ok :: "heap \<Rightarrow> request \<Rightarrow> stage \<Rightarrow> bool" where
  "stage_ok h req (Entered pos) = (0 \<le> sint pos)"
| "stage_ok h req (Queued pos a) = waiting_ok h req pos a"
| "stage_ok h req (Locked pos a) = waiting_ok h req pos a"
| "stage_ok h req (Freeing r a pos) = (0 \<le> sint pos \<and> (a \<noteq> 0 \<longrightarrow> h a \<noteq> None))"
| "stage_ok h req (Committing r out pos) = (0 \<le> sint r \<longrightarrow> 0 \<le> sint pos)"
| "stage_ok h req (Returned r out) = True"

text \<open>The contracts of the kernel's allocator in a turn.\<close>

definition call_env :: "addr \<Rightarrow> addr \<Rightarrow> request \<Rightarrow> stage \<Rightarrow> kst \<Rightarrow> bool" where
  "call_env a c req sg st \<longleftrightarrow>
     (case (req, sg) of
        (Write_call buf n, Entered pos) \<Rightarrow> kmalloc_contract (kheap st) a n
      | (Write_call buf n, Locked pos tmp) \<Rightarrow>
          krealloc_contract (kheap st) (partial_write (aesd_device st)) c (partial_size (aesd_device st) + n)
      | _ \<Rightarrow> True)"

section \<open>Decisions\<close>

text \<open>
  The result of a call is decided in one of its turns.  A decision records the thread, the call, the
  position it worked from, its result, the bytes a read delivered, and the position of the file
  after the turn.
\<close>

record decision =
  thread :: nat
  asked :: request
  from_pos :: loff_t
  result :: ssize_t
  delivered :: "byte list"
  to_pos :: loff_t

fun sg_result :: "stage \<Rightarrow> (ssize_t \<times> byte list) option" where
  "sg_result (Freeing r a pos) = Some (r, [])"
| "sg_result (Committing r out pos) = Some (r, out)"
| "sg_result (Returned r out) = Some (r, out)"
| "sg_result _ = None"

fun sg_pos :: "stage \<Rightarrow> loff_t" where
  "sg_pos (Entered pos) = pos"
| "sg_pos (Queued pos a) = pos"
| "sg_pos (Locked pos a) = pos"
| "sg_pos (Freeing r a pos) = pos"
| "sg_pos (Committing r out pos) = pos"
| "sg_pos (Returned r out) = 0"

definition decides :: "nat \<Rightarrow> request \<Rightarrow> stage \<Rightarrow> file_t \<Rightarrow> stage \<Rightarrow> file_t \<Rightarrow> decision list" where
  "decides t req sg f sg' f' =
     (case (sg_result sg, sg_result sg') of
        (None, Some (r, out)) \<Rightarrow>
          [\<lparr>thread = t, asked = req,
            from_pos = (case req of Read_call buf n \<Rightarrow> sg_pos sg | Write_call buf n \<Rightarrow> sg_pos sg | _ \<Rightarrow> f_pos f),
            result = r, delivered = out, to_pos = f_pos f'\<rparr>]
      | _ \<Rightarrow> [])"

text \<open>
  The specification of a call over the contents of the device: commands and unfinished bytes.  A
  call may fail for reasons the contents do not decide; then nothing changes.
\<close>

definition spec_read :: "byte list \<Rightarrow> nat option \<Rightarrow> u64 \<Rightarrow> loff_t \<Rightarrow> ssize_t \<Rightarrow> byte list \<Rightarrow> bool" where
  "spec_read bs buf n pos r out \<longleftrightarrow>
     (case buf of
        Some cap \<Rightarrow>
          let k = min (unat n) (length bs - unat pos) in
          if k \<le> cap then r = word_of_nat k \<and> out = take k (drop (unat pos) bs)
          else r = - EFAULT \<and> (\<exists>m \<le> cap. out = take m (drop (unat pos) bs))
      | None \<Rightarrow> False)"

definition spec_seekto :: "byte list list \<Rightarrow> aesd_seekto \<Rightarrow> nat option" where
  "spec_seekto cs s =
     (if unat (write_cmd s) < length cs \<and> unat (write_cmd_offset s) < length (cs ! unat (write_cmd s))
      then Some (length (concat (take (unat (write_cmd s)) cs)) + unat (write_cmd_offset s))
      else None)"

definition spec_call :: "decision \<Rightarrow> byte list list \<times> byte list \<Rightarrow> byte list list \<times> byte list \<Rightarrow> bool" where
  "spec_call d ct ct' \<longleftrightarrow>
     (case asked d of
        Read_call buf n \<Rightarrow> ct' = ct \<and>
          (delivered d = [] \<and> (result d = - EINVAL \<and> (buf = None \<or> n = 0) \<or> result d = - ERESTARTSYS) \<or>
           spec_read (concat (fst ct)) buf n (from_pos d) (result d) (delivered d))
      | Write_call buf n \<Rightarrow> delivered d = [] \<and>
          (ct' = ct \<and> (result d = - EINVAL \<and> (buf = None \<or> n = 0) \<or>
             result d = - EFAULT \<and> (\<exists>ubuf. buf = Some ubuf \<and> length ubuf < unat n) \<or>
             result d = - ENOMEM \<or> result d = - ERESTARTSYS) \<or>
           result d = n \<and> 0 < sint (result d) \<and>
           (\<exists>ubuf. buf = Some ubuf \<and> unat n \<le> length ubuf \<and> ct' = spec_write (take (unat n) ubuf) ct))
      | Llseek_call off wh \<Rightarrow> delivered d = [] \<and> ct' = ct \<and>
          (case seek_target \<lparr>f_pos = from_pos d, private_data = AesdDevice\<rparr> (length (concat (fst ct))) off wh of
             None \<Rightarrow> result d = - EINVAL \<and> to_pos d = from_pos d
           | Some p \<Rightarrow>
               if 0 \<le> p \<and> p \<le> int (length (concat (fst ct)))
               then sint (result d) = p \<and> to_pos d = result d
               else result d = - EINVAL \<and> to_pos d = from_pos d)
      | Ioctl_call cmd arg \<Rightarrow> delivered d = [] \<and> ct' = ct \<and>
          (if cmd \<noteq> AESDCHAR_IOCSEEKTO then result d = - ENOTTY \<and> to_pos d = from_pos d
           else case arg of
             None \<Rightarrow> result d = - EFAULT \<and> to_pos d = from_pos d
           | Some s \<Rightarrow>
               (case spec_seekto (fst ct) s of
                  Some p \<Rightarrow> result d = 0 \<and> to_pos d = word_of_nat p
                | None \<Rightarrow> result d = - EINVAL \<and> to_pos d = from_pos d)))"

fun spec_calls :: "decision list \<Rightarrow> byte list list \<times> byte list \<Rightarrow> byte list list \<times> byte list \<Rightarrow> bool" where
  "spec_calls [] ct ct' \<longleftrightarrow> ct' = ct"
| "spec_calls (d # ds) ct ct' \<longleftrightarrow> (\<exists>ct1. spec_call d ct ct1 \<and> spec_calls ds ct1 ct')"

declare spec_calls.simps(2) [simp del]

lemma spec_calls_one [simp]: "spec_calls [d] ct ct' \<longleftrightarrow> spec_call d ct ct'"
  by (cases ct') (simp add: spec_calls.simps(2))

lemma spec_calls_append:
  "spec_calls (ds @ es) ct ct' \<longleftrightarrow> (\<exists>ct1. spec_calls ds ct ct1 \<and> spec_calls es ct1 ct')"
  by (induction ds arbitrary: ct) (auto simp: spec_calls.simps(2))

text \<open>The data a decision stores, as far as it was a write that did not fail.\<close>

definition stored_by :: "decision \<Rightarrow> byte list list" where
  "stored_by d =
     (case asked d of
        Write_call (Some ubuf) n \<Rightarrow> if 0 < sint (result d) then [take (unat n) ubuf] else []
      | _ \<Rightarrow> [])"

section \<open>The device under a held mutex\<close>

definition unlocked :: "kst \<Rightarrow> kst" where
  "unlocked st = st\<lparr>aesd_device := (aesd_device st)\<lparr>buffer_lock := False\<rparr>\<rparr>"

lemma unlocked_sel [simp]:
  "kheap (unlocked st) = kheap st" "buffer (aesd_device (unlocked st)) = buffer (aesd_device st)"
  "buffer_lock (aesd_device (unlocked st)) = False"
  "partial_write (aesd_device (unlocked st)) = partial_write (aesd_device st)"
  "partial_size (aesd_device (unlocked st)) = partial_size (aesd_device st)"
  "owned (aesd_device (unlocked st)) = owned (aesd_device st)"
  "commands (unlocked st) = commands st" "pending (unlocked st) = pending st"
  "abs_dev (unlocked st) = abs_dev st" "stray (unlocked st) = stray st" "stored (unlocked st) = stored st"
  by (simp_all add: unlocked_def abs_dev_def commands_def pending_def stray_def stored_def)

lemma unlocked_free [simp]: "\<not> buffer_lock (aesd_device st) \<Longrightarrow> unlocked st = st"
  by (cases st, cases "aesd_device st") (simp add: unlocked_def)

lemma dev_inv_unlocked: "dev_inv st \<Longrightarrow> unlocked st = st"
  by (rule unlocked_free [OF dev_invD(2)])

text \<open>Blocks the device does not own, and the debug counter, are irrelevant to it.\<close>

lemma ring_ptrs_owned: "e \<in> set (contents (buffer d)) \<Longrightarrow> buffptr e \<in> set (owned d)"
  by (simp add: owned_def)

lemma partial_owned: "partial_write d \<noteq> 0 \<Longrightarrow> partial_write d \<in> set (owned d)"
  by (simp add: owned_def)

lemma dev_inv_heap:
  assumes "dev_inv st" "aesd_device st' = aesd_device st"
    and "\<And>b. b \<in> set (owned (aesd_device st)) \<Longrightarrow> kheap st' b = kheap st b"
  shows "dev_inv st'" "abs_dev st' = abs_dev st"
proof -
  let ?d = "aesd_device st"
  have blk: "init_block (kheap st') b n = init_block (kheap st) b n" "bytes_at (kheap st') b = bytes_at (kheap st) b"
    if "b \<in> set (owned ?d)" for b n
    using assms(3) [OF that] by (simp_all add: init_block_def bytes_at_def)
  show "dev_inv st'"
    using assms(1,2) blk(1) [OF ring_ptrs_owned] blk(1) [OF partial_owned]
    unfolding dev_inv_def entry_ok_def partial_ok_def by simp
  show "abs_dev st' = abs_dev st"
    using assms(2) blk(2) [OF ring_ptrs_owned] blk(2) [OF partial_owned]
    by (simp add: abs_dev_def commands_def pending_def)
qed

lemma unlocked_heap:
  assumes "dev_inv (unlocked st)" "aesd_device st' = aesd_device st"
    and "\<forall>b \<in> set (owned (aesd_device st)). kheap st' b = kheap st b"
  shows "dev_inv (unlocked st')" "abs_dev st' = abs_dev st"
proof -
  have "aesd_device (unlocked st') = aesd_device (unlocked st)" using assms(2) by (simp add: unlocked_def)
  from dev_inv_heap [OF assms(1) this] show "dev_inv (unlocked st')" "abs_dev st' = abs_dev st"
    using assms(3) by simp_all
qed

section \<open>One turn\<close>

text \<open>
  All that a turn achieves.  The last part says which blocks nobody knows any more afterwards: one
  more when a full ring has dropped its oldest command, otherwise the same.
\<close>

definition turn_lost :: "kst \<Rightarrow> addr set \<Rightarrow> byte list list \<Rightarrow> addr set \<Rightarrow> bool" where
  "turn_lost st L ws L' \<longleftrightarrow>
     (if lines ws = 1 \<and> length (commands st) = MAX_OPS then \<exists>a. a \<notin> stray st \<and> L' = insert a L
      else lines ws \<le> 1 \<and> L' = L)"

definition call_good ::
  "nat \<Rightarrow> request \<Rightarrow> stage \<Rightarrow> file_t \<Rightarrow> kst \<Rightarrow> stage \<times> file_t \<times> kst \<Rightarrow> bool" where
  "call_good t req sg f st = (\<lambda>(sg', f', st').
     dev_inv (unlocked st') \<and> file_ok f' \<and> stage_ok (kheap st') req sg' \<and>
     sg_temp sg' \<inter> set (owned (aesd_device st')) = {} \<and>
     (\<forall>b \<in> sg_temp sg'. b \<in> sg_temp sg \<or> kheap st b = None) \<and>
     (\<forall>b. kheap st b \<noteq> None \<longrightarrow> b \<notin> set (owned (aesd_device st)) \<longrightarrow> b \<notin> sg_temp sg \<longrightarrow> b \<noteq> 0 \<longrightarrow>
        kheap st' b = kheap st b \<and> b \<notin> set (owned (aesd_device st'))) \<and>
     (buffer_lock (aesd_device st') \<longleftrightarrow> holding sg' \<or> buffer_lock (aesd_device st) \<and> \<not> holding sg) \<and>
     (holding sg' \<longrightarrow> holding sg \<or> \<not> buffer_lock (aesd_device st)) \<and>
     spec_calls (decides t req sg f sg' f') (abs_dev st) (abs_dev st') \<and>
     turn_lost st (stray st - sg_temp sg) (concat (map stored_by (decides t req sg f sg' f')))
       (stray st' - sg_temp sg'))"

lemma call_goodD:
  assumes "call_good t req sg f st (sg', f', st')"
  shows "dev_inv (unlocked st')" "file_ok f'" "stage_ok (kheap st') req sg'"
    "sg_temp sg' \<inter> set (owned (aesd_device st')) = {}"
    "b \<in> sg_temp sg' \<Longrightarrow> b \<in> sg_temp sg \<or> kheap st b = None"
    "kheap st b \<noteq> None \<Longrightarrow> b \<notin> set (owned (aesd_device st)) \<Longrightarrow> b \<notin> sg_temp sg \<Longrightarrow> b \<noteq> 0 \<Longrightarrow>
       kheap st' b = kheap st b \<and> b \<notin> set (owned (aesd_device st'))"
    "buffer_lock (aesd_device st') \<longleftrightarrow> holding sg' \<or> buffer_lock (aesd_device st) \<and> \<not> holding sg"
    "holding sg' \<Longrightarrow> holding sg \<or> \<not> buffer_lock (aesd_device st)"
    "spec_calls (decides t req sg f sg' f') (abs_dev st) (abs_dev st')"
    "turn_lost st (stray st - sg_temp sg) (concat (map stored_by (decides t req sg f sg' f'))) (stray st' - sg_temp sg')"
  using assms unfolding call_good_def by auto

lemma decides_decided [simp]: "sg_result sg \<noteq> None \<Longrightarrow> decides t req sg f sg' f' = []"
  by (auto simp: decides_def split: option.splits)

lemma decides_undecided [simp]: "sg_result sg' = None \<Longrightarrow> decides t req sg f sg' f' = []"
  by (auto simp: decides_def split: option.splits)

lemma turn_lost_none [simp]: "lines ws = 0 \<Longrightarrow> turn_lost st L ws L' \<longleftrightarrow> L' = L"
  by (auto simp: turn_lost_def)

lemma stored_by_failed: "sint (result d) \<le> 0 \<Longrightarrow> stored_by d = []"
  by (auto simp: stored_by_def split: request.splits option.splits)

text \<open>A turn that leaves the kernel state alone up to the debug counter and the mutex.\<close>

lemma call_good_same:
  assumes "dev_inv (unlocked st)" "file_ok f'" "stage_ok (kheap st) req sg'" "kheap st' = kheap st"
    and "unlocked st' = (unlocked st)\<lparr>val := v\<rparr>" "sg_temp sg' = sg_temp sg" "sg_temp sg \<inter> set (owned (aesd_device st)) = {}"
    and "buffer_lock (aesd_device st') \<longleftrightarrow> holding sg' \<or> buffer_lock (aesd_device st) \<and> \<not> holding sg"
    and "holding sg' \<longrightarrow> holding sg \<or> \<not> buffer_lock (aesd_device st)"
    and "spec_calls (decides t req sg f sg' f') (abs_dev st) (abs_dev st)"
    and "concat (map stored_by (decides t req sg f sg' f')) = []"
  shows "call_good t req sg f st (sg', f', st')"
proof -
  have d: "aesd_device (unlocked st') = aesd_device (unlocked st)" "kheap (unlocked st') = kheap (unlocked st)"
    using assms(5) by simp_all
  have own: "owned (aesd_device st') = owned (aesd_device st)" using arg_cong [OF d(1), of owned] by simp
  then have o: "owned (aesd_device st') = owned (aesd_device st)" "stray st' = stray st"
    "dev_inv (unlocked st')" "abs_dev st' = abs_dev st"
    using dev_inv_heap [OF assms(1) d(1)] d(2) assms(4) by (simp_all add: stray_def)
  show ?thesis
    unfolding call_good_def using assms o by auto
qed

lemma relock: "buffer_lock (aesd_device st) \<Longrightarrow> mutex_lock (unlocked st) = Some st"
  by (cases st, cases "aesd_device st") (simp add: mutex_lock_def unlocked_def)

text \<open>The four critical sections, as the whole functions on the device before it was locked.\<close>

lemma locked_sections:
  assumes "buffer_lock (aesd_device st)" "private_data f = AesdDevice"
  shows "0 \<le> sint pos \<Longrightarrow> n \<noteq> 0 \<Longrightarrow>
      read_locked st cap n pos = aesd_read (unlocked st) (Some f) (Some cap) n (Some pos) False"
    and "llseek_locked st f off wh = aesd_llseek (unlocked st) f off wh"
    and "ioctl_locked st f s = aesd_unlocked_ioctl (unlocked st) f AESDCHAR_IOCSEEKTO (Some s)"
  using assms(2) relock [OF assms(1)]
  by (simp_all add: aesd_read_def aesd_llseek_def aesd_unlocked_ioctl_def mutex_lock_interruptible_def)

lemma abs_stored: "fst (abs_dev st) = commands st" "concat (commands st) = stored st"
  by (simp_all add: abs_dev_def stored_def)

lemma decides_one:
  "sg_result sg = None \<Longrightarrow> sg_result sg' = Some (r, out) \<Longrightarrow>
   decides t req sg f sg' f' = [\<lparr>thread = t, asked = req,
     from_pos = (case req of Read_call buf n \<Rightarrow> sg_pos sg | Write_call buf n \<Rightarrow> sg_pos sg | _ \<Rightarrow> f_pos f),
     result = r, delivered = out, to_pos = f_pos f'\<rparr>]"
  by (simp add: decides_def)

text \<open>A critical section that only reads, and leaves the mutex free.\<close>

lemma section_good:
  assumes "dev_inv (unlocked st)" "file_ok f'" "stage_ok (kheap st) req sg'" "sg_temp sg' = {}" "\<not> holding sg'"
    and "spec_calls (decides t req (Locked pos 0) f sg' f') (abs_dev st) (abs_dev st)"
    and "concat (map stored_by (decides t req (Locked pos 0) f sg' f')) = []"
  shows "call_good t req (Locked pos 0) f st (sg', f', unlocked st)"
  by (rule call_good_same [where v = "val st"]) (use assms in \<open>simp_all add: unlocked_def\<close>)

lemma read_section:
  assumes inv: "dev_inv (unlocked st)" and f: "file_ok f" and lock: "buffer_lock (aesd_device st)"
    and w: "waiting_ok (kheap st) (Read_call buf n) pos a"
  shows "\<exists>res. locked_turn c (Read_call buf n) pos a f st = Some res \<and>
    call_good t (Read_call buf n) (Locked pos a) f st res"
proof -
  obtain cap where a: "buf = Some cap" "0 \<le> sint pos" "n \<noteq> 0" "a = 0"
    using w by (auto simp: waiting_ok_def)
  have dev: "private_data f = AesdDevice" using f by (simp add: file_ok_def)
  define k where "k = min (unat n) (length (stored st) - unat pos)"
  obtain m where m: "m \<le> k" "if k \<le> cap then m = k else m \<le> cap"
    "aesd_read (unlocked st) (Some f) (Some cap) n (Some pos) False =
      Some (if cap < k then - EFAULT else word_of_nat k, take m (drop (unat pos) (stored st)),
        pos + word_of_nat m, unlocked st)"
    using aesd_read_run [OF inv dev a(2,3), of cap] unfolding unlocked_sel k_def by metis
  define r :: ssize_t where "r = (if cap < k then - EFAULT else word_of_nat k)"
  have "file_ok (f\<lparr>f_pos := pos\<rparr>)" using f a(2) by (simp add: file_ok_def)
  from read_step [OF inv this, of "Some cap" n False r] have
    "file_ok (commit_pos r (pos + word_of_nat m) (f\<lparr>f_pos := pos\<rparr>))"
    using m(3) a(2,3) dev by (simp add: aesd_read_def r_def)
  then have "0 \<le> sint r \<longrightarrow> 0 \<le> sint (pos + word_of_nat m)"
    by (auto simp: commit_pos_def file_ok_def)
  moreover have "spec_read (stored st) buf n pos r (take m (drop (unat pos) (stored st)))"
    using m(1,2) by (auto simp: spec_read_def a(1) r_def k_def Let_def)
  ultimately have "call_good t (Read_call buf n) (Locked pos 0) f st
      (Committing r (take m (drop (unat pos) (stored st))) (pos + word_of_nat m), f, unlocked st)"
    by (intro section_good) (use inv f in \<open>simp_all add: decides_one spec_call_def stored_by_def abs_stored\<close>)
  moreover have "locked_turn c (Read_call buf n) pos a f st =
      Some (Committing r (take m (drop (unat pos) (stored st))) (pos + word_of_nat m), f, unlocked st)"
    using m(3) a locked_sections(1) [OF lock dev] by (simp add: locked_turn_def r_def)
  ultimately show ?thesis using a(4) by blast
qed

lemma llseek_section:
  assumes inv: "dev_inv (unlocked st)" and f: "file_ok f" and lock: "buffer_lock (aesd_device st)"
    and w: "waiting_ok (kheap st) (Llseek_call off wh) pos a"
  shows "\<exists>res. locked_turn c (Llseek_call off wh) pos a f st = Some res \<and>
    call_good t (Llseek_call off wh) (Locked pos a) f st res"
proof -
  have dev: "private_data f = AesdDevice" "0 \<le> sint (f_pos f)" and a: "a = 0"
    using f w by (simp_all add: file_ok_def waiting_ok_def)
  have fp: "f = \<lparr>f_pos = f_pos f, private_data = AesdDevice\<rparr>" using dev by (cases f) simp
  obtain r f' where r: "aesd_llseek (unlocked st) f off wh = Some (r, f', unlocked st)"
    "case seek_target f (length (stored st)) off wh of
       None \<Rightarrow> r = - EINVAL \<and> f' = f
     | Some p \<Rightarrow> if 0 \<le> p \<and> p \<le> int (length (stored st)) then sint r = p \<and> f' = f\<lparr>f_pos := r\<rparr>
                else r = - EINVAL \<and> f' = f"
    using aesd_llseek_run [OF inv dev, of off wh, unfolded unlocked_sel] by blast
  have "file_ok f'" using llseek_step [OF inv f r(1)] by simp
  moreover have "spec_calls (decides t (Llseek_call off wh) (Locked pos 0) f (Returned r []) f') (abs_dev st) (abs_dev st)"
    using r(2) fp [symmetric] by (auto simp: decides_one spec_call_def abs_stored split: option.splits if_splits)
  ultimately have "call_good t (Llseek_call off wh) (Locked pos 0) f st (Returned r [], f', unlocked st)"
    by (intro section_good) (use inv in \<open>simp_all add: decides_one stored_by_def\<close>)
  moreover have "locked_turn c (Llseek_call off wh) pos a f st = Some (Returned r [], f', unlocked st)"
    using r(1) locked_sections(2) [OF lock dev(1)] by (simp add: locked_turn_def)
  ultimately show ?thesis using a by blast
qed

lemma ioctl_section:
  assumes inv: "dev_inv (unlocked st)" and f: "file_ok f" and lock: "buffer_lock (aesd_device st)"
    and w: "waiting_ok (kheap st) (Ioctl_call cmd arg) pos a"
  shows "\<exists>res. locked_turn c (Ioctl_call cmd arg) pos a f st = Some res \<and>
    call_good t (Ioctl_call cmd arg) (Locked pos a) f st res"
proof -
  obtain s where a: "a = 0" "cmd = AESDCHAR_IOCSEEKTO" "arg = Some s"
    using w by (auto simp: waiting_ok_def)
  have dev: "private_data f = AesdDevice" using f by (simp add: file_ok_def)
  define r :: ssize_t where "r = (if seek_valid st s then 0 else - EINVAL)"
  define f' where "f' = (if seek_valid st s then f\<lparr>f_pos := word_of_nat (seek_offset st s)\<rparr> else f)"
  have io: "aesd_unlocked_ioctl (unlocked st) f AESDCHAR_IOCSEEKTO (Some s) = Some (r, f', unlocked st)"
    using aesd_ioctl_run [OF inv dev, of s] by (simp add: r_def f'_def seek_valid_def seek_offset_def)
  have "file_ok f'" using ioctl_step [OF inv f io] by simp
  moreover have "spec_calls (decides t (Ioctl_call cmd arg) (Locked pos 0) f (Returned r []) f') (abs_dev st) (abs_dev st)"
    by (simp add: decides_one spec_call_def a abs_stored spec_seekto_def r_def f'_def seek_valid_def seek_offset_def)
  ultimately have "call_good t (Ioctl_call cmd arg) (Locked pos 0) f st (Returned r [], f', unlocked st)"
    by (intro section_good) (use inv in \<open>simp_all add: decides_one stored_by_def\<close>)
  moreover have "locked_turn c (Ioctl_call cmd arg) pos a f st = Some (Returned r [], f', unlocked st)"
    using io locked_sections(3) [OF lock dev] by (simp add: locked_turn_def a)
  ultimately show ?thesis using a(1) by blast
qed

text \<open>
  The critical section of a write: it runs as in \<^verbatim>\<open>aesd_write\<close> called on the device without the
  temporary block, whose other steps have been or will be separate turns.
\<close>

definition before_write :: "kst \<Rightarrow> addr \<Rightarrow> kst" where
  "before_write st a = (unlocked st)\<lparr>kheap := (kheap st)(a := None), val := val st - 1\<rparr>"

lemma before_write_sel [simp]:
  "kheap (before_write st a) = (kheap st)(a := None)"
  "aesd_device (before_write st a) = aesd_device (unlocked st)"
  by (simp_all add: before_write_def)

lemma before_write_inv:
  assumes "dev_inv (unlocked st)" "a \<notin> set (owned (aesd_device st))"
  shows "dev_inv (before_write st a)" "abs_dev (before_write st a) = abs_dev st"
    "stray (before_write st a) = stray st - {a}"
proof -
  show "dev_inv (before_write st a)" "abs_dev (before_write st a) = abs_dev st"
    using dev_inv_heap [OF assms(1), of "before_write st a"] assms(2) by force+
  show "stray (before_write st a) = stray st - {a}" by (auto simp: stray_def split: if_splits)
qed

lemma locked_before_write:
  assumes "buffer_lock (aesd_device st)" "kheap st a = Some (map Some data)"
  shows "locked_with (before_write st a) a data = st"
  using assms
  by (cases st, cases "aesd_device st") (auto simp: locked_with_def before_write_def unlocked_def fun_upd_idem)

lemma write_section_runs:
  assumes inv: "dev_inv (unlocked st)" and f: "file_ok f" and lock: "buffer_lock (aesd_device st)"
    and w: "waiting_ok (kheap st) (Write_call (Some ubuf) n) pos a" and a: "a \<notin> set (owned (aesd_device st))"
    and env: "krealloc_contract (kheap st) (partial_write (aesd_device st)) c (partial_size (aesd_device st) + n)"
  obtains r left st2 st' h where "write_locked st a n c = Some (r, left, st2)" "mutex_unlock st2 = Some st'"
    "kfree (kheap st') left = Some h" "partial_size (aesd_device st) + n \<noteq> 0"
    "r = n \<and> write_effect (before_write st a) (take (unat n) ubuf) (st'\<lparr>kheap := h\<rparr>) \<or>
     r = - ENOMEM \<and> unchanged_write (before_write st a) (st'\<lparr>kheap := h\<rparr>)"
proof -
  let ?b = "before_write st a"
  have ub: "unat n \<le> length ubuf" "kheap st a = Some (map Some (take (unat n) ubuf))" "n \<noteq> 0" "a \<noteq> 0"
    "unat n \<le> kmalloc_max" "0 \<le> sint pos"
    using w by (auto simp: waiting_ok_def)
  have dev: "private_data f = AesdDevice" using f by (simp add: file_ok_def)
  have p: "partial_write (aesd_device st) \<noteq> a" using a ub(4) by (auto simp: owned_def)
  note binv = before_write_inv [OF inv a]
  have al: "write_alloc_contract ?b n a c"
    using env ub(2,5) p by (auto simp: write_alloc_contract_def kmalloc_contract_def krealloc_contract_def)
  have "\<exists>r st''. aesd_write ?b (Some f) (Some ubuf) n (Some pos) a c False = Some (r, st'') \<and>
      (r = n \<and> write_effect ?b (take (unat n) ubuf) st'' \<or> r = - ENOMEM \<and> unchanged_write ?b st'')"
  proof (cases "pending ?b \<noteq> [] \<and> c = 0")
    case True
    then show ?thesis
      using aesd_write_no_memory [OF binv(1) dev ub(6,3,1), of a] al ub(4) by blast
  next
    case False
    then show ?thesis
      using aesd_write_success [OF binv(1) dev ub(6,3,1) al ub(4)] by blast
  qed
  then obtain r st'' where res: "do { x \<leftarrow> write_locked st a n c; unlocked_free x } = Some (r, st'')"
    "r = n \<and> write_effect ?b (take (unat n) ubuf) st'' \<or> r = - ENOMEM \<and> unchanged_write ?b st''"
    using aesd_write_valid [OF binv(1) dev ub(6,3,1,4), of c] locked_before_write [OF lock ub(2)] by auto
  then obtain left st2 st' h where "write_locked st a n c = Some (r, left, st2)" "mutex_unlock st2 = Some st'"
    "kfree (kheap st') left = Some h" "st'' = st'\<lparr>kheap := h\<rparr>"
    by (auto simp: unlocked_free_def split: bind_splits prod.splits)
  with res(2) show ?thesis
    using that write_sizes(2) [OF binv(1) al ub(4,3)] by simp
qed

text \<open>The device after the section, and after its temporary block has gone, are the same device.\<close>

lemma after_section:
  assumes "dev_inv (st'\<lparr>kheap := h\<rparr>)" "kfree (kheap st') left = Some h"
  shows "dev_inv st'" "abs_dev st' = abs_dev (st'\<lparr>kheap := h\<rparr>)" "left \<noteq> 0 \<longrightarrow> kheap st' left \<noteq> None"
    "left \<noteq> 0 \<longrightarrow> left \<notin> set (owned (aesd_device st'))"
    "stray st' - ({left} - {0}) = stray (st'\<lparr>kheap := h\<rparr>)"
proof -
  have h: "if left = 0 then h = kheap st' else kheap st' left \<noteq> None \<and> h = (kheap st')(left := None)"
    using assms(2) by (auto simp: kfree_def split: if_splits option.splits)
  then show "left \<noteq> 0 \<longrightarrow> kheap st' left \<noteq> None" by auto
  show own: "left \<noteq> 0 \<longrightarrow> left \<notin> set (owned (aesd_device st'))"
    using owned_allocated(2) [OF assms(1), of left] h by auto
  have "kheap st' b = h b" if "b \<in> set (owned (aesd_device st'))" for b
    using h own that by (auto split: if_splits)
  then show "dev_inv st'" "abs_dev st' = abs_dev (st'\<lparr>kheap := h\<rparr>)"
    using dev_inv_heap [OF assms(1), of st'] by simp_all
  show "stray st' - ({left} - {0}) = stray (st'\<lparr>kheap := h\<rparr>)"
    using h by (auto simp: stray_def split: if_splits)
qed

lemma write_effect_lost:
  assumes "dev_inv st" "write_effect (before_write st0 a) w st" "dev_inv (unlocked st0)" "a \<notin> set (owned (aesd_device st0))"
  shows "turn_lost st0 (stray st0 - {a}) [w] (stray st)"
proof -
  have ring: "ring_ptrs (buffer (aesd_device st0)) \<inter> stray st0 = {}" by (auto simp: stray_def set_owned)
  have s: "stray st = (stray st0 - {a}) \<union> (if newline \<in> set w then evicted (buffer (aesd_device st0)) else {})"
    using assms(2) before_write_inv(3) [OF assms(3,4)] by (simp add: write_effect_def)
  show ?thesis
  proof (cases "newline \<in> set w \<and> length (commands st0) = MAX_OPS")
    case True
    then have "evicted (buffer (aesd_device st0)) = {buffptr (hd (contents (buffer (aesd_device st0))))}"
      by (simp add: evicted_def commands_def)
    moreover from this have "buffptr (hd (contents (buffer (aesd_device st0)))) \<notin> stray st0"
      using evicted_subset [of "buffer (aesd_device st0)"] ring by blast
    ultimately show ?thesis using True s by (auto simp: turn_lost_def)
  next
    case False
    then show ?thesis using s by (auto simp: turn_lost_def evicted_def commands_def)
  qed
qed

text \<open>The decision of a write is what the specification allows.\<close>

lemma write_section_spec:
  fixes ubuf n st' h
  defines "w \<equiv> take (unat n) ubuf" and "st'' \<equiv> st'\<lparr>kheap := h\<rparr>"
  assumes inv: "dev_inv (unlocked st)" and a: "a \<notin> set (owned (aesd_device st))"
    and n: "n \<noteq> 0" "unat n \<le> kmalloc_max" "unat n \<le> length ubuf"
    and inv'': "dev_inv st''" and abs: "abs_dev st' = abs_dev st''"
    and eff: "r = n \<and> write_effect (before_write st a) w st'' \<or> r = - ENOMEM \<and> unchanged_write (before_write st a) st''"
    and d: "asked d = Write_call (Some ubuf) n" "result d = r" "delivered d = []"
  shows "spec_call d (abs_dev st) (abs_dev st') \<and> turn_lost st (stray st - {a}) (stored_by d) (stray st'')"
  using eff
proof (elim disjE conjE)
  assume r: "r = n" and e: "write_effect (before_write st a) w st''"
  have "0 < unat n" "unat n < 2 ^ 63" using n(1,2) by (simp_all add: kmalloc_max_def unat_gt_0)
  then have "0 < sint r" using sint_eq_unat [of n] by (simp only: r of_nat_0_less_iff)
  moreover have "abs_dev st' = spec_write w (abs_dev st)"
    using e abs before_write_inv(2) [OF inv a] by (simp add: write_effect_def)
  moreover have "turn_lost st (stray st - {a}) [w] (stray st'')"
    by (rule write_effect_lost [OF inv'' e inv a])
  ultimately show ?thesis using n(3) r d by (simp add: spec_call_def stored_by_def w_def)
next
  assume "r = - ENOMEM" "unchanged_write (before_write st a) st''"
  then show ?thesis
    using abs before_write_inv [OF inv a] unchanged_write_keeps [of "before_write st a"] d
    by (simp add: spec_call_def stored_by_def)
qed

lemma write_section:
  assumes inv: "dev_inv (unlocked st)" and f: "file_ok f" and lock: "buffer_lock (aesd_device st)"
    and w: "waiting_ok (kheap st) (Write_call buf n) pos a" and a: "a \<notin> set (owned (aesd_device st))"
    and env: "krealloc_contract (kheap st) (partial_write (aesd_device st)) c (partial_size (aesd_device st) + n)"
  shows "\<exists>res. locked_turn c (Write_call buf n) pos a f st = Some res \<and>
    call_good t (Write_call buf n) (Locked pos a) f st res"
proof -
  obtain ubuf where buf: "buf = Some ubuf" using w by (auto simp: waiting_ok_def split: option.splits)
  have ub: "unat n \<le> length ubuf" "a \<noteq> 0" "0 \<le> sint pos" "unat n \<le> kmalloc_max" "n \<noteq> 0"
    using w by (auto simp: waiting_ok_def buf)
  let ?b = "before_write st a" and ?w = "take (unat n) ubuf"
  obtain r left st2 st' h where run: "write_locked st a n c = Some (r, left, st2)" "mutex_unlock st2 = Some st'"
    "kfree (kheap st') left = Some h" "partial_size (aesd_device st) + n \<noteq> 0"
    and eff: "r = n \<and> write_effect ?b ?w (st'\<lparr>kheap := h\<rparr>) \<or>
      r = - ENOMEM \<and> unchanged_write ?b (st'\<lparr>kheap := h\<rparr>)"
    by (rule write_section_runs [OF inv f lock w [unfolded buf] a env])
  have inv'': "dev_inv (st'\<lparr>kheap := h\<rparr>)" and lost: "stray ?b \<subseteq> stray (st'\<lparr>kheap := h\<rparr>)"
    using eff before_write_inv(1) [OF inv a] unchanged_write_keeps [of ?b]
    by (auto simp: write_effect_def)
  note after = after_section [OF inv'' run(3)]
  have st2: "kheap st' = kheap st2" using run(2) by (auto simp: mutex_unlock_def split: if_splits)
  have frame: "kheap st' b = kheap st b \<and> b \<notin> set (owned (aesd_device st'))"
    if b: "kheap st b \<noteq> None" "b \<notin> set (owned (aesd_device st))" "b \<noteq> a" "b \<noteq> 0" for b
  proof -
    have "b \<noteq> partial_write (aesd_device st)" using b(2,4) by (auto simp: owned_def)
    moreover have "b \<noteq> c" using env b calculation by (auto simp: krealloc_contract_def)
    moreover have "b \<in> stray (st'\<lparr>kheap := h\<rparr>)"
      using lost b by (auto simp: stray_def)
    ultimately show ?thesis
      using write_locked_frame [OF run(1,4) b(3)] st2 by (auto simp: stray_def)
  qed
  let ?d = "\<lparr>thread = t, asked = Write_call buf n, from_pos = pos, result = r, delivered = [], to_pos = f_pos f\<rparr>"
  have spec: "spec_call ?d (abs_dev st) (abs_dev st') \<and>
      turn_lost st (stray st - {a}) (stored_by ?d) (stray (st'\<lparr>kheap := h\<rparr>))"
    by (rule write_section_spec [OF inv a ub(5,4,1) inv'' after(2) eff]) (simp_all add: buf)
  have "call_good t (Write_call buf n) (Locked pos a) f st (Freeing r left pos, f, st')"
    unfolding call_good_def
    using after(1,3,4) dev_inv_unlocked [OF after(1)] dev_invD(2) [OF after(1)] f ub(2,3) write_locked_left [OF run(1)]
      frame spec after(5) by (auto simp: decides_one)
  moreover have "locked_turn c (Write_call buf n) pos a f st = Some (Freeing r left pos, f, st')"
    using run(1,2) by (simp add: locked_turn_def)
  ultimately show ?thesis by blast
qed

text \<open>The turns outside the mutex.\<close>

lemma enter_write:
  assumes inv: "dev_inv (unlocked st)" and f: "file_ok f" and pos: "0 \<le> sint pos" and env: "kmalloc_contract (kheap st) a n"
  shows "\<exists>sg' st'. enter_turn a (Write_call buf n) pos f st = Some (sg', st') \<and>
    call_good t (Write_call buf n) (Entered pos) f st (sg', f, st')"
proof -
  let ?st1 = "st\<lparr>val := val st + 1\<rparr>"
  have dev: "private_data f = AesdDevice" using f by (simp add: file_ok_def)
  have fail: "call_good t (Write_call buf n) (Entered pos) f st (Committing r [] pos, f, ?st1)"
    if "r = - EINVAL \<and> (buf = None \<or> n = 0) \<or> r = - EFAULT \<and> (\<exists>ubuf. buf = Some ubuf \<and> length ubuf < unat n) \<or> r = - ENOMEM" for r
    by (rule call_good_same [where v = "val st + 1"])
      (use that inv f pos in \<open>auto simp: unlocked_def decides_one spec_call_def stored_by_failed\<close>)
  show ?thesis
  proof (cases "buf = None \<or> n = 0 \<or> a = 0")
    case True
    then show ?thesis
      using fail pos dev by (cases buf) (auto simp: enter_turn_def Let_def)
  next
    case False
    then obtain ubuf where buf: "buf = Some ubuf" and a: "a \<noteq> 0" "kheap st a = None" "n \<noteq> 0" "unat n \<le> kmalloc_max"
      using env by (auto simp: kmalloc_contract_def)
    have h: "(kheap st)(a := None) = kheap st" using a(2) by (auto simp: fun_eq_iff)
    show ?thesis
    proof (cases "length ubuf < unat n")
      case True
      then show ?thesis
        using fail [of "- EFAULT"] a h pos dev
        by (simp add: enter_turn_def buf Let_def kmalloc_def copy_from_user_def kfree_def)
    next
      case ok: False
      let ?w = "take (unat n) ubuf"
      let ?st' = "st\<lparr>val := val st + 1, kheap := (kheap st)(a \<mapsto> map Some ?w)\<rparr>"
      have new: "a \<notin> set (owned (aesd_device st))" using owned_allocated(2) [OF inv, of a] a(2) by auto
      have keep: "dev_inv (unlocked ?st')" "abs_dev ?st' = abs_dev st"
        by (rule unlocked_heap [OF inv]; use new in auto)+
      have "call_good t (Write_call buf n) (Entered pos) f st (Queued pos a, f, ?st')"
        using keep f new a ok pos by (auto simp: call_good_def waiting_ok_def buf stray_def)
      moreover have "enter_turn a (Write_call buf n) pos f st = Some (Queued pos a, ?st')"
        using ok a pos dev by (simp add: enter_turn_def buf Let_def kmalloc_def copy_from_user_def mem_write_fresh)
      ultimately show ?thesis by blast
    qed
  qed
qed

lemma enter_good:
  assumes inv: "dev_inv (unlocked st)" and f: "file_ok f" and pos: "0 \<le> sint pos" and env: "call_env a c req (Entered pos) st"
  shows "\<exists>sg' st'. enter_turn a req pos f st = Some (sg', st') \<and> call_good t req (Entered pos) f st (sg', f, st')"
proof -
  have dev: "private_data f = AesdDevice" using f by (simp add: file_ok_def)
  have same: "call_good t req (Entered pos) f st (sg', f, st)"
    if "stage_ok (kheap st) req sg'" "sg_temp sg' = {}" "\<not> holding sg'"
      "spec_calls (decides t req (Entered pos) f sg' f) (abs_dev st) (abs_dev st)"
      "concat (map stored_by (decides t req (Entered pos) f sg' f)) = []" for sg'
    by (rule call_good_same [where v = "val st"]) (use that inv f in \<open>auto simp: unlocked_def\<close>)
  show ?thesis
  proof (cases req)
    case (Write_call buf n)
    then show ?thesis using enter_write [OF inv f pos] env by (simp add: call_env_def)
  next
    case (Read_call buf n)
    then show ?thesis
      using same [of "Committing (- EINVAL) [] pos"] same [of "Queued pos 0"] pos dev
      by (auto simp: enter_turn_def waiting_ok_def decides_one spec_call_def stored_by_def)
  next
    case (Llseek_call off wh)
    then show ?thesis using same [of "Queued pos 0"] pos dev by (auto simp: enter_turn_def waiting_ok_def)
  next
    case (Ioctl_call cmd arg)
    then show ?thesis
      using same [of "Returned (- ENOTTY) []"] same [of "Returned (- EFAULT) []"] same [of "Queued pos 0"] pos dev
      by (auto simp: enter_turn_def waiting_ok_def decides_one spec_call_def stored_by_def)
  qed
qed

text \<open>Giving up the temporary block, after the section or because of a signal.\<close>

lemma kfree_defined: "(a \<noteq> 0 \<longrightarrow> h a \<noteq> None) \<Longrightarrow> \<exists>h'. kfree h a = Some h'"
  by (cases "h a") (auto simp: kfree_def)

lemma free_temp:
  assumes inv: "dev_inv (unlocked st)" and h: "kfree (kheap st) a = Some h"
    and a: "sg_temp sg \<inter> set (owned (aesd_device st)) = {}" and sg: "sg_temp sg = {a} - {0}" "\<not> holding sg"
    and sg': "file_ok f" "stage_ok h req sg'" "sg_temp sg' = {}" "\<not> holding sg'"
      "spec_calls (decides t req sg f sg' f) (abs_dev st) (abs_dev st)"
      "concat (map stored_by (decides t req sg f sg' f)) = []"
  shows "call_good t req sg f st (sg', f, st\<lparr>kheap := h\<rparr>)"
proof -
  have h': "if a = 0 then h = kheap st else h = (kheap st)(a := None)"
    using h by (auto simp: kfree_def split: option.splits if_splits)
  have "a \<noteq> 0 \<longrightarrow> a \<notin> set (owned (aesd_device st))" using a sg(1) by auto
  then have "\<forall>b \<in> set (owned (aesd_device st)). h b = kheap st b" using h' by (auto split: if_splits)
  then have "dev_inv (unlocked (st\<lparr>kheap := h\<rparr>))" "abs_dev (st\<lparr>kheap := h\<rparr>) = abs_dev st"
    using unlocked_heap [OF inv, of "st\<lparr>kheap := h\<rparr>"] by simp_all
  then show ?thesis using h' sg sg' by (auto simp: call_good_def stray_def split: if_splits)
qed

lemma wait_good:
  assumes inv: "dev_inv (unlocked st)" and f: "file_ok f" and w: "waiting_ok (kheap st) req pos a"
    and a: "sg_temp (Queued pos a) \<inter> set (owned (aesd_device st)) = {}"
  shows "\<exists>res. wait_turn intr req pos a st = Some res \<and>
    (case res of
       Blocked \<Rightarrow> buffer_lock (aesd_device st) \<and> \<not> (interruptible req \<and> intr)
     | Done (sg', st') \<Rightarrow> call_good t req (Queued pos a) f st (sg', f, st'))"
proof (cases "interruptible req \<and> intr")
  case True
  have al: "a \<noteq> 0 \<longrightarrow> kheap st a \<noteq> None" using w by (auto simp: waiting_ok_def split: request.splits option.splits)
  obtain h where h: "kfree (kheap st) a = Some h" using kfree_defined al by blast
  have "call_good t req (Queued pos a) f st (Committing (- ERESTARTSYS) [] pos, f, st\<lparr>kheap := h\<rparr>)"
    by (rule free_temp [OF inv h a])
      (use True f in \<open>cases req; simp add: decides_one spec_call_def stored_by_failed\<close>)+
  then show ?thesis using True h by (simp add: wait_turn_def)
next
  case False
  show ?thesis
  proof (cases "buffer_lock (aesd_device st)")
    case True
    then show ?thesis using False by (auto simp: wait_turn_def)
  next
    case free: False
    let ?st' = "st\<lparr>aesd_device := (aesd_device st)\<lparr>buffer_lock := True\<rparr>\<rparr>"
    have "call_good t req (Queued pos a) f st (Locked pos a, f, ?st')"
      by (rule call_good_same [where v = "val st"])
        (use inv f w a free in \<open>simp_all add: unlocked_def\<close>)
    then show ?thesis using False free by (auto simp: wait_turn_def lock_free)
  qed
qed

text \<open>Any turn of any call.\<close>

lemma call_turn_spec:
  assumes inv: "dev_inv (unlocked st)" and f: "file_ok f" and sg: "stage_ok (kheap st) req sg"
    and tmp: "sg_temp sg \<inter> set (owned (aesd_device st)) = {}" and lock: "holding sg \<longrightarrow> buffer_lock (aesd_device st)"
    and env: "call_env a c req sg st"
  shows "\<exists>res. call_turn a c intr req sg f st = Some res \<and>
    (case res of
       Blocked \<Rightarrow> buffer_lock (aesd_device st) \<and> (\<exists>pos b. sg = Queued pos b) \<and> \<not> (interruptible req \<and> intr)
     | Done r \<Rightarrow> call_good t req sg f st r)"
proof (cases sg)
  case (Entered pos)
  then show ?thesis
    using enter_good [OF inv f, of pos a c req t] sg env by (fastforce simp: call_turn_def)
next
  case (Queued pos b)
  then obtain res where "wait_turn intr req pos b st = Some res"
    "case res of Blocked \<Rightarrow> buffer_lock (aesd_device st) \<and> \<not> (interruptible req \<and> intr)
     | Done (sg', st') \<Rightarrow> call_good t req (Queued pos b) f st (sg', f, st')"
    using wait_good [OF inv f, of req pos b intr t] sg tmp by auto
  then show ?thesis using Queued by (auto simp: call_turn_def split: outcome.splits)
next
  case (Locked pos b)
  then have w: "waiting_ok (kheap st) req pos b" and l: "buffer_lock (aesd_device st)" using sg lock by simp_all
  have "\<exists>res. locked_turn c req pos b f st = Some res \<and> call_good t req (Locked pos b) f st res"
  proof (cases req)
    case (Write_call buf n)
    moreover have "b \<noteq> 0" using w Write_call by (simp add: waiting_ok_def)
    ultimately show ?thesis
      using write_section [OF inv f l, of buf n pos b c t] w env tmp Locked by (simp add: call_env_def)
  qed (use read_section [OF inv f l] llseek_section [OF inv f l] ioctl_section [OF inv f l] w in blast)+
  then show ?thesis using Locked by (auto simp: call_turn_def)
next
  case (Freeing r b pos)
  have al: "b \<noteq> 0 \<longrightarrow> kheap st b \<noteq> None" using sg Freeing by simp
  obtain h where h: "kfree (kheap st) b = Some h" using kfree_defined al by blast
  have "call_good t req (Freeing r b pos) f st (Committing r [] pos, f, st\<lparr>kheap := h\<rparr>)"
    by (rule free_temp [OF inv h tmp [unfolded Freeing]]) (use f sg Freeing in simp_all)
  with h show ?thesis using Freeing by (simp add: call_turn_def)
next
  case (Committing r out pos)
  have "file_ok (commit_pos r pos f)" using f sg Committing by (simp add: file_ok_def commit_pos_def)
  then have "call_good t req (Committing r out pos) f st (Returned r out, commit_pos r pos f, st)"
    by (intro call_good_same [where v = "val st"]) (use inv in \<open>simp_all add: unlocked_def\<close>)
  then show ?thesis using Committing by (simp add: call_turn_def)
next
  case (Returned r out)
  have "call_good t req (Returned r out) f st (Returned r out, f, st)"
    by (rule call_good_same [where v = "val st"]) (use inv f in \<open>simp_all add: unlocked_def\<close>)
  then show ?thesis using Returned by (simp add: call_turn_def)
qed

end
