(* ===== verification/Aesd_Concurrent.thy ===== *)
theory Aesd_Concurrent
  imports Aesd_Call_Turns
begin

text \<open>
  The driver under concurrent calls: any number of threads, each in a call on some open file, take
  their turns in any order.  The properties: the calls are linearizable, each deciding its result in
  one turn as the specification demands of the contents at that moment; no call is stuck; nothing
  but the blocks of forgotten commands is lost; and what the positions of shared files do not
  promise.
\<close>

section \<open>Executions\<close>

record drv = sys +
  calls :: "nat \<rightharpoonup> nat \<times> request \<times> stage"

text \<open>A file stays open while a call uses it, as the kernel counts the references to it.\<close>

inductive drv_step :: "drv \<Rightarrow> decision list \<Rightarrow> drv \<Rightarrow> bool" where
  Open_file: "files s fd = None \<Longrightarrow>
    aesd_open AesdDevice \<lparr>f_pos = 0, private_data = NullDev\<rparr> = (r, f) \<Longrightarrow>
    drv_step s [] (s\<lparr>files := (files s)(fd \<mapsto> f)\<rparr>)"
| Release_file: "files s fd = Some f \<Longrightarrow> (\<forall>t req sg. calls s t \<noteq> Some (fd, req, sg)) \<Longrightarrow>
    aesd_release f = (r, f') \<Longrightarrow> drv_step s [] (s\<lparr>files := (files s)(fd := None)\<rparr>)"
| Call: "calls s t = None \<Longrightarrow> files s fd = Some f \<Longrightarrow>
    drv_step s [] (s\<lparr>calls := (calls s)(t \<mapsto> (fd, req, Entered (f_pos f)))\<rparr>)"
| Turn: "calls s t = Some (fd, req, sg) \<Longrightarrow> files s fd = Some f \<Longrightarrow> call_env a c req sg (kern s) \<Longrightarrow>
    call_turn a c intr req sg f (kern s) = Some (Done (sg', f', k)) \<Longrightarrow>
    drv_step s (decides t req sg f sg' f')
      (s\<lparr>kern := k, files := (files s)(fd \<mapsto> f'), calls := (calls s)(t \<mapsto> (fd, req, sg'))\<rparr>)"
| Return: "calls s t = Some (fd, req, Returned r out) \<Longrightarrow>
    drv_step s [] (s\<lparr>calls := (calls s)(t := None)\<rparr>)"

inductive drv_run :: "heap \<Rightarrow> drv \<Rightarrow> decision list \<Rightarrow> bool" for h where
  Drv_start: "kheap k = h \<Longrightarrow> 0 \<le> ret \<Longrightarrow>
    aesd_init_module k c (ret, major) 0 = Some (0, k', c') \<Longrightarrow>
    drv_run h \<lparr>kern = k', files = Map.empty, calls = Map.empty\<rparr> []"
| Drv_step: "drv_run h s ds \<Longrightarrow> drv_step s es s' \<Longrightarrow> drv_run h s' (ds @ es)"

section \<open>Invariant\<close>

definition call_ok :: "kst \<Rightarrow> (nat \<rightharpoonup> file_t) \<Rightarrow> nat \<times> request \<times> stage \<Rightarrow> bool" where
  "call_ok k fs = (\<lambda>(fd, req, sg). fs fd \<noteq> None \<and> stage_ok (kheap k) req sg \<and>
     sg_temp sg \<inter> set (owned (aesd_device k)) = {} \<and> (holding sg \<longrightarrow> buffer_lock (aesd_device k)))"

definition drv_inv :: "drv \<Rightarrow> bool" where
  "drv_inv s \<longleftrightarrow> dev_inv (unlocked (kern s)) \<and> (\<forall>fd f. files s fd = Some f \<longrightarrow> file_ok f) \<and>
     (\<forall>t x. calls s t = Some x \<longrightarrow> call_ok (kern s) (files s) x) \<and>
     (\<forall>t u fd req sg fd' req' sg'. calls s t = Some (fd, req, sg) \<longrightarrow> calls s u = Some (fd', req', sg') \<longrightarrow> t \<noteq> u \<longrightarrow>
        sg_temp sg \<inter> sg_temp sg' = {} \<and> \<not> (holding sg \<and> holding sg')) \<and>
     (buffer_lock (aesd_device (kern s)) \<longrightarrow> (\<exists>t fd req sg. calls s t = Some (fd, req, sg) \<and> holding sg))"

lemma drv_invD:
  assumes "drv_inv s"
  shows "dev_inv (unlocked (kern s))" "files s fd = Some f \<Longrightarrow> file_ok f"
    "calls s t = Some (fd, req, sg) \<Longrightarrow> call_ok (kern s) (files s) (fd, req, sg)"
    "calls s t = Some (fd, req, sg) \<Longrightarrow> calls s u = Some (fd', req', sg') \<Longrightarrow> t \<noteq> u \<Longrightarrow>
       sg_temp sg \<inter> sg_temp sg' = {} \<and> \<not> (holding sg \<and> holding sg')"
    "buffer_lock (aesd_device (kern s)) \<Longrightarrow> \<exists>t fd req sg. calls s t = Some (fd, req, sg) \<and> holding sg"
  using assms unfolding drv_inv_def by blast+

lemma drv_invI:
  assumes "dev_inv (unlocked (kern s))" "\<And>fd f. files s fd = Some f \<Longrightarrow> file_ok f"
    "\<And>t fd req sg. calls s t = Some (fd, req, sg) \<Longrightarrow> call_ok (kern s) (files s) (fd, req, sg)"
    "\<And>t u fd req sg fd' req' sg'. calls s t = Some (fd, req, sg) \<Longrightarrow> calls s u = Some (fd', req', sg') \<Longrightarrow> t \<noteq> u \<Longrightarrow>
       sg_temp sg \<inter> sg_temp sg' = {} \<and> \<not> (holding sg \<and> holding sg')"
    "buffer_lock (aesd_device (kern s)) \<Longrightarrow> \<exists>t fd req sg. calls s t = Some (fd, req, sg) \<and> holding sg"
  shows "drv_inv s"
proof -
  have "call_ok (kern s) (files s) x" if "calls s t = Some x" for t x
    using assms(3) that by (cases x) blast
  then show ?thesis unfolding drv_inv_def using assms(1,2,4,5) by blast
qed

lemma stage_temp_allocated: "stage_ok h req sg \<Longrightarrow> b \<in> sg_temp sg \<Longrightarrow> b \<noteq> 0 \<and> h b \<noteq> None"
  by (cases sg) (auto simp: waiting_ok_def split: request.splits option.splits)

lemma stage_ok_frame: "stage_ok h req sg \<Longrightarrow> (\<And>b. b \<in> sg_temp sg \<Longrightarrow> h' b = h b) \<Longrightarrow> stage_ok h' req sg"
  by (cases sg) (auto simp: waiting_ok_def split: request.splits option.splits)

text \<open>The turns of a call apply in the state of the driver.\<close>

lemma drv_turn:
  assumes "drv_inv s" "calls s t = Some (fd, req, sg)" "call_env a c req sg (kern s)"
  shows "\<exists>f res. files s fd = Some f \<and> call_turn a c intr req sg f (kern s) = Some res \<and>
    (case res of
       Blocked \<Rightarrow> buffer_lock (aesd_device (kern s)) \<and> (\<exists>pos b. sg = Queued pos b) \<and> \<not> (interruptible req \<and> intr)
     | Done r \<Rightarrow> call_good t req sg f (kern s) r)"
proof -
  note ok = drv_invD(3) [OF assms(1,2), unfolded call_ok_def, simplified]
  then obtain f where f: "files s fd = Some f" by auto
  show ?thesis
    using call_turn_spec [OF drv_invD(1) [OF assms(1)] drv_invD(2) [OF assms(1) f], of req sg a c intr t]
      ok assms(3) f by auto
qed

text \<open>The call that holds the mutex is never kept waiting.\<close>

lemma drv_holder:
  assumes "drv_inv s" "calls s t = Some (fd, req, sg)" "holding sg" "call_env a c req sg (kern s)"
    and "files s fd = Some f"
  shows "\<exists>sg' f' k. call_turn a c intr req sg f (kern s) = Some (Done (sg', f', k)) \<and>
    call_good t req sg f (kern s) (sg', f', k)"
proof -
  obtain f1 res where r: "files s fd = Some f1" "call_turn a c intr req sg f1 (kern s) = Some res"
    "case res of Blocked \<Rightarrow> buffer_lock (aesd_device (kern s)) \<and> (\<exists>pos b. sg = Queued pos b) \<and> \<not> (interruptible req \<and> intr)
     | Done r \<Rightarrow> call_good t req sg f1 (kern s) r"
    using drv_turn [OF assms(1,2,4), of intr] by blast
  then show ?thesis using assms(3,5) by (cases res) auto
qed

text \<open>A good turn keeps the calls of the others good.\<close>

lemma call_ok_others:
  assumes "drv_inv s" "calls s t = Some (fd, req, sg)" "calls s u = Some (fd', req', sg')" "u \<noteq> t"
    and good: "call_good t req sg f (kern s) (sg1, f1, k)"
  shows "call_ok k ((files s)(fd \<mapsto> f1)) (fd', req', sg')" "sg_temp sg1 \<inter> sg_temp sg' = {}"
    "\<not> (holding sg1 \<and> holding sg')"
proof -
  have ok: "files s fd' \<noteq> None" "stage_ok (kheap (kern s)) req' sg'"
    "sg_temp sg' \<inter> set (owned (aesd_device (kern s))) = {}" "holding sg' \<longrightarrow> buffer_lock (aesd_device (kern s))"
    using drv_invD(3) [OF assms(1,3)] by (simp_all add: call_ok_def)
  have apart: "sg_temp sg' \<inter> sg_temp sg = {}" "\<not> (holding sg' \<and> holding sg)"
    using drv_invD(4) [OF assms(1,3,2,4)] by simp_all
  note g = call_goodD [OF good]
  have tmp: "kheap k b = kheap (kern s) b" "b \<notin> set (owned (aesd_device k))" "kheap (kern s) b \<noteq> None"
    if "b \<in> sg_temp sg'" for b
  proof -
    have b: "b \<noteq> 0" "kheap (kern s) b \<noteq> None" using stage_temp_allocated [OF ok(2) that] by simp_all
    moreover have "b \<notin> set (owned (aesd_device (kern s)))" "b \<notin> sg_temp sg" using ok(3) apart(1) that by auto
    ultimately show "kheap k b = kheap (kern s) b" "b \<notin> set (owned (aesd_device k))" "kheap (kern s) b \<noteq> None"
      using g(6) [of b] by simp_all
  qed
  have "stage_ok (kheap k) req' sg'" by (rule stage_ok_frame [OF ok(2) tmp(1)])
  moreover have "holding sg' \<longrightarrow> buffer_lock (aesd_device k)" using ok(4) apart(2) g(7) by blast
  moreover have "sg_temp sg' \<inter> set (owned (aesd_device k)) = {}" using tmp(2) by blast
  ultimately show "call_ok k ((files s)(fd \<mapsto> f1)) (fd', req', sg')"
    using ok(1) by (simp add: call_ok_def)
  show "sg_temp sg1 \<inter> sg_temp sg' = {}" using g(5) tmp(3) apart(1) by blast
  show "\<not> (holding sg1 \<and> holding sg')" using g(8) ok(4) apart(2) by blast
qed

text \<open>After a turn the calls still own what they need alone, and a held mutex has a holder.\<close>

lemma drv_pairs_turn:
  assumes inv: "drv_inv s" and t: "calls s t = Some (fd, req, sg)" and good: "call_good t req sg f (kern s) (sg', f', k)"
    and at: "((calls s)(t \<mapsto> (fd, req, sg'))) u = Some (fd1, req1, sg1)" "((calls s)(t \<mapsto> (fd, req, sg'))) v = Some (fd2, req2, sg2)"
    and uv: "u \<noteq> v"
  shows "sg_temp sg1 \<inter> sg_temp sg2 = {} \<and> \<not> (holding sg1 \<and> holding sg2)"
proof -
  have vs: "sg_temp sg' \<inter> sg_temp sg1 = {} \<and> \<not> (holding sg' \<and> holding sg1)"
    if "calls s u = Some (fd1, req1, sg1)" "u \<noteq> t" for u fd1 req1 sg1
    using call_ok_others(2,3) [OF inv t that good] by blast
  consider "u = t" | "v = t" | "u \<noteq> t" "v \<noteq> t" by blast
  then show ?thesis
  proof cases
    case 1
    then show ?thesis using at uv vs [of v fd2 req2 sg2] by auto
  next
    case 2
    then show ?thesis using at uv vs [of u fd1 req1 sg1] by auto
  next
    case 3
    then show ?thesis using at uv drv_invD(4) [OF inv] by simp
  qed
qed

lemma drv_mutex_turn:
  assumes inv: "drv_inv s" and t: "calls s t = Some (fd, req, sg)" and good: "call_good t req sg f (kern s) (sg', f', k)"
    and held: "buffer_lock (aesd_device k)"
  shows "\<exists>u fd1 req1 sg1. ((calls s)(t \<mapsto> (fd, req, sg'))) u = Some (fd1, req1, sg1) \<and> holding sg1"
proof (cases "holding sg'")
  case False
  then have "buffer_lock (aesd_device (kern s))" "\<not> holding sg" using held call_goodD(7) [OF good] by auto
  then obtain u fd1 req1 sg1 where "calls s u = Some (fd1, req1, sg1)" "holding sg1" "u \<noteq> t"
    using drv_invD(5) [OF inv] t by fastforce
  then show ?thesis by (intro exI [where x = u] exI [where x = fd1] exI [where x = req1] exI [where x = sg1]) simp
qed auto

lemma drv_inv_turn:
  assumes inv: "drv_inv s" and t: "calls s t = Some (fd, req, sg)" and fd: "files s fd = Some f"
    and good: "call_good t req sg f (kern s) (sg', f', k)"
  defines "s' \<equiv> s\<lparr>kern := k, files := (files s)(fd \<mapsto> f'), calls := (calls s)(t \<mapsto> (fd, req, sg'))\<rparr>"
  shows "drv_inv s'"
proof -
  note g = call_goodD [OF good] and others = call_ok_others [OF inv t _ _ good]
  have "holding sg' \<Longrightarrow> buffer_lock (aesd_device k)" using g(7) by simp
  then have own: "call_ok k (files s') (fd, req, sg')" using g(3,4) by (simp add: call_ok_def s'_def)
  have new: "kern s' = k" "calls s' = (calls s)(t \<mapsto> (fd, req, sg'))" by (simp_all add: s'_def)
  have each: "call_ok (kern s') (files s') (fd1, req1, sg1)" if "calls s' u = Some (fd1, req1, sg1)" for u fd1 req1 sg1
    using that own others(1) by (auto simp: s'_def split: if_splits)
  show ?thesis
  proof (rule drv_invI)
    show "dev_inv (unlocked (kern s'))" "files s' fd1 = Some f1 \<Longrightarrow> file_ok f1" for fd1 f1
      using g(1,2) drv_invD(2) [OF inv] by (auto simp: s'_def split: if_splits)
  qed (use each drv_pairs_turn [OF inv t good, folded new(2)] drv_mutex_turn [OF inv t good, folded new] in blast)+
qed

text \<open>Opening, releasing, calling and returning do not touch the kernel's state.\<close>

lemma drv_inv_files:
  assumes inv: "drv_inv s" and ok: "\<And>fd f. fs fd = Some f \<Longrightarrow> file_ok f"
    and used: "\<And>t fd req sg. calls s t = Some (fd, req, sg) \<Longrightarrow> fs fd \<noteq> None"
  shows "drv_inv (s\<lparr>files := fs\<rparr>)"
proof (rule drv_invI)
  fix t fd req sg
  assume "calls (s\<lparr>files := fs\<rparr>) t = Some (fd, req, sg)"
  then show "call_ok (kern (s\<lparr>files := fs\<rparr>)) (files (s\<lparr>files := fs\<rparr>)) (fd, req, sg)"
    using drv_invD(3) [OF inv] used by (auto simp: call_ok_def)
qed (use drv_invD(1) [OF inv] drv_invD(4,5) [OF inv] ok in simp_all)

lemma drv_inv_call:
  assumes inv: "drv_inv s" and t: "calls s t = None" and fd: "files s fd = Some f"
  shows "drv_inv (s\<lparr>calls := (calls s)(t \<mapsto> (fd, req, Entered (f_pos f)))\<rparr>)"
proof (rule drv_invI)
  have "call_ok (kern s) (files s) (fd, req, Entered (f_pos f))"
    using drv_invD(2) [OF inv fd] fd by (simp add: call_ok_def file_ok_def)
  then show "call_ok (kern (s\<lparr>calls := (calls s)(t \<mapsto> (fd, req, Entered (f_pos f)))\<rparr>))
      (files (s\<lparr>calls := (calls s)(t \<mapsto> (fd, req, Entered (f_pos f)))\<rparr>)) (fd', req', sg')"
    if "calls (s\<lparr>calls := (calls s)(t \<mapsto> (fd, req, Entered (f_pos f)))\<rparr>) u = Some (fd', req', sg')" for u fd' req' sg'
    using that drv_invD(3) [OF inv] by (auto split: if_splits)
next
  assume "buffer_lock (aesd_device (kern (s\<lparr>calls := (calls s)(t \<mapsto> (fd, req, Entered (f_pos f)))\<rparr>)))"
  then obtain u x where "calls s u = Some x" "holding (snd (snd x))" using drv_invD(5) [OF inv] by auto
  then show "\<exists>u fd' req' sg'. calls (s\<lparr>calls := (calls s)(t \<mapsto> (fd, req, Entered (f_pos f)))\<rparr>) u = Some (fd', req', sg') \<and>
      holding sg'"
    using t by - (cases x, rule exI [of _ u], auto)
qed (use drv_invD(1,2) [OF inv] drv_invD(4) [OF inv] in \<open>auto split: if_splits\<close>)

lemma drv_inv_return:
  assumes inv: "drv_inv s" and t: "calls s t = Some (fd, req, Returned r out)"
  shows "drv_inv (s\<lparr>calls := (calls s)(t := None)\<rparr>)"
proof (rule drv_invI)
  assume "buffer_lock (aesd_device (kern (s\<lparr>calls := (calls s)(t := None)\<rparr>)))"
  then obtain u x where "calls s u = Some x" "holding (snd (snd x))" using drv_invD(5) [OF inv] by auto
  then show "\<exists>u fd' req' sg'. calls (s\<lparr>calls := (calls s)(t := None)\<rparr>) u = Some (fd', req', sg') \<and> holding sg'"
    using t by - (cases x, rule exI [of _ u], auto)
qed (use drv_invD(1,2) [OF inv] drv_invD(3,4) [OF inv] in \<open>auto split: if_splits\<close>)

lemma drv_inv_step:
  assumes "drv_step s ds s'" "drv_inv s"
  shows "drv_inv s'"
  using assms
proof (induction rule: drv_step.induct)
  case (Turn s t fd req sg f a c intr sg' f' k)
  have "call_good t req sg f (kern s) (sg', f', k)"
    using drv_turn [OF Turn(5,1,3), of intr] Turn(2,4) by auto
  then show ?case by (rule drv_inv_turn [OF Turn(5,1,2)])
next
  case (Open_file s fd r f)
  then show ?case
    using drv_invD(2,3) [OF Open_file(3)]
    by (intro drv_inv_files) (auto simp: aesd_open_def file_ok_def call_ok_def split: if_splits)
next
  case (Release_file s fd f r f')
  then show ?case
    using drv_invD(2,3) [OF Release_file(4)]
    by (intro drv_inv_files) (auto simp: call_ok_def split: if_splits)
next
  case (Call s t fd f req)
  then show ?case by (intro drv_inv_call)
next
  case (Return s t fd req r out)
  then show ?case by (intro drv_inv_return)
qed

section \<open>What a run leaves\<close>

text \<open>The data stored by a list of decisions, and the blocks no call and no part of the device knows.\<close>

definition stored_log :: "decision list \<Rightarrow> byte list list" where
  "stored_log ds = concat (map stored_by ds)"

definition temps :: "drv \<Rightarrow> nat set \<Rightarrow> addr set" where
  "temps s ts = {b. \<exists>t \<in> ts. \<exists>fd req sg. calls s t = Some (fd, req, sg) \<and> b \<in> sg_temp sg}"

definition lost :: "drv \<Rightarrow> addr set" where
  "lost s = stray (kern s) - temps s UNIV"

lemma stored_log_append [simp]: "stored_log (ds @ es) = stored_log ds @ stored_log es"
  by (simp add: stored_log_def)

lemma spec_call_stores: "spec_call d ct ct' \<Longrightarrow> ct' = fold spec_write (stored_by d) ct"
  by (cases "asked d") (auto simp: spec_call_def stored_by_def split: option.splits if_splits)

lemma spec_calls_store: "spec_calls ds ct ct' \<Longrightarrow> ct' = fold spec_write (stored_log ds) ct"
proof (induction ds arbitrary: ct)
  case (Cons d ds)
  then obtain ct1 where "spec_call d ct ct1" "spec_calls ds ct1 ct'" by (auto simp: spec_calls.simps(2))
  then show ?case using Cons.IH [of ct1] spec_call_stores [of d ct ct1] by (simp add: stored_log_def)
qed (simp add: stored_log_def)

lemma temps_split:
  "calls s t = Some (fd, req, sg) \<Longrightarrow> temps s UNIV = sg_temp sg \<union> temps s (- {t})"
proof -
  assume t: "calls s t = Some (fd, req, sg)"
  have "(UNIV :: nat set) = insert t (- {t})" by auto
  then have "temps s UNIV = temps s (insert t (- {t}))" by (rule arg_cong)
  also have "\<dots> = sg_temp sg \<union> temps s (- {t})" unfolding temps_def using t by auto
  finally show ?thesis .
qed

lemma temps_other [simp]:
  "temps (s\<lparr>kern := k, files := fs, calls := (calls s)(t \<mapsto> x)\<rparr>) (- {t}) = temps s (- {t})"
  by (auto simp: temps_def)

text \<open>Calls without a block of their own make no difference.\<close>

lemma temps_idle:
  assumes "\<And>u. u \<noteq> t \<Longrightarrow> calls s' u = calls s u"
    and "\<And>fd req sg. calls s t = Some (fd, req, sg) \<Longrightarrow> sg_temp sg = {}"
    and "\<And>fd req sg. calls s' t = Some (fd, req, sg) \<Longrightarrow> sg_temp sg = {}"
  shows "temps s' UNIV = temps s UNIV"
proof -
  have "(\<exists>fd req sg. calls s' u = Some (fd, req, sg) \<and> b \<in> sg_temp sg) \<longleftrightarrow>
      (\<exists>fd req sg. calls s u = Some (fd, req, sg) \<and> b \<in> sg_temp sg)" for u b
    using assms by (cases "u = t") auto
  then show ?thesis by (simp add: temps_def)
qed

lemma temps_stray:
  assumes "drv_inv s"
  shows "temps s ts \<subseteq> stray (kern s)"
proof
  fix b
  assume "b \<in> temps s ts"
  then obtain t fd req sg where t: "calls s t = Some (fd, req, sg)" "b \<in> sg_temp sg" by (auto simp: temps_def)
  from drv_invD(3) [OF assms t(1)] have "stage_ok (kheap (kern s)) req sg" "b \<notin> set (owned (aesd_device (kern s)))"
    using t(2) by (auto simp: call_ok_def)
  with stage_temp_allocated [OF this(1) t(2)] show "b \<in> stray (kern s)" by (auto simp: stray_def)
qed

lemma lost_turn:
  assumes inv: "drv_inv s" and t: "calls s t = Some (fd, req, sg)"
    and good: "call_good t req sg f (kern s) (sg', f', k)"
  shows "turn_lost (kern s) (lost s) (stored_log (decides t req sg f sg' f'))
    (lost (s\<lparr>kern := k, files := fs, calls := (calls s)(t \<mapsto> (fd, req, sg'))\<rparr>))"
proof -
  let ?s' = "s\<lparr>kern := k, files := fs, calls := (calls s)(t \<mapsto> (fd, req, sg'))\<rparr>"
  let ?O = "temps s (- {t})"
  have "temps s UNIV = sg_temp sg \<union> ?O" "temps ?s' UNIV = sg_temp sg' \<union> ?O"
    using temps_split [OF t] temps_split [of ?s' t fd req sg'] by simp_all
  then have "lost s = (stray (kern s) - sg_temp sg) - ?O" "lost ?s' = (stray k - sg_temp sg') - ?O"
    by (auto simp: lost_def)
  then show ?thesis
    using call_goodD(10) [OF good] temps_stray [OF inv, of "- {t}"]
    by (auto simp: turn_lost_def stored_log_def split: if_splits)
qed

text \<open>Once a call has its result it keeps it.\<close>

lemma result_kept:
  assumes "call_turn a c intr req sg f st = Some (Done (sg', f', st'))" "sg_result sg = Some x"
  shows "sg_result sg' = Some x"
  using assms by (cases sg) (auto simp: call_turn_def split: bind_splits)

text \<open>The last decision of a thread is the result of the call it is in.\<close>

definition logged :: "decision list \<Rightarrow> nat \<Rightarrow> request \<Rightarrow> ssize_t \<times> byte list \<Rightarrow> bool" where
  "logged ds t req = (\<lambda>(r, out). \<exists>pre d post. ds = pre @ d # post \<and> thread d = t \<and> asked d = req \<and>
     result d = r \<and> delivered d = out \<and> t \<notin> thread ` set post)"

lemma logged_append: "logged ds t req x \<Longrightarrow> t \<notin> thread ` set es \<Longrightarrow> logged (ds @ es) t req x"
  unfolding logged_def by (cases x) fastforce

lemma decides_thread: "d \<in> set (decides t req sg f sg' f') \<Longrightarrow> thread d = t"
  by (auto simp: decides_def split: option.splits)

lemma decides_logged:
  "sg_result sg = None \<Longrightarrow> sg_result sg' = Some x \<Longrightarrow> logged (ds @ decides t req sg f sg' f') t req x"
  by (cases x) (simp add: logged_def decides_one, rule exI [of _ ds], simp)

definition run_ok :: "heap \<Rightarrow> drv \<Rightarrow> decision list \<Rightarrow> bool" where
  "run_ok h s ds \<longleftrightarrow> drv_inv s \<and> spec_calls ds ([], []) (abs_dev (kern s)) \<and>
     (\<forall>t fd req sg x. calls s t = Some (fd, req, sg) \<longrightarrow> sg_result sg = Some x \<longrightarrow> logged ds t req x) \<and>
     dom h \<subseteq> lost s \<and> finite (lost s - dom h) \<and> card (lost s - dom h) = lines (stored_log ds) - MAX_OPS"

lemma run_okD:
  assumes "run_ok h s ds"
  shows "drv_inv s" "spec_calls ds ([], []) (abs_dev (kern s))"
    "calls s t = Some (fd, req, sg) \<Longrightarrow> sg_result sg = Some x \<Longrightarrow> logged ds t req x"
    "dom h \<subseteq> lost s" "finite (lost s - dom h)" "card (lost s - dom h) = lines (stored_log ds) - MAX_OPS"
  using assms unfolding run_ok_def by blast+

lemma run_ok_same:
  assumes "run_ok h s ds" "drv_inv s'" "kern s' = kern s" "temps s' UNIV = temps s UNIV"
    and "\<And>t fd req sg x. calls s' t = Some (fd, req, sg) \<Longrightarrow> sg_result sg = Some x \<Longrightarrow> calls s t = Some (fd, req, sg)"
  shows "run_ok h s' ds"
proof -
  have "lost s' = lost s" using assms(3,4) by (simp add: lost_def)
  then show ?thesis using assms(1,2,3,5) unfolding run_ok_def by metis
qed

lemma lost_count:
  assumes "turn_lost st L ws L'" "L \<subseteq> stray st" "length (commands st) = min MAX_OPS n"
    and "dom h \<subseteq> L" "finite (L - dom h)" "card (L - dom h) = n - MAX_OPS"
  shows "dom h \<subseteq> L'" "finite (L' - dom h)" "card (L' - dom h) = n + lines ws - MAX_OPS"
proof -
  have "dom h \<subseteq> L' \<and> finite (L' - dom h) \<and> card (L' - dom h) = n + lines ws - MAX_OPS"
  proof (cases "lines ws = 1 \<and> length (commands st) = MAX_OPS")
    case True
    then obtain a where a: "a \<notin> stray st" "L' = insert a L" using assms(1) by (auto simp: turn_lost_def)
    then have "L' - dom h = insert a (L - dom h)" "a \<notin> L - dom h" using assms(2,4) by auto
    moreover have "MAX_OPS \<le> n" using True assms(3) by (simp add: min_def split: if_splits)
    ultimately show ?thesis using True assms(4-6) a(2) by (auto simp: Suc_diff_le)
  next
    case False
    then have "L' = L" "lines ws \<le> 1" using assms(1) unfolding turn_lost_def by (auto split: if_splits)
    then show ?thesis using False assms(3-6) by (auto simp: min_def split: if_splits)
  qed
  then show "dom h \<subseteq> L'" "finite (L' - dom h)" "card (L' - dom h) = n + lines ws - MAX_OPS" by simp_all
qed

lemma run_ok_turn:
  assumes ok: "run_ok h s ds" and t: "calls s t = Some (fd, req, sg)" and fd: "files s fd = Some f"
    and turn: "call_turn a c intr req sg f (kern s) = Some (Done (sg', f', k))"
    and good: "call_good t req sg f (kern s) (sg', f', k)"
  shows "run_ok h (s\<lparr>kern := k, files := (files s)(fd \<mapsto> f'), calls := (calls s)(t \<mapsto> (fd, req, sg'))\<rparr>)
    (ds @ decides t req sg f sg' f')" (is "run_ok h ?s' (ds @ ?es)")
proof -
  note inv = run_okD(1) [OF ok]
  have spec: "spec_calls (ds @ ?es) ([], []) (abs_dev (kern ?s'))"
    unfolding spec_calls_append using run_okD(2) [OF ok] call_goodD(9) [OF good]
    by (intro exI [of _ "abs_dev (kern s)"]) simp
  have log: "logged (ds @ ?es) u req1 x" if "calls ?s' u = Some (fd1, req1, sg1)" "sg_result sg1 = Some x" for u fd1 req1 sg1 x
  proof (cases "u = t")
    case False
    then have "t \<noteq> u" "logged ds u req1 x" using that run_okD(3) [OF ok] by auto
    then show ?thesis using decides_thread by (intro logged_append) (auto simp: image_iff)
  next
    case True
    then have sg1: "req1 = req" "sg1 = sg'" using that(1) by auto
    show ?thesis
    proof (cases "sg_result sg")
      case None
      then show ?thesis using decides_logged [OF None] that(2) True sg1 by auto
    next
      case (Some y)
      then have "logged ds t req y" "sg_result sg' = Some y"
        using run_okD(3) [OF ok t] result_kept [OF turn] by auto
      then show ?thesis using Some True sg1 that(2) by simp
    qed
  qed
  have "abs_dev (kern s) = fold spec_write (stored_log ds) ([], [])"
    by (rule spec_calls_store [OF run_okD(2) [OF ok]])
  then have len: "length (commands (kern s)) = min MAX_OPS (lines (stored_log ds))"
    using spec_lines [of "stored_log ds"] abs_stored(1) [of "kern s"] by simp
  have "lost s \<subseteq> stray (kern s)" by (auto simp: lost_def)
  note cnt = lost_count [OF lost_turn [OF inv t good] this len run_okD(4-6) [OF ok]]
  show ?thesis
    unfolding run_ok_def using drv_inv_turn [OF inv t fd good] spec log cnt by auto
qed

lemma drv_run_ok: "drv_run h s ds \<Longrightarrow> run_ok h s ds"
proof (induction rule: drv_run.induct)
  case (Drv_start k ret c major k' c')
  note i = init_state [OF Drv_start]
  have "drv_inv \<lparr>kern = k', files = Map.empty, calls = Map.empty\<rparr>"
    using i(1) dev_inv_unlocked [OF i(1)] dev_invD(2) [OF i(1)] by (simp add: drv_inv_def)
  then show ?case using i by (simp add: run_ok_def lost_def temps_def stored_log_def)
next
  case (Drv_step s ds es s')
  note inv' = drv_inv_step [OF Drv_step(2) run_okD(1) [OF Drv_step(3)]]
  from Drv_step(2,3) inv' show ?case
  proof (induction rule: drv_step.induct)
    case (Turn s t fd req sg f a c intr sg' f' k)
    have "call_good t req sg f (kern s) (sg', f', k)"
      using drv_turn [OF run_okD(1) [OF Turn(5)] Turn(1,3), of intr] Turn(2,4) by auto
    then show ?case by (rule run_ok_turn [OF Turn(5,1,2,4)])
  next
    case (Call s t fd f req)
    have "temps (s\<lparr>calls := (calls s)(t \<mapsto> (fd, req, Entered (f_pos f)))\<rparr>) UNIV = temps s UNIV"
      by (rule temps_idle [of t]) (use Call(1) in auto)
    then show ?case using Call by (auto intro!: run_ok_same [OF Call(3)] split: if_splits)
  next
    case (Return s t fd req r out)
    have "temps (s\<lparr>calls := (calls s)(t := None)\<rparr>) UNIV = temps s UNIV"
      by (rule temps_idle [of t]) (use Return(1) in auto)
    then show ?case using Return by (auto intro!: run_ok_same [OF Return(2)] split: if_splits)
  next
    case (Open_file s fd r f)
    show ?case by (rule append_Nil2 [THEN ssubst], rule run_ok_same [OF Open_file(3,4)]) (simp_all add: temps_def)
  next
    case (Release_file s fd f r f')
    show ?case by (rule append_Nil2 [THEN ssubst], rule run_ok_same [OF Release_file(4,5)]) (simp_all add: temps_def)
  qed
qed

section \<open>Runs put together\<close>

lemma drv_call:
  "drv_run h s ds \<Longrightarrow> calls s t = None \<Longrightarrow> files s fd = Some f \<Longrightarrow>
   drv_run h (s\<lparr>calls := (calls s)(t \<mapsto> (fd, req, Entered (f_pos f)))\<rparr>) ds"
  using Drv_step [OF _ Call] by fastforce

lemma drv_turn_run:
  "drv_run h s ds \<Longrightarrow> calls s t = Some (fd, req, sg) \<Longrightarrow> files s fd = Some f \<Longrightarrow> call_env a c req sg (kern s) \<Longrightarrow>
   call_turn a c intr req sg f (kern s) = Some (Done (sg', f', k)) \<Longrightarrow>
   drv_run h (s\<lparr>kern := k, files := (files s)(fd \<mapsto> f'), calls := (calls s)(t \<mapsto> (fd, req, sg'))\<rparr>)
     (ds @ decides t req sg f sg' f')"
  by (rule Drv_step [OF _ Turn])

lemma drv_upd [simp]:
  "files s fd = Some f \<Longrightarrow> s\<lparr>files := (files s)(fd \<mapsto> f), calls := cs\<rparr> = (s :: drv)\<lparr>calls := cs\<rparr>"
  by (cases s) (simp add: fun_upd_idem)

text \<open>A read that is not disturbed, up to the moment its result is stored in the file.\<close>

lemma drv_read:
  assumes run: "drv_run h s ds" and t: "calls s t = Some (fd, Read_call (Some cap) n, Entered pos)" and fd: "files s fd = Some f"
    and free: "\<not> buffer_lock (aesd_device (kern s))" and n: "n \<noteq> 0" "unat n \<le> cap" "unat pos + unat n \<le> length (stored (kern s))"
  defines "out \<equiv> take (unat n) (drop (unat pos) (stored (kern s)))"
  shows "\<exists>d. drv_run h (s\<lparr>calls := (calls s)(t \<mapsto> (fd, Read_call (Some cap) n, Committing n out (pos + n)))\<rparr>) (ds @ [d]) \<and>
    thread d = t \<and> delivered d = out \<and> result d = n"
proof -
  let ?req = "Read_call (Some cap) n" and ?k = "kern s"
  let ?lk = "?k\<lparr>aesd_device := (aesd_device ?k)\<lparr>buffer_lock := True\<rparr>\<rparr>"
  note ok = run_okD(1) [OF drv_run_ok [OF run]]
  have inv: "dev_inv ?k" using drv_invD(1) [OF ok] free by simp
  have f: "private_data f = AesdDevice" "0 \<le> sint pos"
    using drv_invD(2) [OF ok fd] drv_invD(3) [OF ok t] by (simp_all add: file_ok_def call_ok_def)
  have k: "min (unat n) (length (stored ?k) - unat pos) = unat n" using n(3) by simp
  obtain m where "if unat n \<le> cap then m = unat n else m \<le> cap"
    "aesd_read ?k (Some f) (Some cap) n (Some pos) False =
      Some (if cap < unat n then - EFAULT else word_of_nat (unat n), take m (drop (unat pos) (stored ?k)),
        pos + word_of_nat m, ?k)"
    using aesd_read_run [OF inv f n(1), of cap, unfolded k] by metis
  then have read: "read_locked ?lk cap n pos = Some (n, out, pos + n, ?k)"
    using n(1,2) f lock_free [OF free]
    by (simp add: aesd_read_def mutex_lock_interruptible_def out_def)
  have cs: "((calls s)(t := x))(t := y) = (calls s)(t := y)" for x y by simp
  have "call_turn 0 0 False ?req (Entered pos) f ?k = Some (Done (Queued pos 0, f, ?k))"
    using f n(1) by (simp add: call_turn_def enter_turn_def)
  from drv_turn_run [OF run t fd _ this]
  have r1: "drv_run h (s\<lparr>calls := (calls s)(t \<mapsto> (fd, ?req, Queued pos 0))\<rparr>) ds"
    using fd by (simp add: call_env_def)
  have "call_turn 0 0 False ?req (Queued pos 0) f ?k = Some (Done (Locked pos 0, f, ?lk))"
    using free by (simp add: call_turn_def wait_turn_def lock_free)
  from drv_turn_run [OF r1 _ _ _ , of t fd ?req "Queued pos 0" f 0 0 False "Locked pos 0" f ?lk, simplified] this
  have r2: "drv_run h (s\<lparr>kern := ?lk, files := (files s)(fd \<mapsto> f), calls := (calls s)(t \<mapsto> (fd, ?req, Locked pos 0))\<rparr>) ds"
    using fd by (simp add: call_env_def)
  have "call_turn 0 0 False ?req (Locked pos 0) f ?lk = Some (Done (Committing n out (pos + n), f, ?k))"
    using read by (simp add: call_turn_def locked_turn_def)
  from drv_turn_run [OF r2 _ _ _ , of t fd ?req "Locked pos 0" f 0 0 False "Committing n out (pos + n)" f ?k, simplified] this
  have "drv_run h (s\<lparr>kern := ?k, files := (files s)(fd \<mapsto> f), calls := (calls s)(t \<mapsto> (fd, ?req, Committing n out (pos + n)))\<rparr>)
      (ds @ decides t ?req (Locked pos 0) f (Committing n out (pos + n)) f)"
    by (simp add: call_env_def)
  then show ?thesis using fd by (auto simp: decides_one)
qed

lemma drv_commit:
  "drv_run h s ds \<Longrightarrow> calls s t = Some (fd, req, Committing r out pos) \<Longrightarrow> files s fd = Some f \<Longrightarrow>
   drv_run h (s\<lparr>files := (files s)(fd \<mapsto> commit_pos r pos f), calls := (calls s)(t \<mapsto> (fd, req, Returned r out))\<rparr>) ds"
  using drv_turn_run [of h s ds t fd req "Committing r out pos" f 0 0 False "Returned r out" "commit_pos r pos f" "kern s"]
  by (simp add: call_env_def call_turn_def split: request.splits)

section \<open>Two threads\<close>

text \<open>
  Thread 7 writes a line to file 3: it has allocated and filled its block.  Thread 8 seeks in the
  same file and has taken the mutex.
\<close>

abbreviation hi :: request where
  "hi \<equiv> Write_call (Some [CHR ''h'', CHR ''i'', newline]) 3"

abbreviation rewind :: request where
  "rewind \<equiv> Llseek_call 0 0"

definition hi_k :: kst where
  "hi_k = boot_k\<lparr>val := 1, kheap := [64 \<mapsto> map Some [CHR ''h'', CHR ''i'', newline]]\<rparr>"

definition hi_locked :: kst where
  "hi_locked = hi_k\<lparr>aesd_device := (aesd_device hi_k)\<lparr>buffer_lock := True\<rparr>\<rparr>"

abbreviation two :: "kst \<Rightarrow> (nat \<times> request \<times> stage) option \<Rightarrow> (nat \<times> request \<times> stage) option \<Rightarrow> drv" where
  "two k x y \<equiv> \<lparr>kern = k, files = [3 \<mapsto> new_file], calls = Map.empty(7 := x, 8 := y)\<rparr>"

lemma two_upd [simp]:
  "(Map.empty(7 := x, 8 := y))(7 := z) = (Map.empty(7 := z, 8 := y) :: nat \<rightharpoonup> 'a)"
  by (auto simp: fun_eq_iff)

lemma hi_k_sel [simp]:
  "buffer_lock (aesd_device hi_k) = False" "buffer_lock (aesd_device hi_locked) = True"
  "buffer (aesd_device hi_locked) = buffer (aesd_device boot_k)" "unlocked hi_locked = hi_k"
  by (simp_all add: hi_k_def hi_locked_def boot_k_def zero_dev_def unlocked_def)

lemma two_turn:
  "drv_run h (two k (Some (3, req, sg)) y) ds \<Longrightarrow> call_env a c req sg k \<Longrightarrow>
     call_turn a c intr req sg new_file k = Some (Done (sg', new_file, k')) \<Longrightarrow>
     drv_run h (two k' (Some (3, req, sg')) y) (ds @ decides 7 req sg new_file sg' new_file)"
  "drv_run h (two k x (Some (3, req, sg))) ds \<Longrightarrow> call_env a c req sg k \<Longrightarrow>
     call_turn a c intr req sg new_file k = Some (Done (sg', new_file, k')) \<Longrightarrow>
     drv_run h (two k' x (Some (3, req, sg'))) (ds @ decides 8 req sg new_file sg' new_file)"
  using drv_turn_run [of h "two k (Some (3, req, sg)) y" ds 7 3 req sg new_file a c intr sg' new_file k']
    drv_turn_run [of h "two k x (Some (3, req, sg))" ds 8 3 req sg new_file a c intr sg' new_file k']
  by simp_all

lemma two_start: "drv_run Map.empty (two boot_k None None) []"
proof -
  have "aesd_init_module boot_k no_chrdev (0, 240) 0 =
      Some (0, boot_k, no_chrdev\<lparr>aesd_major := 240, region := True, cdev_live := True\<rparr>)"
    by (simp add: aesd_init_module_def aesd_setup_cdev_def aesd_circular_buffer_init_def zero_dev_def
        ring_start_def boot_k_def Let_def)
  from Drv_start [OF refl _ this] have "drv_run Map.empty \<lparr>kern = boot_k, files = Map.empty, calls = Map.empty\<rparr> []"
    by (simp add: boot_k_def)
  from Drv_step [OF this Open_file [of _ 3]] show ?thesis by (simp add: aesd_open_def fun_upd_idem)
qed

lemma two_queued: "drv_run Map.empty (two hi_k (Some (3, hi, Queued 0 64)) None) []"
proof -
  from drv_call [OF two_start, of 7 3 new_file hi]
  have r1: "drv_run Map.empty (two boot_k (Some (3, hi, Entered 0)) None) []" by simp
  have turn: "call_turn 64 0 False hi (Entered 0) new_file boot_k = Some (Done (Queued 0 64, new_file, hi_k))"
    by (simp add: call_turn_def enter_turn_def kmalloc_def copy_from_user_def mem_write_def hi_k_def boot_k_def Let_def)
  have "call_env 64 0 hi (Entered 0) boot_k"
    by (simp add: call_env_def kmalloc_contract_def boot_k_def kmalloc_max_def)
  then show ?thesis using two_turn(1) [OF r1 _ turn] by simp
qed

lemma two_locked: "drv_run Map.empty (two hi_locked (Some (3, hi, Queued 0 64)) (Some (3, rewind, Locked 0 0))) []"
proof -
  from drv_call [OF two_queued, of 8 3 new_file rewind]
  have r1: "drv_run Map.empty (two hi_k (Some (3, hi, Queued 0 64)) (Some (3, rewind, Entered 0))) []" by simp
  have "call_turn 0 0 False rewind (Entered 0) new_file hi_k = Some (Done (Queued 0 0, new_file, hi_k))"
    by (simp add: call_turn_def enter_turn_def)
  from two_turn(2) [OF r1 _ this]
  have r2: "drv_run Map.empty (two hi_k (Some (3, hi, Queued 0 64)) (Some (3, rewind, Queued 0 0))) []"
    by (simp add: call_env_def)
  have "call_turn 0 0 False rewind (Queued 0 0) new_file hi_k = Some (Done (Locked 0 0, new_file, hi_locked))"
    by (simp add: call_turn_def wait_turn_def lock_free hi_locked_def)
  from two_turn(2) [OF r2 _ this] show ?thesis by (simp add: call_env_def)
qed

text \<open>Thread 7 writes its line undisturbed.\<close>

lemma two_written:
  "\<exists>k ds. drv_run Map.empty (two k None None) ds \<and> commands k = [[CHR ''h'', CHR ''i'', newline]] \<and>
     \<not> buffer_lock (aesd_device k)"
proof -
  have "call_turn 0 0 False hi (Queued 0 64) new_file hi_k = Some (Done (Locked 0 64, new_file, hi_locked))"
    by (simp add: call_turn_def wait_turn_def lock_free hi_locked_def)
  from two_turn(1) [OF two_queued _ this]
  have r1: "drv_run Map.empty (two hi_locked (Some (3, hi, Locked 0 64)) None) []" by (simp add: call_env_def)
  have env: "call_env 0 0 hi (Locked 0 64) hi_locked"
    by (simp add: call_env_def krealloc_contract_def hi_locked_def hi_k_def boot_k_def zero_dev_def kmalloc_max_def)
  obtain sg' f' k where turn: "call_turn 0 0 False hi (Locked 0 64) new_file hi_locked = Some (Done (sg', f', k))"
    and good: "call_good 7 hi (Locked 0 64) new_file hi_locked (sg', f', k)"
    using drv_holder [OF run_okD(1) [OF drv_run_ok [OF r1]], of 7 3 hi "Locked 0 64" 0 0 new_file False] env by auto
  have "mem_read (kheap hi_locked) 64 0 3 = Some [CHR ''h'', CHR ''i'', newline]"
    by (simp add: mem_read_def hi_locked_def hi_k_def)
  then have sg': "sg' = Freeing 3 0 0" "f' = new_file"
    using turn by (auto simp: call_turn_def locked_turn_def write_locked_def hi_locked_def hi_k_def boot_k_def zero_dev_def
        Let_def split: bind_splits)
  have "spec_call (hd (decides 7 hi (Locked 0 64) new_file sg' f')) (abs_dev hi_locked) (abs_dev k)"
    using call_goodD(9) [OF good] by (simp add: sg' decides_one)
  then have k: "commands k = [[CHR ''h'', CHR ''i'', newline]]"
    using boot_inv(2)
    by (auto simp: sg' decides_one spec_call_def spec_write_def push_def abs_dev_def commands_def pending_def hi_locked_def hi_k_def boot_k_def zero_dev_def
        ENOMEM_def ERESTARTSYS_def)
  have free: "\<not> buffer_lock (aesd_device k)" using call_goodD(7) [OF good] by (simp add: sg')
  let ?ds = "decides 7 hi (Locked 0 64) new_file (Freeing 3 0 0) new_file"
  from two_turn(1) [OF r1 env turn [unfolded sg']]
  have r2: "drv_run Map.empty (two k (Some (3, hi, Freeing 3 0 0)) None) ?ds" by simp
  have "call_turn 0 0 False hi (Freeing 3 0 0) new_file k = Some (Done (Committing 3 [] 0, new_file, k))"
    by (simp add: call_turn_def kfree_def)
  from two_turn(1) [OF r2 _ this]
  have "drv_run Map.empty (two k (Some (3, hi, Committing 3 [] 0)) None) ?ds" by (simp add: call_env_def decides_def)
  from drv_commit [OF this, of 7 3 hi 3 "[]" 0 new_file]
  have "drv_run Map.empty (two k (Some (3, hi, Returned 3 [])) None) ?ds" by (simp add: commit_pos_def fun_upd_idem)
  from Drv_step [OF this Return [of _ 7 3 hi 3 "[]"]]
  have "drv_run Map.empty (two k None None) ?ds" by simp
  then show ?thesis using k free by blast
qed

section \<open>Properties\<close>

text \<open>
  C8.  The driver is linearizable.  In any interleaving of any number of calls, the decisions of the
  calls, in the order in which they are made, are an execution of the sequential specification that
  starts from an empty device and ends with its contents: each call returns what the specification
  gives for the contents at its decision, and a call that has returned returned its decision.
\<close>

theorem calls_linearize:
  assumes "drv_run h s ds"
  shows "spec_calls ds ([], []) (abs_dev (kern s)) \<and>
    (\<forall>t fd req r out. calls s t = Some (fd, req, Returned r out) \<longrightarrow>
       (\<exists>pre d post. ds = pre @ d # post \<and> thread d = t \<and> asked d = req \<and> result d = r \<and> delivered d = out \<and>
          (\<forall>e \<in> set post. thread e \<noteq> t)))"
proof -
  note ok = drv_run_ok [OF assms]
  have "\<exists>pre d post. ds = pre @ d # post \<and> thread d = t \<and> asked d = req \<and> result d = r \<and> delivered d = out \<and>
      (\<forall>e \<in> set post. thread e \<noteq> t)" if call: "calls s t = Some (fd, req, Returned r out)" for t fd req r out
  proof -
    obtain pre d post where "ds = pre @ d # post" "thread d = t" "asked d = req" "result d = r" "delivered d = out"
      "t \<notin> thread ` set post"
      using run_okD(3) [OF ok call, of "(r, out)"] by (auto simp: logged_def)
    moreover from this(2,6) have "\<forall>e \<in> set post. thread e \<noteq> t" by (metis imageI)
    ultimately show ?thesis by blast
  qed
  then show ?thesis using run_okD(2) [OF ok] by blast
qed

theorem calls_linearize_witness:
  "\<exists>(s :: drv) ds. calls s 8 = Some (3, rewind, Returned 0 []) \<and> calls s 7 = Some (3, hi, Queued 0 64) \<and>
     spec_calls ds ([], []) (abs_dev (kern s)) \<and> map asked ds = [rewind]"
proof -
  have "length (stored boot_k) = 0" using boot_inv(2) by (simp add: stored_def abs_dev_def)
  then have "foreach_total (buffer (aesd_device boot_k)) = 0"
    using foreach_total_stored(2) [OF boot_inv(1)] by (metis unat_eq_0)
  then have "call_turn 0 0 False rewind (Locked 0 0) new_file hi_locked = Some (Done (Returned 0 [], new_file, unlocked hi_locked))"
    by (simp add: call_turn_def locked_turn_def llseek_locked_def Let_def SEEK_SET_def unlock_held del: hi_k_sel(4))
      (simp add: unlocked_def)
  from two_turn(2) [OF two_locked _ this]
  have run: "drv_run Map.empty (two hi_k (Some (3, hi, Queued 0 64)) (Some (3, rewind, Returned 0 [])))
      (decides 8 rewind (Locked 0 0) new_file (Returned 0 []) new_file)"
    by (simp add: call_env_def)
  from conjunct1 [OF calls_linearize [OF run]] show ?thesis
    by - (rule exI [of _ "two hi_k (Some (3, hi, Queued 0 64)) (Some (3, rewind, Returned 0 []))"],
        rule exI [of _ "decides 8 rewind (Locked 0 0) new_file (Returned 0 []) new_file"], simp add: decides_one)
qed

text \<open>
  C9.  No call is ever stuck.  In any interleaving every turn of a call is defined, or the call
  waits for the mutex, and then another call holds it whose next turn, whatever its environment
  does within its contracts, is defined and releases it.
\<close>

theorem calls_never_stuck:
  assumes "drv_run h s ds" "calls s t = Some (fd, req, sg)" "call_env a c req sg (kern s)"
  shows "\<exists>f res. files s fd = Some f \<and> call_turn a c intr req sg f (kern s) = Some res \<and>
    (res = Blocked \<longrightarrow> (\<exists>u fd' req' sg' f'. u \<noteq> t \<and> calls s u = Some (fd', req', sg') \<and> files s fd' = Some f' \<and>
       (\<forall>a' c' intr'. call_env a' c' req' sg' (kern s) \<longrightarrow>
          (\<exists>sg'' f'' k. call_turn a' c' intr' req' sg' f' (kern s) = Some (Done (sg'', f'', k)) \<and>
             \<not> buffer_lock (aesd_device k)))))"
proof -
  note inv = run_okD(1) [OF drv_run_ok [OF assms(1)]]
  obtain f res where f: "files s fd = Some f" "call_turn a c intr req sg f (kern s) = Some res"
    and good: "case res of Blocked \<Rightarrow> buffer_lock (aesd_device (kern s)) \<and> (\<exists>pos b. sg = Queued pos b) \<and> \<not> (interruptible req \<and> intr)
      | Done r \<Rightarrow> call_good t req sg f (kern s) r"
    using drv_turn [OF inv assms(2,3), of intr] by blast
  then have f3: "buffer_lock (aesd_device (kern s)) \<and> \<not> holding sg" if "res = Blocked" using that by auto
  have "\<exists>u fd' req' sg' f'. u \<noteq> t \<and> calls s u = Some (fd', req', sg') \<and> files s fd' = Some f' \<and>
      (\<forall>a' c' intr'. call_env a' c' req' sg' (kern s) \<longrightarrow>
         (\<exists>sg'' f'' k. call_turn a' c' intr' req' sg' f' (kern s) = Some (Done (sg'', f'', k)) \<and>
            \<not> buffer_lock (aesd_device k)))" if blocked: "res = Blocked"
  proof -
    obtain u fd' req' sg' where u: "calls s u = Some (fd', req', sg')" "holding sg'"
      using drv_invD(5) [OF inv] f3 [OF blocked] by blast
    then have "u \<noteq> t" using assms(2) f3 [OF blocked] by auto
    obtain pos b where sg': "sg' = Locked pos b" using u(2) by (cases sg') auto
    obtain f' where f': "files s fd' = Some f'" using drv_invD(3) [OF inv u(1)] by (auto simp: call_ok_def)
    have "\<exists>sg'' f'' k. call_turn a' c' intr' req' sg' f' (kern s) = Some (Done (sg'', f'', k)) \<and>
        \<not> buffer_lock (aesd_device k)" if env: "call_env a' c' req' sg' (kern s)" for a' c' intr'
    proof -
      obtain sg'' f'' k where turn: "call_turn a' c' intr' req' sg' f' (kern s) = Some (Done (sg'', f'', k))"
        "call_good u req' sg' f' (kern s) (sg'', f'', k)"
        using drv_holder [OF inv u env f'] by blast
      have "\<not> holding sg''"
        using turn(1) by (auto simp: sg' call_turn_def locked_turn_def split: request.splits option.splits bind_splits prod.splits)
      with turn call_goodD(7) [OF turn(2)] u(2) show ?thesis by blast
    qed
    with u(1) \<open>u \<noteq> t\<close> f' show ?thesis by blast
  qed
  with f(1,2) show ?thesis by blast
qed

theorem calls_never_stuck_witness:
  "\<exists>(s :: drv) f res. calls s 7 = Some (3, hi, Queued 0 64) \<and> calls s 8 = Some (3, rewind, Locked 0 0) \<and>
     files s 3 = Some f \<and> call_turn 0 0 False hi (Queued 0 64) f (kern s) = Some res"
  using calls_never_stuck [OF two_locked, of 7 3 hi "Queued 0 64" 0 0 False]
  by (intro exI [of _ "two hi_locked (Some (3, hi, Queued 0 64)) (Some (3, rewind, Locked 0 0))"])
    (auto simp: call_env_def)

text \<open>
  C10.  When no call is in progress the device is valid, and the only memory lost is that of the
  commands it has forgotten: one block for each completed command beyond the tenth, and no
  temporary block of any call, failed or interrupted ones included.
\<close>

theorem calls_lose_only_commands:
  assumes "drv_run h s ds" "calls s = Map.empty"
  shows "dev_inv (kern s) \<and> dom h \<subseteq> stray (kern s) \<and> finite (stray (kern s) - dom h) \<and>
    card (stray (kern s) - dom h) = lines (stored_log ds) - 10"
proof -
  note ok = drv_run_ok [OF assms(1)]
  have "\<not> buffer_lock (aesd_device (kern s))" using drv_invD(5) [OF run_okD(1) [OF ok]] assms(2) by auto
  then have "dev_inv (kern s)" using drv_invD(1) [OF run_okD(1) [OF ok]] by simp
  moreover have "lost s = stray (kern s)" using assms(2) by (simp add: lost_def temps_def)
  ultimately show ?thesis using run_okD(4-6) [OF ok] by simp
qed

theorem calls_lose_only_commands_witness:
  "\<exists>(s :: drv) d. calls s = Map.empty \<and> stray (kern s) = {} \<and> asked d = hi \<and> result d = - ERESTARTSYS \<and>
     drv_run Map.empty s [d]"
proof -
  let ?k = "hi_k\<lparr>kheap := Map.empty\<rparr>" and ?r = "- ERESTARTSYS :: ssize_t"
  have "call_turn 0 0 True hi (Queued 0 64) new_file hi_k = Some (Done (Committing ?r [] 0, new_file, ?k))"
    by (simp add: call_turn_def wait_turn_def kfree_def hi_k_def)
  from two_turn(1) [OF two_queued _ this]
  have r1: "drv_run Map.empty (two ?k (Some (3, hi, Committing ?r [] 0)) None) (decides 7 hi (Queued 0 64) new_file (Committing ?r [] 0) new_file)"
    by (simp add: call_env_def)
  have "call_turn 0 0 True hi (Committing ?r [] 0) new_file ?k = Some (Done (Returned ?r [], new_file, ?k))"
    by (simp add: call_turn_def commit_pos_def)
  from two_turn(1) [OF r1 _ this]
  have r2: "drv_run Map.empty (two ?k (Some (3, hi, Returned ?r [])) None) (decides 7 hi (Queued 0 64) new_file (Committing ?r [] 0) new_file)"
    by (simp add: call_env_def)
  from Drv_step [OF r2 Return [of _ 7 3 hi ?r "[]"]]
  have r3: "drv_run Map.empty (two ?k None None) (decides 7 hi (Queued 0 64) new_file (Committing ?r [] 0) new_file)"
    by simp
  have "stray ?k = {}" using calls_lose_only_commands [OF r3]
    by (auto simp: stored_log_def decides_one stored_by_def)
  with r3 show ?thesis
    by - (rule exI [of _ "two ?k None None"], rule exI, auto simp: decides_one)
qed

text \<open>
  C11.  The mutex does not protect the position of a file.  Two reads of the same open file that
  overlap can both deliver the same bytes, although each is told that it read them, and the
  position then moves by one read only.
\<close>

theorem overlapping_reads_repeat:
  assumes "drv_run h s ds" "calls s t = None" "calls s u = None" "t \<noteq> u" "files s fd = Some f"
    and "\<not> buffer_lock (aesd_device (kern s))" "n \<noteq> 0" "unat n \<le> cap"
    and "unat (f_pos f) + unat n \<le> length (stored (kern s))" "0 \<le> sint n"
  defines "out \<equiv> take (unat n) (drop (unat (f_pos f)) (stored (kern s)))"
  shows "\<exists>s' d e. drv_run h s' (ds @ [d, e]) \<and> thread d = t \<and> thread e = u \<and>
    delivered d = out \<and> delivered e = out \<and>
    calls s' t = Some (fd, Read_call (Some cap) n, Returned n out) \<and>
    calls s' u = Some (fd, Read_call (Some cap) n, Returned n out) \<and>
    files s' fd = Some (f\<lparr>f_pos := f_pos f + n\<rparr>) \<and> kern s' = kern s"
proof -
  let ?req = "Read_call (Some cap) n" and ?p = "f_pos f"
  let ?C = "Some (fd, ?req, Committing n out (?p + n))"
  from drv_call [OF assms(1,2,5)]
  have r1: "drv_run h (s\<lparr>calls := (calls s)(t \<mapsto> (fd, ?req, Entered ?p))\<rparr>) ds" by simp
  from drv_call [OF r1, of u fd f ?req]
  have r2: "drv_run h (s\<lparr>calls := (calls s)(t \<mapsto> (fd, ?req, Entered ?p), u \<mapsto> (fd, ?req, Entered ?p))\<rparr>) ds"
    using assms(3,4,5) by simp
  obtain d where r3: "drv_run h (s\<lparr>calls := (calls s)(u \<mapsto> (fd, ?req, Entered ?p), t := ?C)\<rparr>) (ds @ [d])"
    and d: "thread d = t" "delivered d = out"
    using drv_read [OF r2, of t fd cap n ?p f] assms(4-9) by (auto simp: out_def fun_upd_twist [of t u])
  obtain e where r4: "drv_run h (s\<lparr>calls := (calls s)(t := ?C, u := ?C)\<rparr>) ((ds @ [d]) @ [e])"
    and e: "thread e = u" "delivered e = out"
    using drv_read [OF r3, of u fd cap n ?p f] assms(4-9) by (auto simp: out_def fun_upd_twist [of u t])
  let ?f = "f\<lparr>f_pos := ?p + n\<rparr>"
  have cm: "commit_pos n (?p + n) f = ?f" "commit_pos n (?p + n) ?f = ?f" using assms(10) by (simp_all add: commit_pos_def)
  let ?R = "Some (fd, ?req, Returned n out)"
  from drv_commit [OF r4, of t fd ?req n out "?p + n" f]
  have r5: "drv_run h (s\<lparr>files := (files s)(fd \<mapsto> ?f), calls := (calls s)(u := ?C, t := ?R)\<rparr>) ((ds @ [d]) @ [e])"
    using assms(4,5) by (simp add: cm(1) fun_upd_twist [of t u])
  from drv_commit [OF r5, of u fd ?req n out "?p + n" ?f]
  have "drv_run h (s\<lparr>files := (files s)(fd \<mapsto> ?f), calls := (calls s)(t := ?R, u := ?R)\<rparr>) ((ds @ [d]) @ [e])"
    using assms(4) by (simp add: cm(2) fun_upd_twist [of u t])
  then show ?thesis
    using d e assms(4) by - (rule exI, rule exI [of _ d], rule exI [of _ e], auto)
qed

theorem overlapping_reads_repeat_witness:
  "\<exists>(s :: drv) ds d e. drv_run Map.empty s (ds @ [d, e]) \<and> thread d = 7 \<and> thread e = 8 \<and>
     delivered d = [CHR ''h'', CHR ''i''] \<and> delivered e = [CHR ''h'', CHR ''i''] \<and>
     files s 3 = Some (new_file\<lparr>f_pos := 2\<rparr>)"
proof -
  obtain k ds where k: "drv_run Map.empty (two k None None) ds" "commands k = [[CHR ''h'', CHR ''i'', newline]]"
    "\<not> buffer_lock (aesd_device k)"
    using two_written by blast
  have st: "stored k = [CHR ''h'', CHR ''i'', newline]" using k(2) by (simp add: stored_def)
  have two: "take (unat (2 :: u64)) (drop (unat (f_pos new_file)) (stored k)) = [CHR ''h'', CHR ''i'']"
    by (simp add: st take_Cons')
  from overlapping_reads_repeat [OF k(1), of 7 8 3 new_file 2 64, unfolded two] k(3) show ?thesis
    by (auto simp: st)
qed

end
