(* ===== verification/Libc.thy ===== *)
theory Libc
  imports Aesd_Seek
begin

text \<open>
  What the user-space programs use of the C library: the heap functions on the same blocks as
  the kernel's, C strings in a block, \<^verbatim>\<open>strncmp\<close> against a literal, and the conversion
  \<^verbatim>\<open>%u\<close> of \<^verbatim>\<open>sscanf\<close> as glibc implements it.
\<close>

section \<open>The heap\<close>

text \<open>glibc fails requests above \<^verbatim>\<open>PTRDIFF_MAX\<close>; the address of a new block is an argument.\<close>

definition malloc_contract :: "heap \<Rightarrow> addr \<Rightarrow> u64 \<Rightarrow> bool" where
  "malloc_contract h a n \<longleftrightarrow> (a \<noteq> 0 \<longrightarrow> h a = None \<and> unat n < 2 ^ 63)"

definition malloc :: "heap \<Rightarrow> addr \<Rightarrow> u64 \<Rightarrow> addr \<times> heap" where
  "malloc h a n = (if a = 0 then (0, h) else (a, h(a \<mapsto> replicate (unat n) None)))"

definition calloc :: "heap \<Rightarrow> addr \<Rightarrow> u64 \<Rightarrow> addr \<times> heap" where
  "calloc h a n = (if a = 0 then (0, h) else (a, h(a \<mapsto> replicate (unat n) (Some (CHR 0x00)))))"

definition free :: "heap \<Rightarrow> addr \<Rightarrow> heap option" where
  "free h a = (if a = 0 then Some h else case h a of None \<Rightarrow> None | Some _ \<Rightarrow> Some (h(a := None)))"

text \<open>\<^verbatim>\<open>realloc\<close> of an allocated block to a size that is not zero.\<close>

definition realloc :: "heap \<Rightarrow> addr \<Rightarrow> addr \<Rightarrow> u64 \<Rightarrow> (addr \<times> heap) option" where
  "realloc h p a n =
     (case h p of
        None \<Rightarrow> None
      | Some blk \<Rightarrow>
          if a = 0 then Some (0, h)
          else Some (a, (h(p := None))(a \<mapsto>
                 take (unat n) blk @ replicate (unat n - length blk) None)))"

lemma free_upd [simp]:
  "a \<noteq> 0 \<Longrightarrow> free (h(a \<mapsto> blk)) a = Some (h(a := None))"
  by (simp add: free_def)

lemma mem_write_upd:
  "off + length bs \<le> length blk \<Longrightarrow>
   mem_write (h(a \<mapsto> blk)) a off bs =
     Some (h(a \<mapsto> take off blk @ map Some bs @ drop (off + length bs) blk))"
  by (simp add: mem_write_def)

lemma mem_read_prefix:
  "mem_read (h(a \<mapsto> map Some bs @ rest)) a 0 (length bs) = Some bs"
  by (simp add: mem_read_def)

section \<open>Descriptors\<close>

text \<open>A new descriptor is the lowest free one; Linux allows 1024 by default.\<close>

definition lowest_fd :: "(nat \<rightharpoonup> 'a) \<Rightarrow> nat option" where
  "lowest_fd m = find (\<lambda>i. m i = None) [0..<1024]"

lemma lowest_fd_free: "lowest_fd m = Some fd \<Longrightarrow> m fd = None"
  by (auto simp: lowest_fd_def find_Some_iff)

lemma lowest_fdI: "fd < 1024 \<Longrightarrow> m fd = None \<Longrightarrow> (\<And>i. i < fd \<Longrightarrow> m i \<noteq> None) \<Longrightarrow> lowest_fd m = Some fd"
  by (auto simp: lowest_fd_def find_Some_iff intro!: exI [of _ fd])

section \<open>Signals\<close>

definition SIGINT :: int where "SIGINT = 2"
definition SIGTERM :: int where "SIGTERM = 15"

section \<open>Strings\<close>

text \<open>The string that starts at the first cell; reading past the block or an unwritten cell is undefined.\<close>

fun until_nul :: "block \<Rightarrow> byte list option" where
  "until_nul [] = None"
| "until_nul (None # cells) = None"
| "until_nul (Some c # cells) = (if c = CHR 0x00 then Some [] else map_option ((#) c) (until_nul cells))"

text \<open>Whether \<^verbatim>\<open>strncmp(s, lit, strlen(lit)) == 0\<close>, for a literal without NUL.\<close>

fun strncmp_eq :: "block \<Rightarrow> byte list \<Rightarrow> bool option" where
  "strncmp_eq cells [] = Some True"
| "strncmp_eq [] (x # lit) = None"
| "strncmp_eq (None # cells) (x # lit) = None"
| "strncmp_eq (Some c # cells) (x # lit) = (if c = x then strncmp_eq cells lit else Some False)"

text \<open>On a buffer that holds some bytes and a terminating NUL both are defined.\<close>

lemma until_nul_bytes:
  "until_nul (map Some bs @ Some (CHR 0x00) # rest) = Some (takeWhile (\<lambda>c. c \<noteq> CHR 0x00) bs)"
  by (induction bs) auto

lemma strncmp_eq_bytes:
  "CHR 0x00 \<notin> set lit \<Longrightarrow>
   strncmp_eq (map Some bs @ Some (CHR 0x00) # rest) lit = Some (take (length lit) bs = lit)"
proof (induction bs arbitrary: lit)
  case Nil
  then show ?case by (cases lit) auto
next
  case (Cons b bs)
  then show ?case by (cases lit) auto
qed

section \<open>\<open>sscanf\<close>\<close>

definition is_space :: "byte \<Rightarrow> bool" where
  "is_space c \<longleftrightarrow> c = CHR '' '' \<or> 9 \<le> (of_char c :: nat) \<and> (of_char c :: nat) \<le> 13"

definition is_digit :: "byte \<Rightarrow> bool" where
  "is_digit c \<longleftrightarrow> 48 \<le> (of_char c :: nat) \<and> (of_char c :: nat) \<le> 57"

definition digit_val :: "byte \<Rightarrow> nat" where
  "digit_val c = of_char c - 48"

fun scan_digits :: "nat \<Rightarrow> byte list \<Rightarrow> nat \<times> byte list" where
  "scan_digits n [] = (n, [])"
| "scan_digits n (c # cs) = (if is_digit c then scan_digits (10 * n + digit_val c) cs else (n, c # cs))"

text \<open>
  \<^verbatim>\<open>%u\<close>: white space, an optional sign and decimal digits, converted by \<^verbatim>\<open>strtoul\<close>, which
  negates after a minus sign and saturates at \<^verbatim>\<open>ULONG_MAX\<close>, and stored in 32 bits.
\<close>

definition scan_u :: "byte list \<Rightarrow> (u32 \<times> byte list) option" where
  "scan_u s =
     (let s1 = dropWhile is_space s;
          neg = (s1 \<noteq> [] \<and> hd s1 = CHR ''-'');
          s2 = (if s1 \<noteq> [] \<and> (hd s1 = CHR ''-'' \<or> hd s1 = CHR ''+'') then tl s1 else s1) in
      if s2 = [] \<or> \<not> is_digit (hd s2) then None
      else let (n, rest) = scan_digits 0 s2 in
        Some (if 2 ^ 64 \<le> n then - 1 else if neg then - word_of_nat n else word_of_nat n, rest))"

text \<open>Decimal notation, to state what \<open>scan_u\<close> reads back.\<close>

fun decimal :: "nat \<Rightarrow> byte list" where
  "decimal n = (if n < 10 then [char_of (48 + n)] else decimal (n div 10) @ [char_of (48 + n mod 10)])"

declare decimal.simps [simp del]

lemma digit_char [simp]:
  assumes "d < 10"
  shows "is_digit (char_of (48 + d))" "digit_val (char_of (48 + d)) = d"
proof -
  have "(of_char (char_of (48 + d) :: char) :: nat) = 48 + d" using assms by simp
  then show "is_digit (char_of (48 + d))" "digit_val (char_of (48 + d)) = d"
    using assms by (simp_all add: is_digit_def digit_val_def)
qed

lemma decimal_digits: "\<forall>c \<in> set (decimal n). is_digit c"
proof (induction n rule: decimal.induct)
  case (1 n)
  then show ?case by (subst decimal.simps) auto
qed

lemma decimal_nonempty: "decimal n \<noteq> []"
  by (subst decimal.simps) simp

lemma scan_digits_append:
  "\<forall>c \<in> set ds. is_digit c \<Longrightarrow>
   scan_digits a (ds @ rest) = scan_digits (foldl (\<lambda>v c. 10 * v + digit_val c) a ds) rest"
  by (induction ds arbitrary: a) auto

lemma decimal_value: "foldl (\<lambda>v c. 10 * v + digit_val c) 0 (decimal n) = n"
proof (induction n rule: decimal.induct)
  case (1 n)
  then show ?case by (subst decimal.simps) auto
qed

lemma scan_decimal:
  assumes "rest = [] \<or> \<not> is_digit (hd rest)"
  shows "scan_digits 0 (decimal n @ rest) = (n, rest)"
proof -
  have "scan_digits 0 (decimal n @ rest) = scan_digits n rest"
    using scan_digits_append [OF decimal_digits] decimal_value by simp
  also have "\<dots> = (n, rest)" using assms by (cases rest) auto
  finally show ?thesis .
qed

lemma digit_not_special: "is_digit c \<Longrightarrow> \<not> is_space c \<and> c \<noteq> CHR ''-'' \<and> c \<noteq> CHR ''+''"
  by (auto simp: is_digit_def is_space_def)

lemma scan_u_decimal:
  assumes "rest = [] \<or> \<not> is_digit (hd rest)"
  shows "scan_u (decimal (unat a) @ rest) = Some (a, rest)"
proof -
  obtain c cs where c: "decimal (unat a) = c # cs" using decimal_nonempty by (cases "decimal (unat a)") auto
  then have d: "is_digit c" using decimal_digits [of "unat a"] by auto
  have lt: "unat a < 2 ^ 64" using unsigned_less [of a, where 'a = nat] by simp
  have "scan_digits 0 (c # cs @ rest) = (unat a, rest)" using scan_decimal [OF assms, of "unat a"] c by simp
  then show ?thesis using d digit_not_special [OF d] lt by (simp add: scan_u_def c Let_def)
qed

end
