(* ===== verification/Char_Device.thy ===== *)
theory Char_Device
  imports Aesd_System Libc
begin

text \<open>
  What the server relies on of the device behind its file descriptor: four operations with the
  types the system calls give them, as a record the server's definitions are parameterised by,
  and their laws as the locales \<open>byte_file\<close> and \<open>char_device\<close>.  The driver is shown to satisfy the
  laws by the interpretation \<open>aesdchar\<close>.
\<close>

section \<open>The interface\<close>

text \<open>
  \<open>'d\<close> is the state of the device, \<open>'f\<close> that of an open file, \<open>'e\<close> what a write depends on
  besides its arguments.  Results are the values of the system calls, negative for an error.
\<close>

record ('d, 'f, 'e) dev_ops =
  dev_open :: "'d \<Rightarrow> 'f \<times> 'd"
  dev_write :: "'e \<Rightarrow> 'd \<Rightarrow> 'f \<Rightarrow> byte list \<Rightarrow> (int \<times> 'f \<times> 'd) option"
  dev_read :: "bool \<Rightarrow> 'd \<Rightarrow> 'f \<Rightarrow> nat \<Rightarrow> (int \<times> byte list \<times> 'f \<times> 'd) option"
  dev_ioctl :: "'d \<Rightarrow> 'f \<Rightarrow> u32 \<Rightarrow> aesd_seekto \<Rightarrow> (int \<times> 'f \<times> 'd) option"

text \<open>Linux transfers at most \<^verbatim>\<open>MAX_RW_COUNT\<close> bytes in a read or write.\<close>

definition max_rw_count :: nat where
  "max_rw_count = 0x7ffff000"

definition seek_ok :: "byte list list \<Rightarrow> aesd_seekto \<Rightarrow> bool" where
  "seek_ok cs s \<longleftrightarrow>
     unat (write_cmd s) < length cs \<and> unat (write_cmd_offset s) < length (cs ! unat (write_cmd s))"

definition seek_pos :: "byte list list \<Rightarrow> aesd_seekto \<Rightarrow> nat" where
  "seek_pos cs s = length (concat (take (unat (write_cmd s)) cs)) + unat (write_cmd_offset s)"

text \<open>
  The server needs less to send a reply than to store a line: a file whose \<open>bytes\<close> are read one
  after the other from its position on.
\<close>

locale byte_file =
  fixes ops :: "('d, 'f, 'e) dev_ops"
    and inv :: "'d \<Rightarrow> bool"
    and fok :: "'f \<Rightarrow> bool"
    and fpos :: "'f \<Rightarrow> nat"
    and bytes :: "'d \<Rightarrow> byte list"
  assumes open_spec: "inv d \<Longrightarrow> \<exists>f. dev_open ops d = (f, d) \<and> fok f \<and> fpos f = 0"
    and read_spec: "inv d \<Longrightarrow> fok f \<Longrightarrow> 0 < n \<Longrightarrow> n \<le> max_rw_count \<Longrightarrow>
      \<exists>r out f'. dev_read ops intr d f n = Some (r, out, f', d) \<and> fok f' \<and>
        (if intr then r < 0 \<and> out = [] \<and> f' = f
         else out = take n (drop (fpos f) (bytes d)) \<and> r = int (length out) \<and> fpos f' = fpos f + length out)"

text \<open>The device keeps commands besides, and can seek to a byte of one of them.\<close>

locale char_device = byte_file ops inv fok fpos "\<lambda>d. concat (fst (content d))"
  for ops :: "('d, 'f, 'e) dev_ops"
    and inv :: "'d \<Rightarrow> bool"
    and fok :: "'f \<Rightarrow> bool"
    and env_ok :: "'e \<Rightarrow> 'd \<Rightarrow> byte list \<Rightarrow> bool"
    and env_good :: "'e \<Rightarrow> bool"
    and content :: "'d \<Rightarrow> byte list list \<times> byte list"
    and fpos :: "'f \<Rightarrow> nat" +
  assumes write_spec: "inv d \<Longrightarrow> fok f \<Longrightarrow> env_ok e d data \<Longrightarrow> data \<noteq> [] \<Longrightarrow>
      \<exists>r f' d'. dev_write ops e d f data = Some (r, f', d') \<and> inv d' \<and> fok f' \<and>
        (env_good e \<longrightarrow> 0 < r) \<and>
        (if 0 < r then r = int (min (length data) max_rw_count) \<and>
           content d' = spec_write (take max_rw_count data) (content d)
         else r < 0 \<and> content d' = content d)"
    and ioctl_spec: "inv d \<Longrightarrow> fok f \<Longrightarrow>
      \<exists>r f'. dev_ioctl ops d f AESDCHAR_IOCSEEKTO s = Some (r, f', d) \<and> fok f' \<and>
        (if seek_ok (fst (content d)) s then r = 0 \<and> fpos f' = seek_pos (fst (content d)) s
         else r < 0 \<and> f' = f)"

section \<open>The driver provides it\<close>

text \<open>What a write depends on: the results of its two allocations, and whether a signal is pending.\<close>

type_synonym write_env = "addr \<times> addr \<times> bool"

definition aesd_ops :: "(kst, file_t, write_env) dev_ops" where
  "aesd_ops =
     \<lparr>dev_open = (\<lambda>k. (snd (aesd_open AesdDevice \<lparr>f_pos = 0, private_data = NullDev\<rparr>), k)),
      dev_write = (\<lambda>(a, c, intr) k f data.
        map_option (\<lambda>(r, k'). (sint r, commit_pos r (f_pos f) f, k'))
          (aesd_write k (Some f) (Some data) (word_of_nat (min (length data) max_rw_count))
             (Some (f_pos f)) a c intr)),
      dev_read = (\<lambda>intr k f n.
        map_option (\<lambda>(r, out, pos, k'). (sint r, out, commit_pos r pos f, k'))
          (aesd_read k (Some f) (Some n) (word_of_nat (min n max_rw_count)) (Some (f_pos f)) intr)),
      dev_ioctl = (\<lambda>k f cmd s.
        map_option (\<lambda>(r, f', k'). (sint r, f', k')) (aesd_unlocked_ioctl k f cmd (Some s)))\<rparr>"

definition aesd_env_ok :: "write_env \<Rightarrow> kst \<Rightarrow> byte list \<Rightarrow> bool" where
  "aesd_env_ok = (\<lambda>(a, c, intr) k data.
     write_alloc_contract k (word_of_nat (min (length data) max_rw_count)) a c)"

definition aesd_env_good :: "write_env \<Rightarrow> bool" where
  "aesd_env_good = (\<lambda>(a, c, intr). a \<noteq> 0 \<and> c \<noteq> 0 \<and> \<not> intr)"

lemma unat_rw_count: "unat (word_of_nat (min n max_rw_count) :: u64) = min n max_rw_count"
  by (intro unat_of_nat_le) (simp add: max_rw_count_def min_def)

lemma driver_open:
  "\<exists>f. dev_open aesd_ops k = (f, k) \<and> file_ok f \<and> unat (f_pos f) = 0"
  by (simp add: aesd_ops_def aesd_open_def file_ok_def)

lemma driver_write:
  assumes "dev_inv k" "file_ok f" "aesd_env_ok e k data" "data \<noteq> []"
  shows "\<exists>r f' k'. dev_write aesd_ops e k f data = Some (r, f', k') \<and> dev_inv k' \<and> file_ok f' \<and>
    (aesd_env_good e \<longrightarrow> 0 < r) \<and>
    (if 0 < r then r = int (min (length data) max_rw_count) \<and>
       abs_dev k' = spec_write (take max_rw_count data) (abs_dev k)
     else r < 0 \<and> abs_dev k' = abs_dev k)"
proof -
  obtain a c intr where e: "e = (a, c, intr)" by (cases e)
  define n where "n = (word_of_nat (min (length data) max_rw_count) :: u64)"
  have n: "unat n = min (length data) max_rw_count" unfolding n_def by (rule unat_rw_count)
  have tk: "take (unat n) data = take max_rw_count data" by (auto simp: n min_def)
  have sn: "sint n = int (min (length data) max_rw_count)"
    unfolding n_def by (rule sint_word_of_nat) (simp add: max_rw_count_def min_def)
  have al: "write_alloc_contract k n a c" using assms(3) by (simp add: aesd_env_ok_def e n_def)
  obtain r k' where run: "aesd_write k (Some f) (Some data) n (Some (f_pos f)) a c intr = Some (r, k')"
    and out: "stored_all k (Some data) n r k' \<or> r \<in> write_errors \<and> unchanged_write k k'"
    using aesd_write_outcome [OF assms(1) al] by blast
  have good: "0 < sint r" if "aesd_env_good e"
  proof -
    have "n \<noteq> 0" using n assms(4) by (auto simp: max_rw_count_def min_def split: if_splits)
    then have "\<exists>k'. aesd_write k (Some f) (Some data) n (Some (f_pos f)) a c False = Some (n, k')"
      using aesd_write_success [OF assms(1) _ _ _ _ al, of f "f_pos f" data] assms(2) that n
      by (auto simp: aesd_env_good_def e file_ok_def)
    then have "r = n" using run that by (auto simp: aesd_env_good_def e)
    moreover have "0 < sint n" using sn assms(4) by (simp add: max_rw_count_def min_def)
    ultimately show ?thesis by simp
  qed
  have "dev_write aesd_ops e k f data = Some (sint r, f, k')"
    using run assms(2) by (simp add: aesd_ops_def e n_def commit_pos_def)
  moreover have "dev_inv k'" by (rule aesd_write_inv [OF assms(1) al run])
  moreover have "if 0 < sint r then sint r = int (min (length data) max_rw_count) \<and>
      abs_dev k' = spec_write (take max_rw_count data) (abs_dev k)
    else sint r < 0 \<and> abs_dev k' = abs_dev k"
    using out write_errors_negative [of r] tk sn
    by (auto simp: stored_all_def write_effect_def unchanged_write_keeps)
  ultimately show ?thesis using good assms(2) by blast
qed

lemma driver_read:
  assumes "dev_inv k" "file_ok f" "0 < n" "n \<le> max_rw_count"
  shows "\<exists>r out f'. dev_read aesd_ops intr k f n = Some (r, out, f', k) \<and> file_ok f' \<and>
    (if intr then r < 0 \<and> out = [] \<and> f' = f
     else out = take n (drop (unat (f_pos f)) (concat (fst (abs_dev k)))) \<and> r = int (length out) \<and>
       unat (f_pos f') = unat (f_pos f) + length out)"
proof -
  have f: "private_data f = AesdDevice" "0 \<le> sint (f_pos f)" using assms(2) by (simp_all add: file_ok_def)
  define m where "m = (word_of_nat (min n max_rw_count) :: u64)"
  have m: "unat m = n" unfolding m_def unat_rw_count using assms(4) by simp
  then have m0: "m \<noteq> 0" using assms(3) by auto
  obtain r out pos k' where run: "aesd_read k (Some f) (Some n) m (Some (f_pos f)) intr = Some (r, out, pos, k')"
    using read_file.unchanged [OF assms(1), of "(f, Some n, m, f_pos f, intr)"] f by (auto simp: read_op_def)
  have k': "k' = k" "file_ok (commit_pos r pos f)" using read_step [OF assms(1,2) run] by auto
  have d: "dev_read aesd_ops intr k f n = Some (sint r, out, commit_pos r pos f, k)"
    using run k' by (simp add: aesd_ops_def m_def)
  show ?thesis
  proof (cases intr)
    case True
    then have "r = - ERESTARTSYS \<and> out = []"
      using run f m0 by (auto simp: aesd_read_defs mutex_lock_interruptible_def split: if_splits)
    then show ?thesis using d k'(2) True by (auto simp: commit_pos_def)
  next
    case False
    then obtain "out = take (unat m) (drop (unat (f_pos f)) (stored k))" "sint r = int (length out)"
        "sint pos = sint (f_pos f) + int (length out)"
      using aesd_read_delivered [OF assms(1) f m0, of n] run m by auto
    moreover from this have "unat pos = unat (f_pos f) + length out"
      using sint_nonneg_unat(2) [of pos] sint_nonneg_unat(2) [OF f(2)] f(2)
      by (metis add_nonneg_nonneg of_nat_0_le_iff of_nat_add of_nat_eq_iff)
    ultimately show ?thesis using d k'(2) False m by (auto simp: commit_pos_def abs_dev_def stored_def)
  qed
qed

lemma driver_ioctl:
  assumes "dev_inv k" "file_ok f"
  shows "\<exists>r f'. dev_ioctl aesd_ops k f AESDCHAR_IOCSEEKTO s = Some (r, f', k) \<and> file_ok f' \<and>
    (if seek_ok (fst (abs_dev k)) s then r = 0 \<and> unat (f_pos f') = seek_pos (fst (abs_dev k)) s
     else r < 0 \<and> f' = f)"
proof -
  have f: "private_data f = AesdDevice" using assms(2) by (simp add: file_ok_def)
  have so: "seek_ok (fst (abs_dev k)) s = seek_valid k s" "seek_pos (fst (abs_dev k)) s = seek_offset k s"
    by (simp_all add: seek_ok_def seek_valid_def seek_pos_def seek_offset_def abs_dev_def)
  have "unat (word_of_nat (seek_offset k s) :: u64) = seek_offset k s" if "seek_valid k s"
    using seek_offset_bound [OF that] ring_bytes_small(2) [OF assms(1)] length_stored [OF assms(1)]
    by (intro unat_of_nat_le) simp
  then show ?thesis
    using aesd_ioctl_run [OF assms(1) f, of s] ioctl_step [OF assms, of AESDCHAR_IOCSEEKTO "Some s"]
    unfolding so by (auto simp: aesd_ops_def)
qed

interpretation aesdchar: char_device aesd_ops dev_inv file_ok aesd_env_ok aesd_env_good abs_dev
  "\<lambda>f. unat (f_pos f)"
proof
  show "\<exists>f. dev_open aesd_ops d = (f, d) \<and> file_ok f \<and> unat (f_pos f) = 0" for d by (rule driver_open)
qed (rule driver_write driver_read driver_ioctl; assumption)+

end
