(* ===== verification/Socket_Receive.thy ===== *)
theory Socket_Receive
  imports Libc
begin

text \<open>
  The receiving loop of \<^verbatim>\<open>send_rcv_socket_data\<close> in \<^verbatim>\<open>server/aesdsocket.c\<close>: it collects what
  the client sends in a buffer that is doubled when it is full, until the buffer contains a
  newline.  The buffer is a block of the heap, so writing beyond it is undefined, and a leaked
  or twice freed buffer shows in the resulting heap.
\<close>

section \<open>The socket\<close>

text \<open>
  What happens at the client's end, in order: data arriving, the connection being closed, an
  error (a signal among them).  When the list ends nothing more ever happens.
\<close>

datatype recv_event = Data "byte list" | PeerClosed | RecvError

text \<open>
  \<^verbatim>\<open>recv\<close> with room for \<open>n\<close> bytes: \<open>None\<close> when it never returns, else the bytes received
  (\<open>None\<close> for a return value of \<open>-1\<close>, no bytes for \<open>0\<close>) and what is still to come.
\<close>

fun recv :: "nat \<Rightarrow> recv_event list \<Rightarrow> (byte list option \<times> recv_event list) option" where
  "recv n [] = None"
| "recv n (Data c # evs) =
     (if length c \<le> n then Some (Some c, evs) else Some (Some (take n c), Data (drop n c) # evs))"
| "recv n (PeerClosed # evs) = Some (Some [], PeerClosed # evs)"
| "recv n (RecvError # evs) = Some (None, evs)"

text \<open>The bytes the client gets across before its first failure.\<close>

fun arriving :: "recv_event list \<Rightarrow> byte list" where
  "arriving (Data c # evs) = (if c = [] then [] else c @ arriving evs)"
| "arriving _ = []"

fun weight :: "recv_event \<Rightarrow> nat" where
  "weight (Data c) = Suc (length c)"
| "weight _ = 1"

lemma recv_None: "recv n evs = None \<longleftrightarrow> evs = []"
  by (induction n evs rule: recv.induct) auto

lemma recv_stops:
  "recv n evs = Some (None, evs') \<or> recv n evs = Some (Some [], evs') \<Longrightarrow> 0 < n \<Longrightarrow> arriving evs = []"
  by (induction n evs rule: recv.induct) (auto split: if_splits)

lemma recv_weight:
  "recv n evs = Some (Some c, evs') \<Longrightarrow> c \<noteq> [] \<Longrightarrow>
   sum_list (map weight evs') < sum_list (map weight evs)"
  by (induction n evs rule: recv.induct) (auto split: if_splits)

lemma recv_arriving:
  "recv n evs = Some (Some c, evs') \<Longrightarrow> c \<noteq> [] \<Longrightarrow> length c \<le> n \<and> arriving evs = c @ arriving evs'"
  by (induction n evs rule: recv.induct) (auto split: if_splits)

section \<open>The loop\<close>

definition CLIENT_BUFFER_LEN :: u64 where
  "CLIENT_BUFFER_LEN = 1024"

text \<open>
  How the loop ends: with a line in the buffer (its address, \<^verbatim>\<open>total_received\<close> and the heap),
  with the buffer freed and \<^verbatim>\<open>-1\<close>, or waiting for ever.  \<open>ra\<close> gives the address
  \<^verbatim>\<open>realloc\<close> returns for a size.
\<close>

datatype recv_exit = Complete addr u64 heap | Gave_up heap | Waiting

function recv_loop ::
  "(u64 \<Rightarrow> addr) \<Rightarrow> heap \<Rightarrow> addr \<Rightarrow> u64 \<Rightarrow> u64 \<Rightarrow> recv_event list \<Rightarrow> recv_exit option" where
  "recv_loop ra h client_buffer total_received current_size evs =
     (case recv (unat (current_size - total_received - 1)) evs of
        None \<Rightarrow> Some Waiting
      | Some (None, evs') \<Rightarrow> map_option Gave_up (free h client_buffer)
      | Some (Some received, evs') \<Rightarrow>
          if received = [] then map_option Gave_up (free h client_buffer)
          else do {
            h1 \<leftarrow> mem_write h client_buffer (unat total_received) received;
            let total = total_received + word_of_nat (length received);
            h2 \<leftarrow> mem_write h1 client_buffer (unat total) [CHR 0x00];
            bytes \<leftarrow> mem_read h2 client_buffer 0 (unat total);
            if memchr bytes newline \<noteq> None then Some (Complete client_buffer total h2)
            else if total \<ge> current_size - 1 then do {
              let new_size = current_size * 2;
              (new_buffer, h3) \<leftarrow> realloc h2 client_buffer (ra new_size) new_size;
              if new_buffer = 0 then map_option Gave_up (free h3 client_buffer)
              else recv_loop ra h3 new_buffer total new_size evs'
            }
            else recv_loop ra h2 client_buffer total current_size evs'
          })"
  by pat_completeness auto
termination
  by (relation "measure (\<lambda>(ra, h, p, t, s, evs). sum_list (map weight evs))") (auto dest: recv_weight)

declare recv_loop.simps [simp del]

section \<open>What it does\<close>

text \<open>
  Besides what was on the heap before there is one block, of the given size, which starts with
  the bytes \<open>bs\<close>.
\<close>

definition buffer_at :: "heap \<Rightarrow> addr \<Rightarrow> nat \<Rightarrow> byte list \<Rightarrow> heap \<Rightarrow> bool" where
  "buffer_at h0 p n bs h \<longleftrightarrow>
     p \<noteq> 0 \<and> h0 p = None \<and>
     (\<exists>rest. h = h0(p \<mapsto> map Some bs @ rest) \<and> length bs + length rest = n)"

lemma buffer_free: "buffer_at h0 p n bs h \<Longrightarrow> free h p = Some h0"
  by (auto simp: buffer_at_def fun_upd_idem)

text \<open>Storing \<open>c\<close> behind the bytes received so far, and a NUL behind that.\<close>

lemma buffer_store:
  assumes "buffer_at h0 p n bs h" "length bs + length c < n"
  obtains h1 h2 rest where "mem_write h p (length bs) c = Some h1"
    "mem_write h1 p (length bs + length c) [CHR 0x00] = Some h2"
    "h2 = h0(p \<mapsto> map Some (bs @ c) @ Some (CHR 0x00) # rest)"
    "length bs + length c + 1 + length rest = n"
proof -
  obtain rest where r: "h = h0(p \<mapsto> map Some bs @ rest)" "length bs + length rest = n"
    using assms(1) by (auto simp: buffer_at_def)
  have w1: "mem_write h p (length bs) c = Some (h0(p \<mapsto> map Some (bs @ c) @ drop (length c) rest))"
    unfolding r(1) using assms(2) r(2) by (subst mem_write_upd) auto
  moreover have "mem_write (h0(p \<mapsto> map Some (bs @ c) @ drop (length c) rest)) p (length bs + length c)
      [CHR 0x00] = Some (h0(p \<mapsto> map Some (bs @ c) @ Some (CHR 0x00) # drop (Suc (length c)) rest))"
    using assms(2) r(2) by (subst mem_write_upd) auto
  moreover have "length bs + length c + 1 + length (drop (Suc (length c)) rest) = n"
    using assms(2) r(2) by simp
  ultimately show ?thesis using that by blast
qed

lemma buffer_after_store:
  assumes "buffer_at h0 p n bs h"
    "h2 = h0(p \<mapsto> map Some (bs @ c) @ Some (CHR 0x00) # rest)" "length bs + length c + 1 + length rest = n"
  shows "buffer_at h0 p n (bs @ c) h2"
  using assms unfolding buffer_at_def by (intro conjI exI [of _ "Some (CHR 0x00) # rest"]) auto

text \<open>Doubling keeps the contents, wherever the block ends up.\<close>

lemma buffer_realloc:
  assumes "buffer_at h0 p n bs h" "a \<noteq> 0" "h0 a = None" "n \<le> unat m"
  obtains h' where "realloc h p a m = Some (a, h')" "buffer_at h0 a (unat m) bs h'"
proof -
  obtain rest where r: "h = h0(p \<mapsto> map Some bs @ rest)" "length bs + length rest = n" "h0 p = None"
    using assms(1) by (auto simp: buffer_at_def)
  let ?blk = "map Some bs @ rest @ replicate (unat m - n) None"
  have "realloc h p a m = Some (a, h0(a \<mapsto> ?blk))"
    using assms(2,4) r by (simp add: realloc_def fun_upd_idem)
  moreover have "buffer_at h0 a (unat m) bs (h0(a \<mapsto> ?blk))"
    using assms r(2) by (auto simp: buffer_at_def)
  ultimately show ?thesis using that by blast
qed

text \<open>
  The result of the loop entered with \<open>bs\<close> in the buffer, when \<open>inp\<close> is what arrives: on
  completion the buffer holds everything received up to and including the piece with the first
  newline, terminated by a NUL; giving up leaves the heap as it was before the buffer was
  allocated, and happens with a newline on its way only if memory runs out; the loop waits for
  ever only if no newline ever arrives.
\<close>

definition got_line :: "heap \<Rightarrow> byte list \<Rightarrow> byte list \<Rightarrow> addr \<Rightarrow> u64 \<Rightarrow> heap \<Rightarrow> bool" where
  "got_line h0 bs inp p m h \<longleftrightarrow> p \<noteq> 0 \<and> h0 p = None \<and>
     (\<exists>front tail rest later. h = h0(p \<mapsto> map Some (bs @ front @ tail) @ Some (CHR 0x00) # rest) \<and>
        unat m = length (bs @ front @ tail) \<and> inp = front @ tail @ later \<and>
        newline \<notin> set front \<and> newline \<in> set tail)"

definition recv_post :: "(u64 \<Rightarrow> addr) \<Rightarrow> heap \<Rightarrow> byte list \<Rightarrow> byte list \<Rightarrow> recv_exit \<Rightarrow> bool" where
  "recv_post ra h0 bs inp r =
     (case r of
        Waiting \<Rightarrow> newline \<notin> set inp
      | Gave_up h \<Rightarrow> h = h0 \<and>
          (newline \<in> set inp \<longrightarrow> (\<exists>n. ra n = 0 \<and> unat n \<le> 2 * (length bs + length inp)))
      | Complete p m h \<Rightarrow> got_line h0 bs inp p m h)"

lemma got_lineI:
  assumes "p \<noteq> 0" "h0 p = None" "h = h0(p \<mapsto> map Some (bs @ front @ tail) @ Some (CHR 0x00) # rest)"
    "unat m = length (bs @ front @ tail)" "inp = front @ tail @ later"
    "newline \<notin> set front" "newline \<in> set tail"
  shows "got_line h0 bs inp p m h"
  unfolding got_line_def using assms by blast

lemma got_line_step:
  assumes "got_line h0 (bs @ c) inp p m h" "newline \<notin> set c"
  shows "got_line h0 bs (c @ inp) p m h"
proof -
  obtain front tail rest later where g:
    "h = h0(p \<mapsto> map Some ((bs @ c) @ front @ tail) @ Some (CHR 0x00) # rest)"
    "unat m = length ((bs @ c) @ front @ tail)" "inp = front @ tail @ later"
    "newline \<notin> set front" "newline \<in> set tail" "p \<noteq> 0" "h0 p = None"
    using assms(1) by (auto simp: got_line_def)
  show ?thesis
    by (rule got_lineI [of p h0 h bs "c @ front" tail rest m _ later]) (use g assms(2) in simp_all)
qed

lemma recv_post_step:
  assumes "recv_post ra h0 (bs @ c) inp r" "newline \<notin> set c"
  shows "recv_post ra h0 bs (c @ inp) r"
  using assms got_line_step [of h0 bs c inp]
  by (cases r) (auto simp: recv_post_def add.assoc)

definition realloc_contract :: "(u64 \<Rightarrow> addr) \<Rightarrow> heap \<Rightarrow> bool" where
  "realloc_contract ra h0 \<longleftrightarrow> (\<forall>n. malloc_contract h0 (ra n) n)"

definition grown ::
  "(u64 \<Rightarrow> addr) \<Rightarrow> heap \<Rightarrow> addr \<Rightarrow> u64 \<Rightarrow> u64 \<Rightarrow> recv_event list \<Rightarrow> recv_exit option" where
  "grown ra h p n t evs = do {
     (new_buffer, h') \<leftarrow> realloc h p (ra (n * 2)) (n * 2);
     if new_buffer = 0 then map_option Gave_up (free h' p) else recv_loop ra h' new_buffer t (n * 2) evs
   }"

text \<open>A round in which bytes arrive, and what becomes of the buffer when it is full.\<close>

lemma recv_round:
  assumes buf: "buffer_at h0 p (unat n) bs h" and t: "length bs = unat t" "unat t + 1 < unat n" "unat n < 2 ^ 63"
    and nl: "newline \<notin> set bs" and rc: "recv (unat (n - t - 1)) evs = Some (Some c, evs')" "c \<noteq> []"
  obtains t' h' rest where "unat t' = length (bs @ c)" "buffer_at h0 p (unat n) (bs @ c) h'" "length (bs @ c) < unat n"
    "h' = h0(p \<mapsto> map Some (bs @ c) @ Some (CHR 0x00) # rest)"
    "recv_loop ra h p t n evs =
       (if newline \<in> set c then Some (Complete p t' h')
        else if length (bs @ c) + 1 < unat n then recv_loop ra h' p t' n evs'
        else grown ra h' p n t' evs')"
proof -
  have room: "unat (n - t - 1) = unat n - unat t - 1"
    using t(2) by (subst unat_minus_small; subst unat_minus_small; simp)
  have len: "length bs + length c < unat n"
    using conjunct1 [OF recv_arriving [OF rc]] t(1,2) unfolding room by linarith
  obtain h1 h2 rest where st: "mem_write h p (length bs) c = Some h1"
    "mem_write h1 p (length bs + length c) [CHR 0x00] = Some h2"
    "h2 = h0(p \<mapsto> map Some (bs @ c) @ Some (CHR 0x00) # rest)"
    "length bs + length c + 1 + length rest = unat n"
    by (rule buffer_store [OF buf len])
  let ?t = "t + word_of_nat (length c)"
  have "unat (word_of_nat (length c) :: u64) = length c" using len t(3) by (intro unat_of_nat_le) simp
  then have t': "unat ?t = length (bs @ c)" using len t(1,3) by (subst unat_plus_small) simp_all
  have rd: "mem_read h2 p 0 (length (bs @ c)) = Some (bs @ c)" unfolding st(3) by (rule mem_read_prefix)
  have cmp: "n - 1 \<le> ?t \<longleftrightarrow> \<not> length (bs @ c) + 1 < unat n"
    using t(2) t' by (auto simp: word_le_nat_alt unat_minus_small)
  have "recv_loop ra h p t n evs =
       (if newline \<in> set c then Some (Complete p ?t h2)
        else if length (bs @ c) + 1 < unat n then recv_loop ra h2 p ?t n evs'
        else grown ra h2 p n ?t evs')"
    using st(1,2) rd t' t(1) nl rc by (subst recv_loop.simps) (simp add: cmp Let_def grown_def)
  with that [OF t' buffer_after_store [OF buf st(3,4)] _ st(3)] len show ?thesis by simp
qed

lemma recv_grow:
  assumes buf: "buffer_at h0 p (unat n) bs h" and n: "unat n < 2 ^ 63" and ra: "realloc_contract ra h0"
  shows "unat (n * 2) = 2 * unat n"
    and "ra (n * 2) = 0 \<Longrightarrow> grown ra h p n t evs = Some (Gave_up h0)"
    and "ra (n * 2) \<noteq> 0 \<Longrightarrow> unat (n * 2) < 2 ^ 63 \<and>
      (\<exists>h'. buffer_at h0 (ra (n * 2)) (unat (n * 2)) bs h' \<and> grown ra h p n t evs = recv_loop ra h' (ra (n * 2)) t (n * 2) evs)"
proof -
  show m: "unat (n * 2) = 2 * unat n" using n by (simp add: unat_word_ariths)
  show "grown ra h p n t evs = Some (Gave_up h0)" if "ra (n * 2) = 0"
    using that buf buffer_free [OF buf] by (auto simp: grown_def realloc_def buffer_at_def)
  assume ne: "ra (n * 2) \<noteq> 0"
  then have ok: "h0 (ra (n * 2)) = None" "unat (n * 2) < 2 ^ 63"
    using ra by (simp_all add: realloc_contract_def malloc_contract_def)
  obtain h' where "realloc h p (ra (n * 2)) (n * 2) = Some (ra (n * 2), h')"
    "buffer_at h0 (ra (n * 2)) (unat (n * 2)) bs h'"
    using buffer_realloc [OF buf ne ok(1), of "n * 2"] m by auto
  with ok ne show "unat (n * 2) < 2 ^ 63 \<and>
      (\<exists>h'. buffer_at h0 (ra (n * 2)) (unat (n * 2)) bs h' \<and> grown ra h p n t evs = recv_loop ra h' (ra (n * 2)) t (n * 2) evs)"
    by (auto simp: grown_def)
qed

text \<open>The rounds that end the loop without a line: nothing more arrives, or the memory is used up.\<close>

lemma recv_ends:
  assumes buf: "buffer_at h0 p (unat n) bs h" and room: "unat (n - t - 1) > 0"
    and rc: "recv (unat (n - t - 1)) evs = None \<or>
      (\<exists>got evs'. recv (unat (n - t - 1)) evs = Some (got, evs') \<and> (got = None \<or> got = Some []))"
  shows "\<exists>r. recv_loop ra h p t n evs = Some r \<and> recv_post ra h0 bs (arriving evs) r"
  using rc
proof (elim disjE exE)
  assume "recv (unat (n - t - 1)) evs = None"
  then show ?thesis by (intro exI [of _ Waiting]) (simp add: recv_loop.simps recv_None recv_post_def)
next
  fix got evs'
  assume got: "recv (unat (n - t - 1)) evs = Some (got, evs') \<and> (got = None \<or> got = Some [])"
  then have "arriving evs = []" using recv_stops [of _ evs evs'] room by force
  moreover have "recv_loop ra h p t n evs = Some (Gave_up h0)"
    using got buffer_free [OF buf] by (auto simp: recv_loop.simps [of ra h p t n evs])
  ultimately show ?thesis by (simp add: recv_post_def)
qed

lemma recv_oom_post:
  assumes "newline \<notin> set c" "unat n = length (bs @ c) + 1" "unat (n * 2) = 2 * unat n" "ra (n * 2) = 0"
    and arr: "arriving evs = c @ arriving evs'"
  shows "recv_post ra h0 bs (arriving evs) (Gave_up h0)"
proof -
  have "length c + 1 \<le> length (arriving evs)" if "newline \<in> set (arriving evs)"
    using arr that assms(1) by (cases "arriving evs'") auto
  then show ?thesis using assms(2-4) by (auto simp: recv_post_def intro!: exI [of _ "n * 2"])
qed

text \<open>A round without a newline: the rest of the loop runs in the same buffer, or in a larger one.\<close>

lemma recv_goes_on:
  assumes buf: "buffer_at h0 p (unat n) (bs @ c) h" "unat t = length (bs @ c)" "length (bs @ c) < unat n" "unat n < 2 ^ 63"
    and ra: "realloc_contract ra h0" and nl: "newline \<notin> set c" and arr: "arriving evs = c @ arriving evs'"
    and rest: "\<And>p n h t. buffer_at h0 p (unat n) (bs @ c) h \<Longrightarrow> length (bs @ c) = unat t \<Longrightarrow> unat t + 1 < unat n \<Longrightarrow>
      unat n < 2 ^ 63 \<Longrightarrow> \<exists>r. recv_loop ra h p t n evs' = Some r \<and> recv_post ra h0 (bs @ c) (arriving evs') r"
  shows "\<exists>r. (if length (bs @ c) + 1 < unat n then recv_loop ra h p t n evs' else grown ra h p n t evs') = Some r \<and>
    recv_post ra h0 bs (arriving evs) r"
proof -
  have cont: "recv_post ra h0 bs (arriving evs) r" if "recv_post ra h0 (bs @ c) (arriving evs') r" for r
    using recv_post_step [OF that nl] arr by simp
  show ?thesis
  proof (cases "length (bs @ c) + 1 < unat n")
    case True
    then have "\<exists>r. recv_loop ra h p t n evs' = Some r \<and> recv_post ra h0 (bs @ c) (arriving evs') r"
      using buf by (intro rest) simp_all
    with True cont show ?thesis by auto
  next
    case full: False
    note grow = recv_grow [OF buf(1,4) ra]
    have size: "unat n = length (bs @ c) + 1" using full buf(3) by simp
    show ?thesis
    proof (cases "ra (n * 2) = 0")
      case True
      have "recv_post ra h0 bs (arriving evs) (Gave_up h0)"
        using recv_oom_post [of c n bs ra evs evs' h0] nl size grow(1) True arr by simp
      with full grow(2) [OF True] show ?thesis by simp
    next
      case False
      obtain h3 where h3: "unat (n * 2) < 2 ^ 63" "buffer_at h0 (ra (n * 2)) (unat (n * 2)) (bs @ c) h3"
        "grown ra h p n t evs' = recv_loop ra h3 (ra (n * 2)) t (n * 2) evs'"
        using grow(3) [OF False] by blast
      have "\<exists>r. recv_loop ra h3 (ra (n * 2)) t (n * 2) evs' = Some r \<and> recv_post ra h0 (bs @ c) (arriving evs') r"
        using size buf(2) grow(1) h3(1,2) by (intro rest) simp_all
      with full h3(3) cont show ?thesis by auto
    qed
  qed
qed

lemma recv_loop_spec:
  assumes "buffer_at h0 p (unat n) bs h" "length bs = unat t" "unat t + 1 < unat n" "unat n < 2 ^ 63"
    and "newline \<notin> set bs" "realloc_contract ra h0"
  shows "\<exists>r. recv_loop ra h p t n evs = Some r \<and> recv_post ra h0 bs (arriving evs) r"
  using assms
proof (induction "sum_list (map weight evs)" arbitrary: evs p n bs h t rule: less_induct)
  case less
  have room: "unat (n - t - 1) > 0"
    using less.prems(3) by (subst unat_minus_small; subst unat_minus_small; simp)
  show ?case
  proof (cases "\<exists>c evs'. recv (unat (n - t - 1)) evs = Some (Some c, evs') \<and> c \<noteq> []")
    case False
    then show ?thesis by (intro recv_ends [OF less.prems(1) room]) (metis not_None_eq surj_pair)
  next
    case True
    then obtain c evs' where 3: "recv (unat (n - t - 1)) evs = Some (Some c, evs')" "c \<noteq> []" by blast
    note arr = recv_arriving [OF 3] and w = recv_weight [OF 3]
    obtain t' h' rest where t': "unat t' = length (bs @ c)" and buf: "buffer_at h0 p (unat n) (bs @ c) h'"
      and len: "length (bs @ c) < unat n" and h': "h' = h0(p \<mapsto> map Some (bs @ c) @ Some (CHR 0x00) # rest)"
      and step: "recv_loop ra h p t n evs =
       (if newline \<in> set c then Some (Complete p t' h')
        else if length (bs @ c) + 1 < unat n then recv_loop ra h' p t' n evs'
        else grown ra h' p n t' evs')"
      by (rule recv_round [OF less.prems(1-5) 3, of ra]) (rule that, assumption+)
    show ?thesis
    proof (cases "newline \<in> set c")
      case True
      have "recv_post ra h0 bs (arriving evs) (Complete p t' h')"
        unfolding recv_post_def recv_exit.case
        by (rule got_lineI [of _ _ _ _ "[]" c rest _ _ "arriving evs'"])
          (use True arr t' h' less.prems(1) in \<open>simp_all add: buffer_at_def\<close>)
      with step True show ?thesis by simp
    next
      case False
      show ?thesis
        unfolding step if_not_P [OF False]
        by (rule recv_goes_on [OF buf t' len less.prems(4,6) False conjunct2 [OF arr]])
          (use less.hyps [OF w] less.prems(5,6) False in simp)
    qed
  qed
qed

text \<open>As the thread enters it, with a buffer just allocated.\<close>

lemma recv_fresh:
  assumes "malloc_contract h a CLIENT_BUFFER_LEN" "a \<noteq> 0" "realloc_contract ra h"
  obtains ex where
    "recv_loop ra (h(a \<mapsto> replicate 1024 (Some (CHR 0x00)))) a 0 CLIENT_BUFFER_LEN evs = Some ex"
    "recv_post ra h [] (arriving evs) ex"
proof -
  have len: "unat CLIENT_BUFFER_LEN = 1024" by (simp add: CLIENT_BUFFER_LEN_def)
  have "buffer_at h a (unat CLIENT_BUFFER_LEN) [] (h(a \<mapsto> replicate 1024 (Some (CHR 0x00))))"
    using assms(1,2) len
    by (auto simp: buffer_at_def malloc_contract_def intro!: exI [of _ "replicate 1024 (Some (CHR 0x00))"])
  from recv_loop_spec [OF this _ _ _ _ assms(3), of 0 evs] len that show ?thesis by auto
qed

end
