(* ===== verification/Socket_Server.thy ===== *)
theory Socket_Server
  imports Char_Device Socket_Receive
begin

text \<open>
  What a thread of \<^verbatim>\<open>server/aesdsocket.c\<close> does for one client: \<^verbatim>\<open>thread_operation\<close>,
  \<^verbatim>\<open>send_rcv_socket_data\<close> and \<^verbatim>\<open>return_socketdata_to_client\<close>, over the state of the process
  (its descriptors, its heap, the flag and the mutex the threads share) and a device given by
  its operations.  A function that waits for ever is \<open>Blocked\<close>; \<open>None\<close> is undefined behaviour,
  or the use of a socket as the device file, which is shown not to happen.
\<close>

section \<open>The process\<close>

datatype 'f fdesc = Sock | Dev 'f

record ('d, 'f) proc =
  devst :: 'd
  fds :: "nat \<rightharpoonup> 'f fdesc"
  uheap :: heap
  rw_held :: bool
  ioctl_just_performed :: bool

definition fd_entry :: "('d, 'f) proc \<Rightarrow> int \<Rightarrow> 'f fdesc option" where
  "fd_entry p fd = (if fd < 0 then None else fds p (nat fd))"

definition sys_open :: "('d, 'f, 'e) dev_ops \<Rightarrow> bool \<Rightarrow> ('d, 'f) proc \<Rightarrow> int \<times> ('d, 'f) proc" where
  "sys_open ops ok p =
     (case lowest_fd (fds p) of
        None \<Rightarrow> (- 1, p)
      | Some fd \<Rightarrow>
          if \<not> ok then (- 1, p)
          else let (f, d) = dev_open ops (devst p) in
            (int fd, p\<lparr>devst := d, fds := (fds p)(fd \<mapsto> Dev f)\<rparr>))"

definition sys_close :: "int \<Rightarrow> ('d, 'f) proc \<Rightarrow> ('d, 'f) proc" where
  "sys_close fd p =
     (if fd_entry p fd = None then p else p\<lparr>fds := (fds p)(nat fd := None)\<rparr>)"

definition sys_write ::
  "('d, 'f, 'e) dev_ops \<Rightarrow> 'e \<Rightarrow> ('d, 'f) proc \<Rightarrow> int \<Rightarrow> byte list \<Rightarrow> (int \<times> ('d, 'f) proc) option" where
  "sys_write ops e p fd data =
     (case fd_entry p fd of
        None \<Rightarrow> Some (- 1, p)
      | Some Sock \<Rightarrow> None
      | Some (Dev f) \<Rightarrow> do {
          (r, f', d') \<leftarrow> dev_write ops e (devst p) f data;
          Some (if r < 0 then - 1 else r, p\<lparr>devst := d', fds := (fds p)(nat fd \<mapsto> Dev f')\<rparr>)
        })"

definition sys_read ::
  "('d, 'f, 'e) dev_ops \<Rightarrow> bool \<Rightarrow> ('d, 'f) proc \<Rightarrow> int \<Rightarrow> nat \<Rightarrow> (int \<times> byte list \<times> ('d, 'f) proc) option"
where
  "sys_read ops intr p fd n =
     (case fd_entry p fd of
        None \<Rightarrow> Some (- 1, [], p)
      | Some Sock \<Rightarrow> None
      | Some (Dev f) \<Rightarrow> do {
          (r, out, f', d') \<leftarrow> dev_read ops intr (devst p) f n;
          Some (if r < 0 then - 1 else r, out, p\<lparr>devst := d', fds := (fds p)(nat fd \<mapsto> Dev f')\<rparr>)
        })"

definition sys_ioctl ::
  "('d, 'f, 'e) dev_ops \<Rightarrow> ('d, 'f) proc \<Rightarrow> int \<Rightarrow> u32 \<Rightarrow> aesd_seekto \<Rightarrow> (int \<times> ('d, 'f) proc) option" where
  "sys_ioctl ops p fd cmd arg =
     (case fd_entry p fd of
        None \<Rightarrow> Some (- 1, p)
      | Some Sock \<Rightarrow> None
      | Some (Dev f) \<Rightarrow> do {
          (r, f', d') \<leftarrow> dev_ioctl ops (devst p) f cmd arg;
          Some (if r < 0 then - 1 else r, p\<lparr>devst := d', fds := (fds p)(nat fd \<mapsto> Dev f')\<rparr>)
        })"

section \<open>Storing a request\<close>

definition SEEK_COMMAND :: "byte list" where
  "SEEK_COMMAND = ''AESDCHAR_IOCSEEKTO:''"

text \<open>\<^verbatim>\<open>sscanf(s, "%u,%u", \<dots>) == 2\<close>, with the two numbers.\<close>

definition scan_seek :: "byte list \<Rightarrow> aesd_seekto option" where
  "scan_seek s = do {
     (a, rest) \<leftarrow> scan_u s;
     (case rest of
        [] \<Rightarrow> None
      | c # rest' \<Rightarrow>
          if c \<noteq> CHR '','' then None
          else do { (b, _) \<leftarrow> scan_u rest'; Some \<lparr>write_cmd = a, write_cmd_offset = b\<rparr> })
   }"

text \<open>The part of \<^verbatim>\<open>send_rcv_socket_data\<close> under the mutex.  What a write depends on may depend on its data.\<close>

definition store_request ::
  "('d, 'f, 'e) dev_ops \<Rightarrow> (byte list \<Rightarrow> 'e) \<Rightarrow> ('d, 'f) proc \<Rightarrow> int \<Rightarrow> addr \<Rightarrow> u64 \<Rightarrow>
   (int \<times> ('d, 'f) proc) outcome option" where
  "store_request ops env p file_fd client_buffer total_received =
     (if rw_held p then Some Blocked
      else do {
        let p1 = p\<lparr>rw_held := True\<rparr>;
        cells \<leftarrow> uheap p1 client_buffer;
        seek \<leftarrow> strncmp_eq cells SEEK_COMMAND;
        (r, p2) \<leftarrow>
          (if seek then do {
             params \<leftarrow> until_nul (drop (length SEEK_COMMAND) cells);
             (case scan_seek params of
                Some seek_params \<Rightarrow> do {
                  (rc, p2) \<leftarrow> sys_ioctl ops p1 file_fd AESDCHAR_IOCSEEKTO seek_params;
                  if rc = - 1 then Some (- 1, p2)
                  else Some (1, p2\<lparr>ioctl_just_performed := True\<rparr>)
                }
              | None \<Rightarrow> Some (- 1, p1))
           } else do {
             data \<leftarrow> mem_read (uheap p1) client_buffer 0 (unat total_received);
             (written, p2) \<leftarrow> sys_write ops (env data) p1 file_fd data;
             if written = - 1 \<or> written \<noteq> int (unat total_received) then Some (- 1, p2)
             else Some (written, p2\<lparr>ioctl_just_performed := False\<rparr>)
           });
        h \<leftarrow> free (uheap p2) client_buffer;
        Some (Done (r, p2\<lparr>uheap := h, rw_held := False\<rparr>))
      })"

text \<open>
  \<open>ca\<close> and \<open>ra\<close> are what the allocator returns, \<open>evs\<close> what the client does.  Receiving from a
  descriptor that is no socket fails.
\<close>

definition send_rcv_socket_data ::
  "('d, 'f, 'e) dev_ops \<Rightarrow> addr \<Rightarrow> (u64 \<Rightarrow> addr) \<Rightarrow> recv_event list \<Rightarrow> (byte list \<Rightarrow> 'e) \<Rightarrow>
   ('d, 'f) proc \<Rightarrow> int \<Rightarrow> int \<Rightarrow> (int \<times> ('d, 'f) proc) outcome option" where
  "send_rcv_socket_data ops ca ra evs env p client_fd file_fd =
     (let (client_buffer, h) = calloc (uheap p) ca CLIENT_BUFFER_LEN;
          events = (case fd_entry p client_fd of Some Sock \<Rightarrow> evs | _ \<Rightarrow> [RecvError]) in
      if client_buffer = 0 then Some (Done (- 1, p))
      else do {
        ex \<leftarrow> recv_loop ra h client_buffer 0 CLIENT_BUFFER_LEN events;
        (case ex of
           Waiting \<Rightarrow> Some Blocked
         | Gave_up h' \<Rightarrow> Some (Done (- 1, p\<lparr>uheap := h'\<rparr>))
         | Complete buf n h' \<Rightarrow> store_request ops env (p\<lparr>uheap := h'\<rparr>) file_fd buf n)
      })"

section \<open>Replying\<close>

text \<open>
  A call of \<^verbatim>\<open>send\<close> transfers some bytes, is interrupted, or fails and returns.  A \<^verbatim>\<open>send\<close> that raises
  \<^verbatim>\<open>SIGPIPE\<close> does not return: the signal has no handler and ends the process, which is the step
  \<open>Fatal\<close> of \<open>Socket_Host\<close>.
\<close>

datatype send_result = Sent nat | Send_EINTR | Send_error

text \<open>
  The loop, with the round \<open>i\<close>, whether the read of a round is interrupted, and what the send of
  a round does.  The bytes that reached the client are collected in \<open>out\<close>.
\<close>

partial_function (option) reply_loop ::
  "('d, 'f, 'e) dev_ops \<Rightarrow> (nat \<Rightarrow> bool) \<Rightarrow> (nat \<Rightarrow> send_result) \<Rightarrow> nat \<Rightarrow> ('d, 'f) proc \<Rightarrow> int \<Rightarrow> int \<Rightarrow>
   addr \<Rightarrow> byte list \<Rightarrow> (int \<times> byte list \<times> ('d, 'f) proc) option" where
  "reply_loop ops intr sends i p client_fd file_fd send_buffer out = do {
     (bytes_read, chunk, p1) \<leftarrow> sys_read ops (intr i) p file_fd (unat CLIENT_BUFFER_LEN);
     h \<leftarrow> mem_write (uheap p1) send_buffer 0 chunk;
     let p2 = p1\<lparr>uheap := h\<rparr>;
     if bytes_read > 0 then do {
       data \<leftarrow> mem_read (uheap p2) send_buffer 0 (nat bytes_read);
       (case (if fd_entry p2 client_fd = Some Sock then sends i else Send_error) of
          Sent k \<Rightarrow> reply_loop ops intr sends (Suc i) p2 client_fd file_fd send_buffer (out @ take k data)
        | Send_EINTR \<Rightarrow> reply_loop ops intr sends (Suc i) p2 client_fd file_fd send_buffer out
        | Send_error \<Rightarrow> Some (- 1, out, p2))
     }
     else Some (0, out, p2)
   }"

definition return_socketdata_to_client ::
  "('d, 'f, 'e) dev_ops \<Rightarrow> addr \<Rightarrow> bool \<Rightarrow> (nat \<Rightarrow> bool) \<Rightarrow> (nat \<Rightarrow> send_result) \<Rightarrow>
   ('d, 'f) proc \<Rightarrow> int \<Rightarrow> int \<Rightarrow> (int \<times> byte list \<times> ('d, 'f) proc) outcome option" where
  "return_socketdata_to_client ops ma reopen intr sends p client_fd file_fd =
     (let (send_buffer, h) = malloc (uheap p) ma CLIENT_BUFFER_LEN in
      if send_buffer = 0 then Some (Done (- 1, [], p))
      else if rw_held p then Some Blocked
      else
        let p1 = p\<lparr>uheap := h, rw_held := True\<rparr>;
            again = (\<not> ioctl_just_performed p1);
            (fd, p2) = (if again then sys_open ops reopen (sys_close file_fd p1) else (file_fd, p1)) in
        if again \<and> fd = - 1 then do {
          h' \<leftarrow> free (uheap p2) send_buffer;
          Some (Done (- 1, [], p2\<lparr>uheap := h', rw_held := False\<rparr>))
        }
        else do {
          (r, out, p3) \<leftarrow> reply_loop ops intr sends 0 (p2\<lparr>ioctl_just_performed := False\<rparr>)
             client_fd fd send_buffer [];
          h' \<leftarrow> free (uheap p3) send_buffer;
          Some (Done (r, out, p3\<lparr>uheap := h', rw_held := False\<rparr>))
        })"

section \<open>A thread\<close>

text \<open>Everything a thread depends on besides the state of the process.\<close>

record 'e thread_env =
  open_succeeds :: bool
  calloc_addr :: addr
  realloc_addr :: "u64 \<Rightarrow> addr"
  client_events :: "recv_event list"
  write_envs :: "byte list \<Rightarrow> 'e"
  malloc_addr :: addr
  reopen_succeeds :: bool
  read_signals :: "nat \<Rightarrow> bool"
  send_results :: "nat \<Rightarrow> send_result"

text \<open>\<open>args\<close> is the block with the thread's argument, \<open>client_fd\<close> what it contains.\<close>

definition thread_operation ::
  "('d, 'f, 'e) dev_ops \<Rightarrow> 'e thread_env \<Rightarrow> ('d, 'f) proc \<Rightarrow> addr \<Rightarrow> int \<Rightarrow>
   (byte list \<times> ('d, 'f) proc) outcome option" where
  "thread_operation ops env p args client_fd = do {
     guard (uheap p args \<noteq> None);
     let (file_fd, p1) = sys_open ops (open_succeeds env) p;
     if file_fd = - 1 then do {
       let p2 = sys_close client_fd p1;
       h \<leftarrow> free (uheap p2) args;
       Some (Done ([], p2\<lparr>uheap := h\<rparr>))
     }
     else do {
       stored \<leftarrow> send_rcv_socket_data ops (calloc_addr env) (realloc_addr env) (client_events env)
         (write_envs env) p1 client_fd file_fd;
       (case stored of
          Blocked \<Rightarrow> Some Blocked
        | Done (written_bytes, p2) \<Rightarrow> do {
            replied \<leftarrow>
              (if written_bytes > 0
               then return_socketdata_to_client ops (malloc_addr env) (reopen_succeeds env)
                 (read_signals env) (send_results env) p2 client_fd file_fd
               else Some (Done (0, [], p2)));
            (case replied of
               Blocked \<Rightarrow> Some Blocked
             | Done (_, out, p3) \<Rightarrow> do {
                 let p4 = sys_close client_fd (sys_close file_fd p3);
                 h \<leftarrow> free (uheap p4) args;
                 Some (Done (out, p4\<lparr>uheap := h\<rparr>))
               })
          })
     }
   }"

end
