(* ===== verification/Socket_Thread.thy ===== *)
theory Socket_Thread
  imports Socket_Server
begin

text \<open>
  What a thread of the server achieves, for any device with the laws of \<open>char_device\<close>: it never
  goes wrong, closes what it opened, frees what it allocated, stores the client's line or
  performs its seek, and sends back the device's contents.  The reply needs only the laws of
  \<open>byte_file\<close>.  \<open>Socket_Properties\<close> has the instances for the driver of this repository.
\<close>

lemma buffer_len [simp]: "unat CLIENT_BUFFER_LEN = 1024"
  by (simp add: CLIENT_BUFFER_LEN_def)

section \<open>What the client gets\<close>

text \<open>
  The bytes that reach the client of the data still to be sent: chunks of 1024 bytes, of each
  chunk what a single \<^verbatim>\<open>send\<close> transferred.
\<close>

function client_gets :: "(nat \<Rightarrow> bool) \<Rightarrow> (nat \<Rightarrow> send_result) \<Rightarrow> nat \<Rightarrow> byte list \<Rightarrow> byte list" where
  "client_gets intr sends i data =
     (if data = [] \<or> intr i then []
      else case sends i of
        Sent k \<Rightarrow> take k (take 1024 data) @ client_gets intr sends (Suc i) (drop 1024 data)
      | Send_EINTR \<Rightarrow> client_gets intr sends (Suc i) (drop 1024 data)
      | Send_error \<Rightarrow> [])"
  by pat_completeness auto
termination
  by (relation "measure (\<lambda>(intr, sends, i, data). length data)") auto

declare client_gets.simps [simp del]

lemma client_gets_all:
  assumes "\<forall>i. \<not> intr i" "\<forall>i. \<exists>k \<ge> 1024. sends i = Sent k"
  shows "client_gets intr sends i data = data"
proof (induction "length data" arbitrary: i data rule: less_induct)
  case less
  obtain k where k: "1024 \<le> k" "sends i = Sent k" using assms(2) by blast
  then show ?case
    using assms(1) less [of "drop 1024 data" "Suc i"]
    by (subst client_gets.simps) (cases data; simp)
qed

section \<open>System calls on the device file\<close>

definition proc_ok :: "('d \<Rightarrow> bool) \<Rightarrow> ('f \<Rightarrow> bool) \<Rightarrow> ('d, 'f) proc \<Rightarrow> bool" where
  "proc_ok dok fok p \<longleftrightarrow> dok (devst p) \<and> \<not> rw_held p \<and> (\<forall>fd f. fds p fd = Some (Dev f) \<longrightarrow> fok f)"

lemma fd_entry_nat [simp]: "fd_entry p (int fd) = fds p fd"
  by (simp add: fd_entry_def)

lemma fd_entry_upd [simp]:
  "fd_entry (p\<lparr>uheap := h\<rparr>) fd = fd_entry p fd" "fd_entry (p\<lparr>rw_held := b\<rparr>) fd = fd_entry p fd"
  "fd_entry (p\<lparr>ioctl_just_performed := b\<rparr>) fd = fd_entry p fd"
  "fd_entry (p\<lparr>devst := d\<rparr>) fd = fd_entry p fd"
  by (simp_all add: fd_entry_def)

text \<open>Closing the lowest free descriptor after opening it makes it the lowest free one again.\<close>

lemma lowest_fd_again: "lowest_fd m = Some fd \<Longrightarrow> lowest_fd ((m(fd \<mapsto> x))(fd := None)) = Some fd"
  by (simp add: fun_upd_idem lowest_fd_free)

text \<open>Whether the line \<open>bs\<close> is a seek, what it asks for, and the position that means.\<close>

definition seek_request :: "byte list \<Rightarrow> bool" where
  "seek_request bs \<longleftrightarrow> take (length SEEK_COMMAND) bs = SEEK_COMMAND"

definition seek_arg :: "byte list \<Rightarrow> aesd_seekto option" where
  "seek_arg bs = scan_seek (takeWhile (\<lambda>c. c \<noteq> CHR 0x00) (drop (length SEEK_COMMAND) bs))"

definition request_pos :: "byte list \<Rightarrow> byte list list \<Rightarrow> nat option" where
  "request_pos bs cs =
     (case seek_arg bs of None \<Rightarrow> None | Some s \<Rightarrow> if seek_ok cs s then Some (seek_pos cs s) else None)"

text \<open>
  \<open>bs\<close> is what the server takes for the client's request when \<open>inp\<close> arrives: everything up to
  the end of the piece that contains the first newline.
\<close>

definition request_of :: "byte list \<Rightarrow> byte list \<Rightarrow> bool" where
  "request_of inp bs \<longleftrightarrow>
     (\<exists>front tail later. inp = bs @ later \<and> bs = front @ tail \<and> newline \<notin> set front \<and> newline \<in> set tail)"

text \<open>Memory runs out while \<open>n\<close> bytes are received.\<close>

definition receive_oom :: "addr \<Rightarrow> (u64 \<Rightarrow> addr) \<Rightarrow> nat \<Rightarrow> bool" where
  "receive_oom ca ra n \<longleftrightarrow> ca = 0 \<or> (\<exists>m. ra m = 0 \<and> unat m \<le> 2 * n)"

lemma request_ofD: "request_of inp bs \<Longrightarrow> newline \<in> set bs \<and> length bs \<le> length inp"
  by (auto simp: request_of_def)

text \<open>When the newline is the last byte sent, the request is all of it.\<close>

lemma request_of_line:
  assumes "request_of (cs @ [newline]) bs" "newline \<notin> set cs"
  shows "bs = cs @ [newline]"
proof -
  obtain later where l: "cs @ [newline] = bs @ later" and nl: "newline \<in> set bs"
    using assms(1) request_ofD [OF assms(1)] by (auto simp: request_of_def)
  show ?thesis
  proof (cases later rule: rev_cases)
    case (snoc xs x)
    then have "cs = bs @ xs" using l by (simp flip: append_assoc)
    then show ?thesis using assms(2) nl by simp
  qed (use l in simp)
qed

text \<open>The allocator keeps its contract for every request a thread may make.\<close>

definition allocs_ok :: "heap \<Rightarrow> 'e thread_env \<Rightarrow> bool" where
  "allocs_ok h env \<longleftrightarrow>
     malloc_contract h (calloc_addr env) CLIENT_BUFFER_LEN \<and> realloc_contract (realloc_addr env) h \<and>
     malloc_contract h (malloc_addr env) CLIENT_BUFFER_LEN"

text \<open>What the client receives of the bytes \<open>data\<close>, if the reply gets as far as sending.\<close>

definition reply_bytes :: "'e thread_env \<Rightarrow> byte list \<Rightarrow> byte list" where
  "reply_bytes env data =
     (if malloc_addr env = 0 then [] else client_gets (read_signals env) (send_results env) 0 data)"

text \<open>The process with another buffer in block \<open>b\<close> and another state of the file \<open>fd\<close>.\<close>

definition reading :: "('d, 'f) proc \<Rightarrow> heap \<Rightarrow> addr \<Rightarrow> block \<Rightarrow> nat \<Rightarrow> 'f \<Rightarrow> ('d, 'f) proc" where
  "reading p h0 b blk fd f = p\<lparr>uheap := h0(b \<mapsto> blk), fds := (fds p)(fd \<mapsto> Dev f)\<rparr>"

lemma reading_simps [simp]:
  "devst (reading p h0 b blk fd f) = devst p" "uheap (reading p h0 b blk fd f) = h0(b \<mapsto> blk)"
  "fds (reading p h0 b blk fd f) = (fds p)(fd \<mapsto> Dev f)" "rw_held (reading p h0 b blk fd f) = rw_held p"
  "ioctl_just_performed (reading p h0 b blk fd f) = ioctl_just_performed p"
  "reading (reading p h0 b blk fd f) h0 b blk' fd f' = reading p h0 b blk' fd f'"
  by (simp_all add: reading_def)

text \<open>The critical section of a thread that has received the request \<open>bs\<close>.\<close>

lemma store_request_eval:
  assumes "\<not> rw_held p" "uheap p = h0(b \<mapsto> map Some bs @ Some (CHR 0x00) # rest)" "unat n = length bs"
  shows "store_request ops env p fd b n = do {
     (r, p2) \<leftarrow>
       (if seek_request bs then
          (case seek_arg bs of
             Some s \<Rightarrow> do {
               (rc, p2) \<leftarrow> sys_ioctl ops (p\<lparr>rw_held := True\<rparr>) fd AESDCHAR_IOCSEEKTO s;
               Some (if rc = - 1 then (- 1, p2) else (1, p2\<lparr>ioctl_just_performed := True\<rparr>))
             }
           | None \<Rightarrow> Some (- 1, p\<lparr>rw_held := True\<rparr>))
        else do {
          (written, p2) \<leftarrow> sys_write ops (env bs) (p\<lparr>rw_held := True\<rparr>) fd bs;
          Some (if written = int (length bs) then (written, p2\<lparr>ioctl_just_performed := False\<rparr>) else (- 1, p2))
        });
     h \<leftarrow> free (uheap p2) b;
     Some (Done (r, p2\<lparr>uheap := h, rw_held := False\<rparr>))
   }"
proof -
  have up: "uheap p b = Some (map Some bs @ Some (CHR 0x00) # rest)" by (simp add: assms(2))
  have cmp: "strncmp_eq (map Some bs @ Some (CHR 0x00) # rest) SEEK_COMMAND = Some (seek_request bs)"
    by (subst strncmp_eq_bytes) (simp_all add: seek_request_def SEEK_COMMAND_def)
  have rd: "mem_read (uheap p) b 0 (unat n) = Some bs"
    unfolding assms(2,3) by (rule mem_read_prefix)
  have str: "until_nul (drop (length SEEK_COMMAND) (map Some bs @ Some (CHR 0x00) # rest)) =
      Some (takeWhile (\<lambda>c. c \<noteq> CHR 0x00) (drop (length SEEK_COMMAND) bs))" if "seek_request bs"
  proof -
    have "length SEEK_COMMAND \<le> length bs"
      using that unfolding seek_request_def by (metis length_take min.cobounded1 min.commute)
    then show ?thesis by (simp add: drop_map until_nul_bytes)
  qed
  have un: "uint n = int (length bs)" using assms(3) by (metis uint_nat)
  show ?thesis
    using assms(1) up cmp str rd un
    by (auto simp: store_request_def seek_arg_def Let_def split: option.split bind_split)
qed

text \<open>How receiving ends: waiting, giving up, or with a request in a buffer.\<close>

lemma recv_cases:
  fixes evs :: "recv_event list"
  assumes "malloc_contract h ca CLIENT_BUFFER_LEN" "ca \<noteq> 0" "realloc_contract ra h"
  defines "recvd \<equiv> recv_loop ra (h(ca \<mapsto> replicate 1024 (Some (CHR 0x00)))) ca 0 CLIENT_BUFFER_LEN evs"
  obtains "recvd = Some Waiting" "newline \<notin> set (arriving evs)"
  | "recvd = Some (Gave_up h)" "newline \<in> set (arriving evs) \<longrightarrow> receive_oom ca ra (length (arriving evs))"
  | b n bs rest where "h b = None" "b \<noteq> 0" "unat n = length bs" "bs \<noteq> []" "request_of (arriving evs) bs"
    "recvd = Some (Complete b n (h(b \<mapsto> map Some bs @ Some (CHR 0x00) # rest)))"
proof -
  obtain ex where ex: "recvd = Some ex" "recv_post ra h [] (arriving evs) ex"
    unfolding recvd_def by (rule recv_fresh [OF assms(1-3)])
  show ?thesis
  proof (cases ex)
    case Waiting
    with ex that(1) show ?thesis by (simp add: recv_post_def)
  next
    case (Gave_up h')
    with ex that(2) show ?thesis by (auto simp: recv_post_def receive_oom_def)
  next
    case (Complete b n h')
    then obtain front tail rest later where g:
      "h' = h(b \<mapsto> map Some (front @ tail) @ Some (CHR 0x00) # rest)"
      "unat n = length (front @ tail)" "arriving evs = front @ tail @ later"
      "newline \<notin> set front" "newline \<in> set tail" "b \<noteq> 0" "h b = None"
      using ex(2) by (auto simp: recv_post_def got_line_def)
    have "request_of (arriving evs) (front @ tail)" unfolding request_of_def using g(3-5) by auto
    moreover have "front @ tail \<noteq> []" using g(5) by auto
    ultimately show ?thesis using that(3) [of b n "front @ tail" rest] g(1,2,6,7) ex(1) Complete by simp
  qed
qed

lemma send_rcv_cases:
  assumes "fd_entry p client_fd = Some Sock" "malloc_contract (uheap p) ca CLIENT_BUFFER_LEN" "realloc_contract ra (uheap p)"
  obtains "send_rcv_socket_data ops ca ra evs env p client_fd file_fd = Some Blocked" "newline \<notin> set (arriving evs)"
  | "send_rcv_socket_data ops ca ra evs env p client_fd file_fd = Some (Done (- 1, p))"
    "newline \<in> set (arriving evs) \<longrightarrow> receive_oom ca ra (length (arriving evs))"
  | b n bs rest where "uheap p b = None" "b \<noteq> 0" "unat n = length bs" "bs \<noteq> []" "request_of (arriving evs) bs"
    "send_rcv_socket_data ops ca ra evs env p client_fd file_fd =
       store_request ops env (p\<lparr>uheap := (uheap p)(b \<mapsto> map Some bs @ Some (CHR 0x00) # rest)\<rparr>) file_fd b n"
proof (cases "ca = 0")
  case True
  then have "send_rcv_socket_data ops ca ra evs env p client_fd file_fd = Some (Done (- 1, p))"
    by (simp add: send_rcv_socket_data_def calloc_def)
  with True that(2) show ?thesis by (simp add: receive_oom_def)
next
  case False
  note code = send_rcv_socket_data_def calloc_def
  show ?thesis
    by (rule recv_cases [OF assms(2) False assms(3), of evs])
      (use False assms(1) that in \<open>auto simp: code\<close>)
qed

text \<open>Closing the file, which may be closed or another one by now, and the client.\<close>

lemma thread_closes:
  assumes "fds p' = (fds p)(fd := v)" "fds p fd = None" "fds p c = Some Sock"
  shows "fds (sys_close (int c) (sys_close (int fd) p')) = (fds p)(c := None)"
    "uheap (sys_close (int c) (sys_close (int fd) p')) = uheap p'"
    "devst (sys_close (int c) (sys_close (int fd) p')) = devst p'"
    "rw_held (sys_close (int c) (sys_close (int fd) p')) = rw_held p'"
  using assms by (cases v; cases "c = fd"; auto simp: sys_close_def fun_upd_idem fun_upd_twist)+

context byte_file begin

lemma sys_read_dev:
  assumes "inv (devst p)" "fds p fd = Some (Dev f)" "fok f" "0 < n" "n \<le> max_rw_count"
  obtains r out f' where "sys_read ops intr p (int fd) n = Some (r, out, p\<lparr>fds := (fds p)(fd \<mapsto> Dev f')\<rparr>)"
    "fok f'"
    "if intr then r < 0 \<and> out = []
     else out = take n (drop (fpos f) (bytes (devst p))) \<and> r = int (length out) \<and>
       fpos f' = fpos f + length out"
proof -
  obtain r out f' where r: "dev_read ops intr (devst p) f n = Some (r, out, f', devst p)" "fok f'"
    "if intr then r < 0 \<and> out = [] \<and> f' = f
     else out = take n (drop (fpos f) (bytes (devst p))) \<and> r = int (length out) \<and>
       fpos f' = fpos f + length out"
    using read_spec [OF assms(1,3,4,5), of intr] by blast
  have "sys_read ops intr p (int fd) n =
      Some (if r < 0 then - 1 else r, out, p\<lparr>fds := (fds p)(fd \<mapsto> Dev f')\<rparr>)"
    using r(1) assms(2) by (cases p) (simp add: sys_read_def)
  then show ?thesis using that r by (auto split: if_splits)
qed

text \<open>A chunk is read from the file into the buffer, which it fits.\<close>

lemma reply_read:
  assumes "inv (devst p)" "fds p fd = Some (Dev f)" "fok f" and blk: "uheap p = h0(b \<mapsto> blk)" "length blk = 1024"
  defines "rest \<equiv> drop (fpos f) (bytes (devst p))"
  obtains r chunk f' blk' where
    "sys_read ops intr p (int fd) (unat CLIENT_BUFFER_LEN) = Some (r, chunk, p\<lparr>fds := (fds p)(fd \<mapsto> Dev f')\<rparr>)"
    "mem_write (h0(b \<mapsto> blk)) b 0 chunk = Some (h0(b \<mapsto> blk'))" "mem_read (h0(b \<mapsto> blk')) b 0 (length chunk) = Some chunk"
    "length blk' = 1024" "fok f'" "0 < r \<longleftrightarrow> \<not> (intr \<or> rest = [])" "0 < r \<longrightarrow> r = int (length chunk) \<and> chunk = take 1024 rest"
    "\<not> intr \<longrightarrow> drop (fpos f') (bytes (devst p)) = drop 1024 rest"
proof -
  obtain r chunk f' where rd: "sys_read ops intr p (int fd) (unat CLIENT_BUFFER_LEN) =
      Some (r, chunk, p\<lparr>fds := (fds p)(fd \<mapsto> Dev f')\<rparr>)" "fok f'"
    "if intr then r < 0 \<and> chunk = []
     else chunk = take 1024 rest \<and> r = int (length chunk) \<and> fpos f' = fpos f + length chunk"
    unfolding rest_def by (rule sys_read_dev [OF assms(1-3), of "unat CLIENT_BUFFER_LEN" intr])
      (auto simp: max_rw_count_def)
  have cl: "length chunk \<le> 1024" using rd(3) by (auto split: if_splits)
  let ?blk = "map Some chunk @ drop (length chunk) blk"
  have "mem_write (h0(b \<mapsto> blk)) b 0 chunk = Some (h0(b \<mapsto> ?blk))"
    using cl blk(2) by (subst mem_write_upd) simp_all
  moreover have "\<not> intr \<longrightarrow> drop (fpos f') (bytes (devst p)) = drop 1024 rest"
    using rd(3) unfolding rest_def by (auto simp: min_def add.commute)
  ultimately show ?thesis
    using that [OF rd(1) _ mem_read_prefix _ rd(2)] rd(3) cl blk(2) by (auto split: if_splits)
qed

text \<open>One round of the loop, on the bytes still to be read.\<close>

lemma reply_round:
  assumes "inv (devst p)" "fds p fd = Some (Dev f)" "fok f" "fd_entry p client_fd = Some Sock"
    and "uheap p = h0(b \<mapsto> blk)" "length blk = 1024"
  defines "rest \<equiv> drop (fpos f) (bytes (devst p))"
  obtains f' blk' where "fok f'" "length blk' = 1024"
    "\<not> intr i \<longrightarrow> drop (fpos f') (bytes (devst p)) = drop 1024 rest"
    "reply_loop ops intr sends i p client_fd (int fd) b out =
       (if intr i \<or> rest = [] then Some (0, out, reading p h0 b blk' fd f')
        else case sends i of
          Sent k \<Rightarrow> reply_loop ops intr sends (Suc i) (reading p h0 b blk' fd f') client_fd (int fd) b
            (out @ take k (take 1024 rest))
        | Send_EINTR \<Rightarrow> reply_loop ops intr sends (Suc i) (reading p h0 b blk' fd f') client_fd (int fd) b out
        | Send_error \<Rightarrow> Some (- 1, out, reading p h0 b blk' fd f'))"
proof -
  obtain r chunk f' blk' where rd:
    "sys_read ops (intr i) p (int fd) (unat CLIENT_BUFFER_LEN) = Some (r, chunk, p\<lparr>fds := (fds p)(fd \<mapsto> Dev f')\<rparr>)"
    "mem_write (h0(b \<mapsto> blk)) b 0 chunk = Some (h0(b \<mapsto> blk'))" "mem_read (h0(b \<mapsto> blk')) b 0 (length chunk) = Some chunk"
    "length blk' = 1024" "fok f'" "0 < r \<longleftrightarrow> \<not> (intr i \<or> rest = [])" "0 < r \<longrightarrow> r = int (length chunk) \<and> chunk = take 1024 rest"
    "\<not> intr i \<longrightarrow> drop (fpos f') (bytes (devst p)) = drop 1024 rest"
    unfolding rest_def by (rule reply_read [OF assms(1-3,5,6)])
  have pp: "p\<lparr>fds := (fds p)(fd \<mapsto> Dev f')\<rparr>\<lparr>uheap := h0(b \<mapsto> blk')\<rparr> = reading p h0 b blk' fd f'" by (simp add: reading_def)
  have sock: "fd_entry (p\<lparr>fds := (fds p)(fd \<mapsto> Dev f')\<rparr>) client_fd = Some Sock"
    "fd_entry (reading p h0 b blk' fd f') client_fd = Some Sock"
    using assms(2,4) by (auto simp: fd_entry_def split: if_splits)
  show ?thesis
  proof (rule that [OF rd(5,4,8)], cases "0 < r")
    case True
    then have "take 1024 rest = chunk" "r = int (length chunk)" using rd(7) by simp_all
    with True rd(6) show "reply_loop ops intr sends i p client_fd (int fd) b out =
       (if intr i \<or> rest = [] then Some (0, out, reading p h0 b blk' fd f')
        else case sends i of
          Sent k \<Rightarrow> reply_loop ops intr sends (Suc i) (reading p h0 b blk' fd f') client_fd (int fd) b
            (out @ take k (take 1024 rest))
        | Send_EINTR \<Rightarrow> reply_loop ops intr sends (Suc i) (reading p h0 b blk' fd f') client_fd (int fd) b out
        | Send_error \<Rightarrow> Some (- 1, out, reading p h0 b blk' fd f'))"
      unfolding \<open>take 1024 rest = chunk\<close> using rd(1,2,3) assms(5) sock
      by (subst reply_loop.simps) (simp add: pp split: send_result.split)
  qed (use rd(1,2,6) assms(5) in \<open>subst reply_loop.simps, simp add: pp\<close>)
qed

text \<open>
  The loop ends, with its buffer as large as before, the file advanced and nothing else changed,
  and sends what \<open>client_gets\<close> says of the bytes behind the file's position.
\<close>

lemma reply_loop_run:
  assumes "inv (devst p)" "fds p fd = Some (Dev f)" "fok f" "fd_entry p client_fd = Some Sock"
    and "uheap p = h0(b \<mapsto> blk)" "length blk = 1024"
  shows "\<exists>r f' blk'. reply_loop ops intr sends i p client_fd (int fd) b out =
      Some (r, out @ client_gets intr sends i (drop (fpos f) (bytes (devst p))),
            reading p h0 b blk' fd f') \<and> fok f' \<and> length blk' = 1024"
  using assms
proof (induction "length (drop (fpos f) (bytes (devst p)))" arbitrary: p f blk i out rule: less_induct)
  case less
  let ?rest = "drop (fpos f) (bytes (devst p))"
  obtain f' blk' where rd: "fok f'" "length blk' = 1024"
    "\<not> intr i \<longrightarrow> drop (fpos f') (bytes (devst p)) = drop 1024 ?rest"
    and step: "reply_loop ops intr sends i p client_fd (int fd) b out =
       (if intr i \<or> ?rest = [] then Some (0, out, reading p h0 b blk' fd f')
        else case sends i of
          Sent k \<Rightarrow> reply_loop ops intr sends (Suc i) (reading p h0 b blk' fd f') client_fd (int fd) b
            (out @ take k (take 1024 ?rest))
        | Send_EINTR \<Rightarrow> reply_loop ops intr sends (Suc i) (reading p h0 b blk' fd f') client_fd (int fd) b out
        | Send_error \<Rightarrow> Some (- 1, out, reading p h0 b blk' fd f'))"
    by (rule reply_round [OF less.prems, of intr i sends out]) (rule that, assumption+)
  note gets = client_gets.simps [of intr sends i ?rest]
  show ?case
  proof (cases "intr i \<or> ?rest = []")
    case True
    then show ?thesis using step rd(1,2) gets by auto
  next
    case False
    have sock: "fd_entry (reading p h0 b blk' fd f') client_fd = Some Sock"
      using less.prems(2,4) by (auto simp: fd_entry_def split: if_splits)
    have rest: "drop (fpos f') (bytes (devst p)) = drop 1024 ?rest" using rd(3) False by blast
    have "length (drop 1024 ?rest) < length ?rest" using False by (cases ?rest) simp_all
    then have IH: "\<exists>r f'' blk''. reply_loop ops intr sends (Suc i) (reading p h0 b blk' fd f') client_fd (int fd) b out' =
        Some (r, out' @ client_gets intr sends (Suc i) (drop 1024 ?rest), reading p h0 b blk'' fd f'') \<and>
        fok f'' \<and> length blk'' = 1024" for out'
      using less.hyps [of f' "reading p h0 b blk' fd f'" blk' "Suc i" out', unfolded reading_simps rest]
        less.prems(1) rd(1,2) sock by simp
    show ?thesis
    proof (cases "sends i")
      case (Sent k)
      then show ?thesis using IH [of "out @ take k (take 1024 ?rest)"] step False gets by auto
    next
      case Send_EINTR
      then show ?thesis using IH [of out] step False gets by auto
    next
      case Send_error
      then show ?thesis using step rd(1,2) False gets by auto
    qed
  qed
qed

text \<open>The two parts of a reply: the loop up to the release of the mutex, and reopening the file.\<close>

lemma reply_section:
  assumes "inv (devst q)" "fds q fd = Some (Dev g)" "fok g" "fd_entry q client_fd = Some Sock"
    and "uheap q = h0(b \<mapsto> blk)" "length blk = 1024" "b \<noteq> 0" "h0 b = None"
  shows "\<exists>r q' g'. do {
      (r, out, p3) \<leftarrow> reply_loop ops intr sends 0 q client_fd (int fd) b [];
      h' \<leftarrow> free (uheap p3) b;
      Some (Done (r, out, p3\<lparr>uheap := h', rw_held := False\<rparr>))
    } = Some (Done (r, client_gets intr sends 0 (drop (fpos g) (bytes (devst q))), q')) \<and>
    devst q' = devst q \<and> uheap q' = h0 \<and> \<not> rw_held q' \<and> fds q' = (fds q)(fd \<mapsto> Dev g') \<and> fok g'"
proof -
  obtain r g' blk' where "reply_loop ops intr sends 0 q client_fd (int fd) b [] =
      Some (r, client_gets intr sends 0 (drop (fpos g) (bytes (devst q))), reading q h0 b blk' fd g')" "fok g'"
    using reply_loop_run [OF assms(1-6), of intr sends 0 "[]"] by auto
  then show ?thesis using assms(7,8) by (auto simp: fun_upd_idem)
qed

lemma sys_reopen:
  assumes "inv (devst p)" "fds p fd \<noteq> None" "lowest_fd ((fds p)(fd := None)) = Some fd"
  obtains g where "sys_open ops True (sys_close (int fd) p) = (int fd, p\<lparr>fds := (fds p)(fd \<mapsto> Dev g)\<rparr>)"
    "fok g" "fpos g = 0"
proof -
  obtain g where g: "dev_open ops (devst p) = (g, devst p)" "fok g" "fpos g = 0"
    using open_spec [OF assms(1)] by blast
  have "sys_close (int fd) p = p\<lparr>fds := (fds p)(fd := None)\<rparr>" using assms(2) by (auto simp: sys_close_def)
  then have "sys_open ops True (sys_close (int fd) p) = (int fd, p\<lparr>fds := (fds p)(fd \<mapsto> Dev g)\<rparr>)"
    using assms(3) g(1) by (cases p) (simp add: sys_open_def)
  with g(2,3) that show ?thesis by blast
qed

lemma reply_from:
  assumes "inv (devst p)" "fds p fd = Some (Dev f)" "fd_entry p client_fd = Some Sock" "ma \<noteq> 0" "uheap p ma = None"
    and q: "q = p\<lparr>uheap := (uheap p)(ma \<mapsto> replicate 1024 None), rw_held := True,
      fds := (fds p)(fd \<mapsto> Dev g), ioctl_just_performed := False\<rparr>" "fok g"
  shows "\<exists>r q' g'. do {
      (r, out, p3) \<leftarrow> reply_loop ops intr sends 0 q client_fd (int fd) ma [];
      h' \<leftarrow> free (uheap p3) ma;
      Some (Done (r, out, p3\<lparr>uheap := h', rw_held := False\<rparr>))
    } = Some (Done (r, client_gets intr sends 0 (drop (fpos g) (bytes (devst p))), q')) \<and>
    devst q' = devst p \<and> uheap q' = uheap p \<and> \<not> rw_held q' \<and> fds q' = (fds p)(fd \<mapsto> Dev g') \<and> fok g'"
proof -
  have "fd_entry q client_fd = Some Sock"
    using q(1) assms(2,3) by (auto simp: fd_entry_def split: if_splits)
  from reply_section [OF _ _ q(2) this, of fd "uheap p" ma "replicate 1024 None" intr sends] show ?thesis
    using q(1) assms(1,4,5) by simp
qed

end

context char_device begin

abbreviation device_bytes :: "'d \<Rightarrow> byte list" where
  "device_bytes d \<equiv> concat (fst (content d))"

text \<open>
  The effect of a request \<open>bs\<close> on the device: a seek positions the file and is remembered in the
  flag, anything else is written and clears the flag; a request that fails changes nothing,
  unless it is longer than Linux writes in one call.
\<close>

definition seek_done :: "byte list \<Rightarrow> 'd \<Rightarrow> bool \<Rightarrow> 'f \<Rightarrow> 'd \<Rightarrow> bool \<Rightarrow> int \<Rightarrow> bool" where
  "seek_done bs d fl f' d' fl' r \<longleftrightarrow> d' = d \<and>
     (case request_pos bs (fst (content d)) of
        Some pos \<Rightarrow> r = 1 \<and> fl' \<and> fpos f' = pos
      | None \<Rightarrow> r = - 1 \<and> fl' = fl)"

definition write_done :: "(byte list \<Rightarrow> 'e) \<Rightarrow> byte list \<Rightarrow> 'd \<Rightarrow> bool \<Rightarrow> 'd \<Rightarrow> bool \<Rightarrow> int \<Rightarrow> bool" where
  "write_done env bs d fl d' fl' r \<longleftrightarrow>
     (if 0 < r then r = int (length bs) \<and> \<not> fl' \<and> content d' = spec_write bs (content d)
      else r = - 1 \<and> fl' = fl \<and>
        (length bs \<le> max_rw_count \<longrightarrow> content d' = content d \<and> \<not> env_good (env bs)))"

definition handled :: "(byte list \<Rightarrow> 'e) \<Rightarrow> byte list \<Rightarrow> 'd \<Rightarrow> bool \<Rightarrow> 'f \<Rightarrow> 'd \<Rightarrow> bool \<Rightarrow> int \<Rightarrow> bool" where
  "handled env bs d fl f' d' fl' r \<longleftrightarrow>
     (if seek_request bs then seek_done bs d fl f' d' fl' r else write_done env bs d fl d' fl' r)"

lemma sys_ioctl_dev:
  assumes "inv (devst p)" "fds p fd = Some (Dev f)" "fok f"
  obtains r f' where
    "sys_ioctl ops p (int fd) AESDCHAR_IOCSEEKTO s = Some (r, p\<lparr>fds := (fds p)(fd \<mapsto> Dev f')\<rparr>)" "fok f'"
    "if seek_ok (fst (content (devst p))) s then r \<noteq> - 1 \<and> fpos f' = seek_pos (fst (content (devst p))) s
     else r = - 1"
proof -
  obtain r f' where r: "dev_ioctl ops (devst p) f AESDCHAR_IOCSEEKTO s = Some (r, f', devst p)" "fok f'"
    "if seek_ok (fst (content (devst p))) s then r = 0 \<and> fpos f' = seek_pos (fst (content (devst p))) s
     else r < 0 \<and> f' = f"
    using ioctl_spec [OF assms(1,3), of s] by blast
  have "sys_ioctl ops p (int fd) AESDCHAR_IOCSEEKTO s =
      Some (if r < 0 then - 1 else r, p\<lparr>fds := (fds p)(fd \<mapsto> Dev f')\<rparr>)"
    using r(1) assms(2) by (cases p) (simp add: sys_ioctl_def)
  then show ?thesis using that r(2,3) by (auto split: if_splits)
qed

lemma sys_write_dev:
  assumes "inv (devst p)" "fds p fd = Some (Dev f)" "fok f" "env_ok e (devst p) bs" "bs \<noteq> []"
  obtains r f' d' where
    "sys_write ops e p (int fd) bs = Some (r, p\<lparr>devst := d', fds := (fds p)(fd \<mapsto> Dev f')\<rparr>)"
    "fok f'" "inv d'"
    "if 0 < r then r = int (min (length bs) max_rw_count) \<and> content d' = spec_write (take max_rw_count bs) (content (devst p))
     else r = - 1 \<and> content d' = content (devst p) \<and> \<not> env_good e"
proof -
  obtain r f' d' where r: "dev_write ops e (devst p) f bs = Some (r, f', d')" "inv d'" "fok f'"
    "env_good e \<longrightarrow> 0 < r"
    "if 0 < r then r = int (min (length bs) max_rw_count) \<and>
       content d' = spec_write (take max_rw_count bs) (content (devst p))
     else r < 0 \<and> content d' = content (devst p)"
    using write_spec [OF assms(1,3,4,5)] by blast
  have "sys_write ops e p (int fd) bs =
      Some (if r < 0 then - 1 else r, p\<lparr>devst := d', fds := (fds p)(fd \<mapsto> Dev f')\<rparr>)"
    using r(1) assms(2) by (simp add: sys_write_def)
  then show ?thesis using that r(2-5) by (auto split: if_splits)
qed

lemma store_request_run:
  assumes "inv (devst p)" "fds p fd = Some (Dev f)" "fok f" "\<not> rw_held p" "env_ok (env bs) (devst p) bs"
    and "uheap p = h0(b \<mapsto> map Some bs @ Some (CHR 0x00) # rest)" "b \<noteq> 0" "h0 b = None"
    and "bs \<noteq> []" "unat n = length bs"
  shows "\<exists>r p' f'. store_request ops env p (int fd) b n = Some (Done (r, p')) \<and>
    uheap p' = h0 \<and> \<not> rw_held p' \<and> fds p' = (fds p)(fd \<mapsto> Dev f') \<and> fok f' \<and> inv (devst p') \<and>
    handled env bs (devst p) (ioctl_just_performed p) f' (devst p') (ioctl_just_performed p') r"
proof -
  let ?p = "p\<lparr>rw_held := True\<rparr>"
  note eval = store_request_eval [OF assms(4,6,10)]
  have fr: "free (uheap p) b = Some h0" using assms(7,8) unfolding assms(6) by (simp add: fun_upd_idem)
  show ?thesis
  proof (cases "seek_request bs")
    case True
    show ?thesis
    proof (cases "seek_arg bs")
      case None
      then show ?thesis
        using True assms(1-3) fr
        by (auto simp: eval handled_def seek_done_def request_pos_def intro!: exI [of _ f])
    next
      case (Some s)
      obtain rc f' where "sys_ioctl ops ?p (int fd) AESDCHAR_IOCSEEKTO s =
          Some (rc, ?p\<lparr>fds := (fds p)(fd \<mapsto> Dev f')\<rparr>)" "fok f'"
        "if seek_ok (fst (content (devst p))) s then rc \<noteq> - 1 \<and> fpos f' = seek_pos (fst (content (devst p))) s
         else rc = - 1"
        by (rule sys_ioctl_dev [of ?p fd f s, unfolded proc.simps]) (use assms(1-3) in simp_all)
      then show ?thesis
        using True Some assms(1) fr
        by (auto simp: eval handled_def seek_done_def request_pos_def split: if_splits)
    qed
  next
    case False
    obtain r f' d' where w: "sys_write ops (env bs) ?p (int fd) bs =
        Some (r, ?p\<lparr>devst := d', fds := (fds p)(fd \<mapsto> Dev f')\<rparr>)" "fok f'" "inv d'"
      "if 0 < r then r = int (min (length bs) max_rw_count) \<and>
         content d' = spec_write (take max_rw_count bs) (content (devst p))
       else r = - 1 \<and> content d' = content (devst p) \<and> \<not> env_good (env bs)"
      by (rule sys_write_dev [of ?p fd f "env bs" bs, unfolded proc.simps]) (use assms(1-3,5,9) in simp_all)
    have "write_done env bs (devst p) (ioctl_just_performed p) d'
        (if r = int (length bs) then False else ioctl_just_performed p) (if r = int (length bs) then r else - 1)"
      using w(4) assms(9) by (auto simp: write_done_def min_def split: if_splits)
    then show ?thesis
      using False w(1-3) fr by (cases "r = int (length bs)") (auto simp: eval handled_def)
  qed
qed

text \<open>
  The reply: from the position the seek left, or else from the start of the device through a
  newly opened file, which gets the number of the old one.
\<close>

lemma return_socketdata_run:
  assumes "inv (devst p)" "fds p fd = Some (Dev f)" "fok f" "fd_entry p client_fd = Some Sock"
    and "\<not> rw_held p" "malloc_contract (uheap p) ma CLIENT_BUFFER_LEN"
    and "lowest_fd ((fds p)(fd := None)) = Some fd"
  shows "\<exists>r p' v. return_socketdata_to_client ops ma reopen intr sends p client_fd (int fd) =
      Some (Done (r, if ma = 0 \<or> \<not> ioctl_just_performed p \<and> \<not> reopen then []
        else client_gets intr sends 0
          (drop (if ioctl_just_performed p then fpos f else 0) (device_bytes (devst p))), p')) \<and>
    devst p' = devst p \<and> uheap p' = uheap p \<and> \<not> rw_held p' \<and> fds p' = (fds p)(fd := v) \<and>
    (\<forall>f'. v = Some (Dev f') \<longrightarrow> fok f')"
proof (cases "ma = 0")
  case True
  then show ?thesis
    using assms(2,3,5) by (auto simp: return_socketdata_to_client_def malloc_def Let_def intro!: exI [of _ "fds p fd"])
next
  case False
  have fresh: "uheap p ma = None" using assms(6) False by (simp add: malloc_contract_def)
  let ?blk = "replicate 1024 None :: block"
  let ?p1 = "p\<lparr>uheap := (uheap p)(ma \<mapsto> ?blk), rw_held := True\<rparr>"
  note code = return_socketdata_to_client_def malloc_def Let_def
  note replies = reply_from [OF assms(1,2,4) False fresh, where intr = intr and sends = sends]
  show ?thesis
  proof (cases "ioctl_just_performed p")
    case True
    have "?p1\<lparr>ioctl_just_performed := False\<rparr> = ?p1\<lparr>fds := (fds p)(fd \<mapsto> Dev f), ioctl_just_performed := False\<rparr>"
      using assms(2) by (simp add: fun_upd_idem)
    from replies [OF this assms(3)] True False assms(5) show ?thesis
      by (auto simp: code intro!: exI [of _ "Some (Dev _)"])
  next
    case seek: False
    show ?thesis
    proof (cases reopen)
      case False
      then show ?thesis
        using seek \<open>ma \<noteq> 0\<close> fresh assms(2,5,7)
        by (auto simp: code sys_open_def sys_close_def fun_upd_idem intro!: exI [of _ None])
    next
      case True
      obtain g where g: "sys_open ops True (sys_close (int fd) ?p1) = (int fd, ?p1\<lparr>fds := (fds p)(fd \<mapsto> Dev g)\<rparr>)"
        "fok g" "fpos g = 0"
        by (rule sys_reopen [of ?p1 fd, unfolded proc.simps]) (use assms(1,2,7) in simp_all)
      from replies [OF refl g(2)] g seek \<open>ma \<noteq> 0\<close> True assms(5) show ?thesis
        by (auto simp: code intro!: exI [of _ "Some (Dev _)"])
    qed
  qed
qed

lemma send_rcv_run:
  assumes "inv (devst p)" "fds p fd = Some (Dev f)" "fok f" "fd_entry p client_fd = Some Sock"
    and "\<not> rw_held p" "malloc_contract (uheap p) ca CLIENT_BUFFER_LEN" "realloc_contract ra (uheap p)"
    and "\<And>bs. env_ok (env bs) (devst p) bs"
  shows "\<exists>res. send_rcv_socket_data ops ca ra evs env p client_fd (int fd) = Some res \<and>
    (case res of
       Blocked \<Rightarrow> newline \<notin> set (arriving evs)
     | Done (r, p') \<Rightarrow> uheap p' = uheap p \<and> \<not> rw_held p' \<and> inv (devst p') \<and>
         (\<exists>f'. fds p' = (fds p)(fd \<mapsto> Dev f') \<and> fok f' \<and>
           (r = - 1 \<and> p' = p \<and> (newline \<in> set (arriving evs) \<longrightarrow> receive_oom ca ra (length (arriving evs))) \<or>
            (\<exists>bs. request_of (arriving evs) bs \<and>
               handled env bs (devst p) (ioctl_just_performed p) f' (devst p') (ioctl_just_performed p') r))))"
proof (cases rule: send_rcv_cases [OF assms(4,6,7), of ops evs env "int fd"])
  case 2
  then show ?thesis using assms(1-3,5) by (auto intro!: exI [of _ "Done (- 1, p)"] exI [of _ f])
next
  case (3 b n bs rest)
  obtain r p' f' where st:
    "store_request ops env (p\<lparr>uheap := (uheap p)(b \<mapsto> map Some bs @ Some (CHR 0x00) # rest)\<rparr>) (int fd) b n = Some (Done (r, p'))"
    "uheap p' = uheap p" "\<not> rw_held p'" "fds p' = (fds p)(fd \<mapsto> Dev f')" "fok f'" "inv (devst p')"
    "handled env bs (devst p) (ioctl_just_performed p) f' (devst p') (ioctl_just_performed p') r"
    using store_request_run [of "p\<lparr>uheap := (uheap p)(b \<mapsto> map Some bs @ Some (CHR 0x00) # rest)\<rparr>" fd f env bs "uheap p" b rest n]
      assms(1-3,5,8) 3(1-4) by auto
  then show ?thesis using 3(5,6) by auto
qed auto

text \<open>
  What a thread does to the device, and what its client receives: a seek gets the contents from
  the requested byte on, a line that is stored gets all of them, anything else nothing.
\<close>

definition served :: "'e thread_env \<Rightarrow> 'd \<Rightarrow> 'd \<Rightarrow> byte list \<Rightarrow> byte list \<Rightarrow> bool" where
  "served env d d' bs out \<longleftrightarrow>
     (if seek_request bs
      then d' = d \<and> out = (case request_pos bs (fst (content d)) of
             None \<Rightarrow> [] | Some pos \<Rightarrow> reply_bytes env (drop pos (device_bytes d)))
      else content d' = spec_write bs (content d) \<and>
             out = (if reopen_succeeds env then reply_bytes env (device_bytes d') else []) \<or>
           out = [] \<and> (length bs \<le> max_rw_count \<longrightarrow>
             content d' = content d \<and> \<not> env_good (write_envs env bs)))"

definition thread_post :: "'e thread_env \<Rightarrow> ('d, 'f) proc \<Rightarrow> byte list \<Rightarrow> ('d, 'f) proc \<Rightarrow> bool" where
  "thread_post env p out p' \<longleftrightarrow>
     (let inp = arriving (client_events env) in
      devst p' = devst p \<and> out = [] \<and>
        (newline \<in> set inp \<longrightarrow> \<not> open_succeeds env \<or> lowest_fd (fds p) = None \<or>
           receive_oom (calloc_addr env) (realloc_addr env) (length inp)) \<or>
      (\<exists>bs. request_of inp bs \<and> served env (devst p) (devst p') bs out))"

text \<open>A thread that cannot open the device only closes and frees what it was given.\<close>

lemma thread_unopened:
  assumes "uheap p args \<noteq> None" "args \<noteq> 0" "fds p c = Some Sock" "\<not> open_succeeds env \<or> lowest_fd (fds p) = None"
  shows "thread_operation ops env p args (int c) =
    Some (Done ([], p\<lparr>fds := (fds p)(c := None), uheap := (uheap p)(args := None)\<rparr>))"
proof -
  have "sys_open ops (open_succeeds env) p = (- 1, p)" using assms(4) by (auto simp: sys_open_def split: option.split)
  moreover have "sys_close (int c) p = p\<lparr>fds := (fds p)(c := None)\<rparr>" using assms(3) by (simp add: sys_close_def)
  ultimately show ?thesis using assms(1,2) by (auto simp: thread_operation_def free_def)
qed

text \<open>The reply of a thread whose request gave \<open>r\<close>, and what closing the file and the client leave.\<close>

definition thread_out :: "'e thread_env \<Rightarrow> int \<Rightarrow> 'd \<Rightarrow> bool \<Rightarrow> 'f \<Rightarrow> byte list" where
  "thread_out env r d sought f =
     (if r \<le> 0 \<or> malloc_addr env = 0 \<or> \<not> sought \<and> \<not> reopen_succeeds env then []
      else client_gets (read_signals env) (send_results env) 0
        (drop (if sought then fpos f else 0) (device_bytes d)))"

lemma thread_replies:
  assumes "inv (devst p)" "fds p fd = Some (Dev f)" "fok f" "fd_entry p client_fd = Some Sock" "\<not> rw_held p"
    and "malloc_contract (uheap p) (malloc_addr env) CLIENT_BUFFER_LEN" "lowest_fd ((fds p)(fd := None)) = Some fd"
  shows "\<exists>r' p' v. (if r > 0 then return_socketdata_to_client ops (malloc_addr env) (reopen_succeeds env)
        (read_signals env) (send_results env) p client_fd (int fd) else Some (Done (0, [], p))) =
      Some (Done (r', thread_out env r (devst p) (ioctl_just_performed p) f, p')) \<and>
    devst p' = devst p \<and> uheap p' = uheap p \<and> \<not> rw_held p' \<and> fds p' = (fds p)(fd := v)"
proof (cases "r > 0")
  case True
  then show ?thesis
    using return_socketdata_run [OF assms, of "reopen_succeeds env" "read_signals env" "send_results env"]
    by (auto simp: thread_out_def)
next
  case False
  then show ?thesis using assms(2,5) by (auto simp: thread_out_def fun_upd_idem intro!: exI [of _ "fds p fd"])
qed

lemma handled_served:
  "handled (write_envs env) bs d sought f' d' sought' r \<Longrightarrow> served env d d' bs (thread_out env r d' sought' f')"
  by (auto simp: served_def handled_def seek_done_def write_done_def reply_bytes_def thread_out_def
      split: if_splits option.splits)

lemma thread_finishes:
  assumes args: "args \<noteq> 0" "uheap p args \<noteq> None" "fds p c = Some Sock" and fd: "lowest_fd (fds p) = Some fd"
    and so: "sys_open ops (open_succeeds env) p = (int fd, p1)"
    and rcv: "send_rcv_socket_data ops (calloc_addr env) (realloc_addr env) (client_events env)
        (write_envs env) p1 (int c) (int fd) = Some (Done (r, p2))"
    and p2: "uheap p2 = uheap p" "\<not> rw_held p2" "inv (devst p2)" "fds p2 = (fds p)(fd \<mapsto> Dev f)" "fok f"
    and mc: "malloc_contract (uheap p) (malloc_addr env) CLIENT_BUFFER_LEN"
  shows "\<exists>p'. thread_operation ops env p args (int c) =
      Some (Done (thread_out env r (devst p2) (ioctl_just_performed p2) f, p')) \<and>
    fds p' = (fds p)(c := None) \<and> uheap p' = (uheap p)(args := None) \<and> devst p' = devst p2 \<and> \<not> rw_held p'"
proof -
  have fdn: "fds p fd = None" by (rule lowest_fd_free [OF fd])
  have sock: "fd_entry p2 (int c) = Some Sock" using args(3) fdn p2(4) by (cases "c = fd") simp_all
  have low: "lowest_fd ((fds p2)(fd := None)) = Some fd" using fd fdn p2(4) by (simp add: fun_upd_idem)
  obtain r' p3 v where p3: "(if r > 0 then return_socketdata_to_client ops (malloc_addr env)
        (reopen_succeeds env) (read_signals env) (send_results env) p2 (int c) (int fd)
        else Some (Done (0, [], p2))) = Some (Done (r', thread_out env r (devst p2) (ioctl_just_performed p2) f, p3))"
    "devst p3 = devst p2" "uheap p3 = uheap p" "\<not> rw_held p3" "fds p3 = (fds p2)(fd := v)"
    using thread_replies [of p2 fd f "int c" env r] p2 sock low mc by auto
  define p4 where "p4 = sys_close (int c) (sys_close (int fd) p3)"
  have p4: "fds p4 = (fds p)(c := None)" "uheap p4 = uheap p" "devst p4 = devst p2" "\<not> rw_held p4"
    using thread_closes [of p3 p fd v c] p3(2-5) p2(4) fdn args(3) by (simp_all add: p4_def)
  have "thread_operation ops env p args (int c) = Some (Done (thread_out env r (devst p2) (ioctl_just_performed p2) f,
      p4\<lparr>uheap := (uheap p)(args := None)\<rparr>))"
    using args(1,2) so rcv p3(1) p4(2) by (auto simp: thread_operation_def p4_def [symmetric] free_def)
  with p4 show ?thesis by auto
qed

text \<open>The part of the thread up to its reply: the device is open and a request was received and handled.\<close>

definition received :: "'e thread_env \<Rightarrow> ('d, 'f) proc \<Rightarrow> nat \<Rightarrow> int \<Rightarrow> ('d, 'f) proc \<Rightarrow> 'f \<Rightarrow> bool" where
  "received env p fd r p2 f \<longleftrightarrow>
     uheap p2 = uheap p \<and> \<not> rw_held p2 \<and> inv (devst p2) \<and> fds p2 = (fds p)(fd \<mapsto> Dev f) \<and> fok f \<and>
     (let inp = arriving (client_events env) in
        r = - 1 \<and> devst p2 = devst p \<and>
          (newline \<in> set inp \<longrightarrow> receive_oom (calloc_addr env) (realloc_addr env) (length inp)) \<or>
        (\<exists>bs. request_of inp bs \<and> handled (write_envs env) bs (devst p) (ioctl_just_performed p) f (devst p2)
           (ioctl_just_performed p2) r))"

lemma thread_receives:
  assumes ok: "proc_ok inv fok p" and c: "fds p c = Some Sock"
    and env: "allocs_ok (uheap p) env" "\<And>bs. env_ok (write_envs env bs) (devst p) bs"
    and fd: "lowest_fd (fds p) = Some fd" "open_succeeds env"
  obtains p1 res where "sys_open ops (open_succeeds env) p = (int fd, p1)"
    "send_rcv_socket_data ops (calloc_addr env) (realloc_addr env) (client_events env)
       (write_envs env) p1 (int c) (int fd) = Some res"
    "case res of Blocked \<Rightarrow> newline \<notin> set (arriving (client_events env))
       | Done (r, p2) \<Rightarrow> \<exists>f. received env p fd r p2 f"
proof -
  have fdn: "fds p fd = None" by (rule lowest_fd_free [OF fd(1)])
  have ok': "inv (devst p)" "\<not> rw_held p" using ok by (simp_all add: proc_ok_def)
  obtain f where f: "dev_open ops (devst p) = (f, devst p)" "fok f" using open_spec [OF ok'(1)] by blast
  define p1 where "p1 = p\<lparr>fds := (fds p)(fd \<mapsto> Dev f)\<rparr>"
  have so: "sys_open ops (open_succeeds env) p = (int fd, p1)"
    using fd f(1) by (cases p) (simp add: sys_open_def p1_def)
  have p1: "devst p1 = devst p" "uheap p1 = uheap p" "fds p1 = (fds p)(fd \<mapsto> Dev f)" "\<not> rw_held p1"
    "ioctl_just_performed p1 = ioctl_just_performed p"
    using ok'(2) by (simp_all add: p1_def)
  have sock: "fd_entry p1 (int c) = Some Sock" using c fdn p1(3) by (cases "c = fd") simp_all
  show thesis
    using send_rcv_run [of p1 fd f "int c" "calloc_addr env" "realloc_addr env" "write_envs env" "client_events env"]
      ok'(1) f(2) sock p1 env that [OF so]
    unfolding allocs_ok_def received_def Let_def by (fastforce split: outcome.splits)
qed

lemma received_post:
  assumes "received env p fd r p2 f" "devst p' = devst p2"
  shows "thread_post env p (thread_out env r (devst p2) (ioctl_just_performed p2) f) p'"
  using assms handled_served [of env _ "devst p" "ioctl_just_performed p" f "devst p2" "ioctl_just_performed p2" r]
  unfolding received_def thread_post_def Let_def by (auto simp: thread_out_def)

lemma thread_run:
  assumes ok: "proc_ok inv fok p" and args: "args \<noteq> 0" "uheap p args \<noteq> None" "fds p c = Some Sock"
    and env: "allocs_ok (uheap p) env" "\<And>bs. env_ok (write_envs env bs) (devst p) bs"
  shows "\<exists>res. thread_operation ops env p args (int c) = Some res \<and>
    (case res of
       Blocked \<Rightarrow> newline \<notin> set (arriving (client_events env))
     | Done (out, p') \<Rightarrow> proc_ok inv fok p' \<and> fds p' = (fds p)(c := None) \<and>
         uheap p' = (uheap p)(args := None) \<and> thread_post env p out p')"
proof (cases "open_succeeds env \<and> lowest_fd (fds p) \<noteq> None")
  case False
  then show ?thesis
    using thread_unopened [OF args(2,1,3)] ok by (auto simp: thread_post_def proc_ok_def Let_def)
next
  case True
  then obtain fd where fd: "lowest_fd (fds p) = Some fd" and op: "open_succeeds env" by auto
  obtain p1 res1 where so: "sys_open ops (open_succeeds env) p = (int fd, p1)"
    and r1: "send_rcv_socket_data ops (calloc_addr env) (realloc_addr env) (client_events env)
        (write_envs env) p1 (int c) (int fd) = Some res1"
      "case res1 of Blocked \<Rightarrow> newline \<notin> set (arriving (client_events env))
       | Done (r, p2) \<Rightarrow> \<exists>f. received env p fd r p2 f"
    by (rule thread_receives [OF ok args(3) env fd op])
  show ?thesis
  proof (cases res1)
    case Blocked
    then have "thread_operation ops env p args (int c) = Some Blocked"
      using args(2) so r1(1) by (auto simp: thread_operation_def)
    with r1(2) Blocked show ?thesis by simp
  next
    case (Done rp)
    then obtain r p2 f where rp: "res1 = Done (r, p2)" and rec: "received env p fd r p2 f"
      using r1(2) by (cases rp) auto
    then have p2: "uheap p2 = uheap p" "\<not> rw_held p2" "inv (devst p2)" "fds p2 = (fds p)(fd \<mapsto> Dev f)" "fok f"
      by (simp_all add: received_def)
    obtain p' where run: "thread_operation ops env p args (int c) =
        Some (Done (thread_out env r (devst p2) (ioctl_just_performed p2) f, p'))"
      "fds p' = (fds p)(c := None)" "uheap p' = (uheap p)(args := None)" "devst p' = devst p2" "\<not> rw_held p'"
      using thread_finishes [OF args fd so r1(1) [unfolded rp] p2] env(1) unfolding allocs_ok_def by blast
    have "thread_post env p (thread_out env r (devst p2) (ioctl_just_performed p2) f) p'"
      by (rule received_post [OF rec run(4)])
    then show ?thesis using run p2(3) ok by (auto simp: proc_ok_def split: if_splits)
  qed
qed

end

end
