(* ===== verification/Socket_Properties.thy ===== *)
theory Socket_Properties
  imports Socket_Thread
begin

text \<open>
  The properties of a server thread on the driver of this repository: the receiving loop, the
  seek command, and what a client gets.
\<close>

section \<open>A small server\<close>

text \<open>Client 4 is connected to a process whose device is the one of \<open>demo_st\<close>.\<close>

definition demo_proc :: "(kst, file_t) proc" where
  "demo_proc = \<lparr>devst = demo_st, fds = [0 \<mapsto> Sock, 1 \<mapsto> Sock, 2 \<mapsto> Sock, 3 \<mapsto> Sock, 4 \<mapsto> Sock],
     uheap = [50 \<mapsto> []], rw_held = False, ioctl_just_performed = False\<rparr>"

definition demo_env :: "byte list \<Rightarrow> write_env thread_env" where
  "demo_env request = \<lparr>open_succeeds = True, calloc_addr = 60,
     realloc_addr = (\<lambda>n. if unat n < 2 ^ 63 then 60 else 0), client_events = [Data request],
     write_envs = (\<lambda>_. (500, 300, False)), malloc_addr = 60, reopen_succeeds = True,
     read_signals = (\<lambda>_. False), send_results = (\<lambda>_. Sent 1024)\<rparr>"

lemma demo_proc_ok: "proc_ok dev_inv file_ok demo_proc"
  by (auto simp: proc_ok_def demo_proc_def split: if_splits)

lemma demo_proc_sel [simp]:
  "devst demo_proc = demo_st" "fds demo_proc 4 = Some Sock" "uheap demo_proc 50 = Some []"
  "uheap demo_proc 60 = None"
  by (simp_all add: demo_proc_def)

lemma demo_lowest [simp]: "lowest_fd (fds demo_proc) = Some 5"
  by (rule lowest_fdI) (auto simp: demo_proc_def)

lemma demo_env_sel [simp]:
  "open_succeeds (demo_env bs)" "reopen_succeeds (demo_env bs)" "malloc_addr (demo_env bs) = 60"
  "client_events (demo_env bs) = [Data bs]" "send_results (demo_env bs) i = Sent 1024"
  "read_signals (demo_env bs) i = False" "write_envs (demo_env bs) data = (500, 300, False)"
  "calloc_addr (demo_env bs) = 60"
  by (simp_all add: demo_env_def)

lemma demo_allocs: "allocs_ok (uheap demo_proc) (demo_env bs)"
  by (auto simp: allocs_ok_def malloc_contract_def realloc_contract_def demo_env_def demo_proc_def)

lemma demo_write_env: "aesd_env_ok (write_envs (demo_env bs) data) (devst demo_proc) data"
proof -
  define n where "n = (word_of_nat (min (length data) max_rw_count) :: u64)"
  have "unat n = min (length data) max_rw_count" unfolding n_def by (rule unat_rw_count)
  then have n: "unat n \<le> max_rw_count" by simp
  then have "unat (1 + n) = 1 + unat n"
    using unat_plus_small [of 1 n] by (simp add: max_rw_count_def)
  then have "write_alloc_contract demo_st n 500 300"
    using n by (simp add: write_alloc_contract_def kmalloc_contract_def krealloc_contract_def
        demo_st_def demo_heap_def kmalloc_max_def max_rw_count_def)
  then show ?thesis by (simp add: aesd_env_ok_def n_def)
qed

section \<open>The seek command\<close>

lemma scan_seek_decimal:
  assumes "rest = [] \<or> \<not> is_digit (hd rest)"
  shows "scan_seek (decimal (unat a) @ [CHR '',''] @ decimal (unat b) @ rest) =
    Some \<lparr>write_cmd = a, write_cmd_offset = b\<rparr>"
proof -
  have "\<not> is_digit (CHR '','')" by (simp add: is_digit_def)
  then have "scan_u (decimal (unat a) @ CHR '','' # decimal (unat b) @ rest) =
      Some (a, CHR '','' # decimal (unat b) @ rest)"
    by (intro scan_u_decimal) simp
  moreover have "scan_u (decimal (unat b) @ rest) = Some (b, rest)" by (rule scan_u_decimal [OF assms])
  ultimately show ?thesis by (simp add: scan_seek_def)
qed

text \<open>
  C16.  The conversion the server applies to a seek command reads back any two 32-bit numbers in
  decimal notation, whatever follows them (no digit).
\<close>

theorem scan_seek_reads_decimal:
  assumes "rest = [] \<or> \<not> is_digit (hd rest)"
  shows "scan_seek (decimal (unat a) @ [CHR '',''] @ decimal (unat b) @ rest) =
    Some \<lparr>write_cmd = a, write_cmd_offset = b\<rparr>"
  by (rule scan_seek_decimal [OF assms])

theorem scan_seek_reads_decimal_witness:
  "scan_seek (decimal 4294967295 @ [CHR '',''] @ decimal 7 @ [newline]) =
     Some \<lparr>write_cmd = 4294967295, write_cmd_offset = 7\<rparr>"
proof -
  have "unat (4294967295 :: u32) = 4294967295" "unat (7 :: u32) = 7" by simp_all
  then show ?thesis
    using scan_seek_reads_decimal [of "[newline]" 4294967295 7] by (simp add: is_digit_def)
qed

section \<open>Receiving\<close>

text \<open>
  C17.  The receiving loop on a freshly allocated buffer never writes or reads outside of it and
  never uses it after freeing it.  It ends with a buffer that holds exactly the bytes received,
  up to the end of the piece with the first newline, and a terminating NUL; or with the heap as
  it was before; it waits for ever only for a client that never sends a newline.
\<close>

theorem recv_loop_collects:
  assumes "a \<noteq> 0" "h a = None" "realloc_contract ra h"
  shows "\<exists>ex. recv_loop ra (h(a \<mapsto> replicate 1024 (Some (CHR 0x00)))) a 0 CLIENT_BUFFER_LEN evs = Some ex \<and>
    (case ex of
       Waiting \<Rightarrow> newline \<notin> set (arriving evs)
     | Gave_up h' \<Rightarrow> h' = h
     | Complete p n h' \<Rightarrow> h p = None \<and> (\<exists>bs rest. request_of (arriving evs) bs \<and> unat n = length bs \<and>
         h' = h(p \<mapsto> map Some bs @ Some (CHR 0x00) # rest)))"
proof -
  obtain ex where ex: "recv_loop ra (h(a \<mapsto> replicate 1024 (Some (CHR 0x00)))) a 0 CLIENT_BUFFER_LEN evs = Some ex"
      "recv_post ra h [] (arriving evs) ex"
    by (rule recv_fresh [OF _ assms(1,3), of evs]) (use assms(2) in \<open>simp_all add: malloc_contract_def\<close>)
  show ?thesis
  proof (intro exI [of _ ex] conjI ex(1), cases ex)
    case (Complete p n h')
    then obtain front tail rest later where
      "h' = h(p \<mapsto> map Some (front @ tail) @ Some (CHR 0x00) # rest)" "unat n = length (front @ tail)"
      "arriving evs = front @ tail @ later" "newline \<notin> set front" "newline \<in> set tail" "h p = None"
      using ex(2) by (auto simp: recv_post_def got_line_def)
    moreover from this have "request_of (arriving evs) (front @ tail)" by (auto simp: request_of_def)
    ultimately show "case ex of Waiting \<Rightarrow> newline \<notin> set (arriving evs) | Gave_up h' \<Rightarrow> h' = h
      | Complete p n h' \<Rightarrow> h p = None \<and> (\<exists>bs rest. request_of (arriving evs) bs \<and> unat n = length bs \<and>
          h' = h(p \<mapsto> map Some bs @ Some (CHR 0x00) # rest))"
      unfolding Complete recv_exit.case by blast
  qed (use ex(2) in \<open>simp_all add: recv_post_def\<close>)
qed

theorem recv_loop_collects_witness:
  "\<exists>ex. recv_loop (\<lambda>n. if unat n < 2 ^ 63 then 60 else 0)
      ([50 \<mapsto> []](60 \<mapsto> replicate 1024 (Some (CHR 0x00)))) 60 0 CLIENT_BUFFER_LEN
      [Data ''hi'', Data [newline]] = Some ex \<and> ex \<noteq> Waiting"
proof -
  have "realloc_contract (\<lambda>n. if unat n < 2 ^ 63 then 60 else 0) [50 \<mapsto> []]"
    by (simp add: realloc_contract_def malloc_contract_def)
  from recv_loop_collects [OF _ _ this, of 60 "[Data ''hi'', Data [newline]]"] show ?thesis by auto
qed

section \<open>A thread\<close>

text \<open>
  C18.  A thread that serves a client, whatever the client sends, the allocator returns, signals
  interrupt and sends transfer, has a defined result, and waits for ever only for a client that
  never sends a newline.  When it ends it has closed the client's descriptor and every one it
  opened, freed its argument and everything it allocated, released both mutexes, and left the
  device in a valid state.
\<close>

theorem thread_cleans_up:
  assumes "proc_ok dev_inv file_ok p" "args \<noteq> 0" "uheap p args \<noteq> None" "fds p c = Some Sock"
    and "allocs_ok (uheap p) env" "\<And>bs. aesd_env_ok (write_envs env bs) (devst p) bs"
  shows "\<exists>res. thread_operation aesd_ops env p args (int c) = Some res \<and>
    (case res of
       Blocked \<Rightarrow> newline \<notin> set (arriving (client_events env))
     | Done (out, p') \<Rightarrow> dev_inv (devst p') \<and> \<not> rw_held p' \<and> fds p' = (fds p)(c := None) \<and>
         uheap p' = (uheap p)(args := None))"
proof -
  obtain res where "thread_operation aesd_ops env p args (int c) = Some res"
    "case res of Blocked \<Rightarrow> newline \<notin> set (arriving (client_events env))
     | Done (out, p') \<Rightarrow> proc_ok dev_inv file_ok p' \<and> fds p' = (fds p)(c := None) \<and>
         uheap p' = (uheap p)(args := None) \<and> aesdchar.thread_post env p out p'"
    using aesdchar.thread_run [OF assms] by blast
  then show ?thesis by (auto simp: proc_ok_def split: outcome.splits)
qed

theorem thread_cleans_up_witness:
  "\<exists>out p'. thread_operation aesd_ops (demo_env [newline]) demo_proc 50 4 = Some (Done (out, p')) \<and>
     fds p' = (fds demo_proc)(4 := None) \<and> uheap p' = Map.empty"
proof -
  have "uheap demo_proc = [50 \<mapsto> []]" by (simp add: demo_proc_def)
  moreover obtain res where "thread_operation aesd_ops (demo_env [newline]) demo_proc 50 (int 4) = Some res"
    "case res of Blocked \<Rightarrow> newline \<notin> set (arriving (client_events (demo_env [newline])))
     | Done (out, p') \<Rightarrow> dev_inv (devst p') \<and> \<not> rw_held p' \<and> fds p' = (fds demo_proc)(4 := None) \<and>
         uheap p' = (uheap demo_proc)(50 := None)"
    using thread_cleans_up [OF demo_proc_ok _ _ demo_proc_sel(2) demo_allocs demo_write_env, of 50 "[newline]"]
    by auto
  ultimately show ?thesis by (cases res) auto
qed

text \<open>
  Nothing goes wrong around a thread that receives up to \<open>n\<close> bytes: descriptors and memory are
  available, no signal arrives, and every send takes the whole chunk.
\<close>

definition smooth :: "(kst, file_t) proc \<Rightarrow> write_env thread_env \<Rightarrow> nat \<Rightarrow> bool" where
  "smooth p env n \<longleftrightarrow>
     open_succeeds env \<and> reopen_succeeds env \<and> lowest_fd (fds p) \<noteq> None \<and> calloc_addr env \<noteq> 0 \<and>
     malloc_addr env \<noteq> 0 \<and> (\<forall>m. unat m \<le> 2 * n \<longrightarrow> realloc_addr env m \<noteq> 0) \<and>
     (\<forall>i. \<not> read_signals env i \<and> (\<exists>k \<ge> 1024. send_results env i = Sent k)) \<and>
     (\<forall>bs. aesd_env_good (write_envs env bs)) \<and> n \<le> max_rw_count"

lemma smooth_reply: "smooth p env n \<Longrightarrow> reply_bytes env data = data"
  by (auto simp: smooth_def reply_bytes_def intro: client_gets_all)

lemma demo_smooth: "n < 2000 \<Longrightarrow> smooth demo_proc (demo_env bs) n"
  by (auto simp: smooth_def demo_env_def aesd_env_good_def max_rw_count_def)

text \<open>The request of a client that sends a single line is that line.\<close>

lemma thread_line:
  assumes "proc_ok dev_inv file_ok p" "args \<noteq> 0" "uheap p args \<noteq> None" "fds p c = Some Sock"
    and "allocs_ok (uheap p) env" "\<And>bs. aesd_env_ok (write_envs env bs) (devst p) bs"
    and "smooth p env (length cs + 1)" "arriving (client_events env) = cs @ [newline]" "newline \<notin> set cs"
  shows "\<exists>out p'. thread_operation aesd_ops env p args (int c) = Some (Done (out, p')) \<and>
    aesdchar.served env (devst p) (devst p') (cs @ [newline]) out"
proof -
  obtain res where res: "thread_operation aesd_ops env p args (int c) = Some res"
    "case res of Blocked \<Rightarrow> newline \<notin> set (arriving (client_events env))
     | Done (out, p') \<Rightarrow> proc_ok dev_inv file_ok p' \<and> fds p' = (fds p)(c := None) \<and>
         uheap p' = (uheap p)(args := None) \<and> aesdchar.thread_post env p out p'"
    using aesdchar.thread_run [OF assms(1-6)] by blast
  then obtain out p' where d: "res = Done (out, p')" "aesdchar.thread_post env p out p'"
    using assms(8) by (cases res) auto
  have "\<not> receive_oom (calloc_addr env) (realloc_addr env) (length (cs @ [newline]))"
    using assms(7) by (auto simp: receive_oom_def smooth_def)
  then obtain bs where bs: "request_of (cs @ [newline]) bs" "aesdchar.served env (devst p) (devst p') bs out"
    using d(2) assms(7,8) by (auto simp: aesdchar.thread_post_def Let_def smooth_def)
  from request_of_line [OF bs(1) assms(9)] bs(2) res(1) d(1) show ?thesis by blast
qed

text \<open>
  C19.  A client that sends a line, in any pieces, has it stored as the end of the unfinished
  command, and receives all that the device then holds: the last ten commands, its own included.
\<close>

theorem thread_stores_and_returns:
  assumes "proc_ok dev_inv file_ok p" "args \<noteq> 0" "uheap p args \<noteq> None" "fds p c = Some Sock"
    and "allocs_ok (uheap p) env" "\<And>bs. aesd_env_ok (write_envs env bs) (devst p) bs"
    and "smooth p env (length cs + 1)" "arriving (client_events env) = cs @ [newline]" "newline \<notin> set cs"
    and "\<not> seek_request (cs @ [newline])"
  shows "\<exists>p'. thread_operation aesd_ops env p args (int c) =
      Some (Done (concat (push 10 (commands (devst p)) (pending (devst p) @ cs @ [newline])), p')) \<and>
    commands (devst p') = push 10 (commands (devst p)) (pending (devst p) @ cs @ [newline]) \<and>
    pending (devst p') = []"
proof -
  obtain out p' where r: "thread_operation aesd_ops env p args (int c) = Some (Done (out, p'))"
    "aesdchar.served env (devst p) (devst p') (cs @ [newline]) out"
    using thread_line [OF assms(1-9)] by blast
  have "abs_dev (devst p') = spec_write (cs @ [newline]) (abs_dev (devst p))"
    "out = concat (fst (abs_dev (devst p')))"
    using r(2) assms(7,10) smooth_reply [OF assms(7)]
    by (auto simp: aesdchar.served_def smooth_def)
  with r(1) show ?thesis by (simp add: abs_dev_def spec_write_newline)
qed

theorem thread_stores_and_returns_witness:
  "\<exists>p'. thread_operation aesd_ops (demo_env [CHR ''z'', newline]) demo_proc 50 4 =
      Some (Done ([CHR ''a'', CHR ''b'', newline, CHR ''c'', CHR ''d'', CHR ''e'', newline,
                   CHR ''x'', CHR ''z'', newline], p'))"
  using thread_stores_and_returns [OF demo_proc_ok _ _ demo_proc_sel(2) demo_allocs demo_write_env
      demo_smooth, of 50 "''z''" "[CHR ''z'', newline]"]
  by (auto simp: demo_abs push_def seek_request_def SEEK_COMMAND_def)

lemma digits_plain: "\<forall>c \<in> set (decimal n). c \<noteq> newline \<and> c \<noteq> CHR 0x00"
proof -
  have "\<not> is_digit newline" "\<not> is_digit (CHR 0x00)" by (simp_all add: is_digit_def)
  then show ?thesis using decimal_digits [of n] by metis
qed

lemma seek_line:
  defines "bs (a :: u32) (b :: u32) \<equiv> SEEK_COMMAND @ decimal (unat a) @ [CHR '',''] @ decimal (unat b)"
  shows "newline \<notin> set (bs a b)" "seek_request (bs a b @ [newline])"
    "seek_arg (bs a b @ [newline]) = Some \<lparr>write_cmd = a, write_cmd_offset = b\<rparr>"
proof -
  show "newline \<notin> set (bs a b)" using digits_plain by (auto simp: bs_def SEEK_COMMAND_def)
  show "seek_request (bs a b @ [newline])" by (simp add: seek_request_def bs_def)
  have "takeWhile (\<lambda>c. c \<noteq> CHR 0x00) (decimal (unat a) @ [CHR '',''] @ decimal (unat b) @ [newline]) =
      decimal (unat a) @ [CHR '',''] @ decimal (unat b) @ [newline]"
    using digits_plain by (subst takeWhile_eq_all_conv) auto
  then show "seek_arg (bs a b @ [newline]) = Some \<lparr>write_cmd = a, write_cmd_offset = b\<rparr>"
    using scan_seek_decimal [of "[newline]" a b] by (simp add: seek_arg_def bs_def is_digit_def)
qed

text \<open>
  C20.  A client that sends the seek command for two numbers receives the stored bytes from that
  offset of that command on, or nothing when there is no such byte; the device is unchanged.
\<close>

theorem thread_seeks_and_returns:
  assumes "proc_ok dev_inv file_ok p" "args \<noteq> 0" "uheap p args \<noteq> None" "fds p c = Some Sock"
    and "allocs_ok (uheap p) env" "\<And>bs. aesd_env_ok (write_envs env bs) (devst p) bs"
    and "smooth p env (length (arriving (client_events env)))"
    and "arriving (client_events env) =
      SEEK_COMMAND @ decimal (unat (a :: u32)) @ [CHR '',''] @ decimal (unat (b :: u32)) @ [newline]"
  shows "\<exists>p'. thread_operation aesd_ops env p args (int c) =
      Some (Done (if unat a < length (commands (devst p)) \<and> unat b < length (commands (devst p) ! unat a)
        then drop (unat b) (commands (devst p) ! unat a) @ concat (drop (Suc (unat a)) (commands (devst p)))
        else [], p')) \<and> devst p' = devst p"
proof -
  let ?cs = "SEEK_COMMAND @ decimal (unat a) @ [CHR '',''] @ decimal (unat b)"
  let ?s = "\<lparr>write_cmd = a, write_cmd_offset = b\<rparr>"
  have arr: "arriving (client_events env) = ?cs @ [newline]" using assms(8) by simp
  obtain out p' where r: "thread_operation aesd_ops env p args (int c) = Some (Done (out, p'))"
    "aesdchar.served env (devst p) (devst p') (?cs @ [newline]) out"
    using thread_line [OF assms(1-6) _ arr seek_line(1)] assms(7) arr by auto
  have valid: "seek_ok (commands (devst p)) ?s = seek_valid (devst p) ?s"
    by (simp add: seek_ok_def seek_valid_def)
  have "devst p' = devst p \<and> out = (if seek_valid (devst p) ?s
      then drop (seek_offset (devst p) ?s) (stored (devst p)) else [])"
    using r(2) seek_line(2,3) smooth_reply [OF assms(7)]
    by (auto simp: aesdchar.served_def request_pos_def abs_dev_def valid stored_def
        seek_pos_def seek_offset_def)
  with r(1) stored_nth_seek [of "devst p" ?s] show ?thesis by (auto simp: seek_valid_def)
qed

theorem thread_seeks_and_returns_witness:
  "\<exists>p'. thread_operation aesd_ops (demo_env (SEEK_COMMAND @ [CHR ''1'', CHR '','', CHR ''2'', newline]))
      demo_proc 50 4 = Some (Done ([CHR ''e'', newline], p'))"
proof -
  have u: "unat (1 :: u32) = 1" "unat (2 :: u32) = 2" by simp_all
  have d: "decimal 1 = [CHR ''1'']" "decimal 2 = [CHR ''2'']"
    by (simp_all add: decimal.simps char_of_def bit_0)
  show ?thesis
    using thread_seeks_and_returns [OF demo_proc_ok _ _ demo_proc_sel(2) demo_allocs demo_write_env
        demo_smooth, of 50 "SEEK_COMMAND @ [CHR ''1'', CHR '','', CHR ''2'', newline]" 1 2]
    unfolding u d by (auto simp: demo_abs SEEK_COMMAND_def)
qed

end
