(* ===== verification/Socket_Main.thy ===== *)
theory Socket_Main
  imports Socket_Properties
begin

text \<open>
  The main thread of \<^verbatim>\<open>server/aesdsocket.c\<close>: accepting clients, creating a thread for each, the
  list of threads to join, termination by a signal, and turning into a daemon.  The main thread
  joins every listed thread before it accepts the next client, so joining is where a thread
  runs; a thread that is not listed because its node could not be allocated runs at some later
  moment, which is an event of its own (here it runs as a whole; the theory of the pool of threads lets
  such threads interleave).
\<close>

section \<open>State\<close>

text \<open>
  \<open>head\<close> is the list behind \<^verbatim>\<open>SLIST_HEAD\<close>, of thread ids and the addresses of their nodes;
  \<open>running\<close> has the threads that have been created and have not ended, with the argument block,
  the client and the environment of each; \<open>replies\<close> is what the clients served so far received.
\<close>

record ('d, 'f, 'e) server =
  sproc :: "('d, 'f) proc"
  head :: "(nat \<times> addr) list"
  running :: "nat \<rightharpoonup> addr \<times> nat \<times> 'e thread_env"
  next_tid :: nat
  exit_flag :: bool
  replies :: "byte list list"

section \<open>Threads\<close>

text \<open>\<^verbatim>\<open>sizeof(thread_arg)\<close> and \<^verbatim>\<open>sizeof(thread_node)\<close> on a 64-bit system.\<close>

definition sizeof_thread_arg :: u64 where "sizeof_thread_arg = 136"
definition sizeof_thread_node :: u64 where "sizeof_thread_node = 16"

definition thread_node_add :: "addr \<Rightarrow> nat \<Rightarrow> ('d, 'f, 'e) server \<Rightarrow> ('d, 'f, 'e) server" where
  "thread_node_add na tid s =
     (let (node, h) = malloc (uheap (sproc s)) na sizeof_thread_node in
      if node = 0 then s
      else s\<lparr>sproc := (sproc s)\<lparr>uheap := h\<rparr>, head := (tid, node) # head s\<rparr>)"

text \<open>A thread runs to its end; afterwards it is no longer running.\<close>

definition run_thread ::
  "('d, 'f, 'e) dev_ops \<Rightarrow> nat \<Rightarrow> ('d, 'f, 'e) server \<Rightarrow> ('d, 'f, 'e) server outcome option" where
  "run_thread ops tid s =
     (case running s tid of
        None \<Rightarrow> Some (Done s)
      | Some (args, c, env) \<Rightarrow> do {
          res \<leftarrow> thread_operation ops env (sproc s) args (int c);
          (case res of
             Blocked \<Rightarrow> Some Blocked
           | Done (out, p) \<Rightarrow> Some (Done (s\<lparr>sproc := p, running := (running s)(tid := None),
               replies := replies s @ [out]\<rparr>)))
        })"

text \<open>The loop of \<^verbatim>\<open>thread_join\<close> over the list: joining waits for the thread, then its node is removed and freed.\<close>

fun join_loop ::
  "('d, 'f, 'e) dev_ops \<Rightarrow> (nat \<times> addr) list \<Rightarrow> ('d, 'f, 'e) server \<Rightarrow> ('d, 'f, 'e) server outcome option" where
  "join_loop ops [] s = Some (Done s)"
| "join_loop ops ((tid, node) # next) s = do {
     res \<leftarrow> run_thread ops tid s;
     (case res of
        Blocked \<Rightarrow> Some Blocked
      | Done s1 \<Rightarrow> do {
          h \<leftarrow> free (uheap (sproc s1)) node;
          join_loop ops next
            (s1\<lparr>head := remove1 (tid, node) (head s1), sproc := (sproc s1)\<lparr>uheap := h\<rparr>\<rparr>)
        })
   }"

definition thread_join :: "('d, 'f, 'e) dev_ops \<Rightarrow> ('d, 'f, 'e) server \<Rightarrow> ('d, 'f, 'e) server outcome option" where
  "thread_join ops s = join_loop ops (head s) s"

section \<open>The main loop\<close>

text \<open>
  One turn of the accept loop: the results of the allocations and of \<^verbatim>\<open>pthread_create\<close> and the
  environment of the client's thread; or a failing \<^verbatim>\<open>accept\<close>, with the number of the signal that
  interrupted it if one did (a signal during another turn has its effect after it);
  or a thread that is not in the list gets its turn.
\<close>

datatype 'e event =
    Accept_fails "int option"
  | Client addr bool addr "'e thread_env"
  | Unlisted nat

definition signal_handler :: "int \<Rightarrow> ('d, 'f, 'e) server \<Rightarrow> ('d, 'f, 'e) server" where
  "signal_handler signo s = (if signo = SIGINT \<or> signo = SIGTERM then s\<lparr>exit_flag := True\<rparr> else s)"

definition main_turn ::
  "('d, 'f, 'e) dev_ops \<Rightarrow> 'e event \<Rightarrow> ('d, 'f, 'e) server \<Rightarrow> ('d, 'f, 'e) server outcome option" where
  "main_turn ops ev s =
     (case ev of
        Accept_fails sig \<Rightarrow> Some (Done (case sig of None \<Rightarrow> s | Some signo \<Rightarrow> signal_handler signo s))
      | Unlisted tid \<Rightarrow> if tid \<in> fst ` set (head s) then Some (Done s) else run_thread ops tid s
      | Client ma created na env \<Rightarrow>
          (case lowest_fd (fds (sproc s)) of
             None \<Rightarrow> Some (Done s)
           | Some client_fd \<Rightarrow> do {
               let p1 = (sproc s)\<lparr>fds := (fds (sproc s))(client_fd \<mapsto> Sock)\<rparr>;
               let (t_args, h) = malloc (uheap p1) ma sizeof_thread_arg;
               if t_args = 0 then Some (Done (s\<lparr>sproc := sys_close (int client_fd) p1\<rparr>))
               else if \<not> created then do {
                 h' \<leftarrow> free h t_args;
                 Some (Done (s\<lparr>sproc := sys_close (int client_fd) (p1\<lparr>uheap := h'\<rparr>)\<rparr>))
               }
               else do {
                 let tid = next_tid s;
                 let s1 = s\<lparr>sproc := p1\<lparr>uheap := h\<rparr>, running := (running s)(tid \<mapsto> (t_args, client_fd, env)),
                            next_tid := Suc tid\<rparr>;
                 thread_join ops (thread_node_add na tid s1)
               }
             }))"

text \<open>
  How the program ends: by \<^verbatim>\<open>exit\<close> with a status, or by a signal without a handler (the signals of
  an event are those whose default action ends the process).  \<^verbatim>\<open>clean\<close> closes the listening
  socket and exits with status 0 wherever it is called; \<^verbatim>\<open>freeaddrinfo\<close> releases the block
  \<^verbatim>\<open>getaddrinfo\<close> allocated and does nothing for NULL, as in glibc.
\<close>

datatype ending = Exit int | Killed int

definition clean :: "int \<Rightarrow> ('d, 'f) proc \<Rightarrow> int \<times> ('d, 'f) proc" where
  "clean sockfd p = (0, sys_close sockfd p)"

definition freeaddrinfo :: "heap \<Rightarrow> addr \<Rightarrow> heap option" where
  "freeaddrinfo h serverInfo = free h serverInfo"

definition killed_by :: "int set \<Rightarrow> 'e event \<Rightarrow> int option" where
  "killed_by handled ev =
     (case ev of
        Accept_fails (Some signo) \<Rightarrow> if signo \<in> handled then None else Some signo
      | _ \<Rightarrow> None)"

text \<open>
  The loop runs while the exit flag is not set; a program that has seen all events and not
  received a signal waits in \<^verbatim>\<open>accept\<close>.  Leaving the loop joins the threads, frees the address
  information and closes the listening socket.  This function has the signals that \<^verbatim>\<open>accept\<close> notices
  only; those at any other moment, and so between the test of the flag and the call, are steps of
  \<open>Socket_Host\<close>.
\<close>

fun main_loop ::
  "('d, 'f, 'e) dev_ops \<Rightarrow> int set \<Rightarrow> int \<Rightarrow> addr \<Rightarrow> 'e event list \<Rightarrow> ('d, 'f, 'e) server \<Rightarrow>
   (ending \<times> ('d, 'f, 'e) server) outcome option" where
  "main_loop ops handled sockfd serverInfo evs s =
     (if exit_flag s then do {
        res \<leftarrow> thread_join ops s;
        (case res of
           Blocked \<Rightarrow> Some Blocked
         | Done s1 \<Rightarrow> do {
             h \<leftarrow> freeaddrinfo (uheap (sproc s1)) serverInfo;
             let (status, p) = clean sockfd ((sproc s1)\<lparr>uheap := h\<rparr>);
             Some (Done (Exit status, s1\<lparr>sproc := p\<rparr>))
           })
      }
      else (case evs of
        [] \<Rightarrow> Some Blocked
      | ev # evs' \<Rightarrow>
          (case killed_by handled ev of
             Some signo \<Rightarrow> Some (Done (Killed signo, s))
           | None \<Rightarrow> do {
               res \<leftarrow> main_turn ops ev s;
               (case res of
                  Blocked \<Rightarrow> Some Blocked
                | Done s1 \<Rightarrow> main_loop ops handled sockfd serverInfo evs' s1)
             })))"

declare main_loop.simps [simp del]

section \<open>Invariant\<close>

text \<open>
  Between two turns the list is empty, and every thread still running has its own argument block
  and its own socket.
\<close>

definition main_ok :: "('d \<Rightarrow> bool) \<Rightarrow> ('f \<Rightarrow> bool) \<Rightarrow> ('d, 'f, 'e) server \<Rightarrow> bool" where
  "main_ok dok fok s \<longleftrightarrow> proc_ok dok fok (sproc s) \<and> head s = [] \<and>
     (\<forall>tid args c env. running s tid = Some (args, c, env) \<longrightarrow>
        tid < next_tid s \<and> args \<noteq> 0 \<and> uheap (sproc s) args \<noteq> None \<and> fds (sproc s) c = Some Sock) \<and>
     (\<forall>t1 a1 c1 e1 t2 a2 c2 e2. running s t1 = Some (a1, c1, e1) \<longrightarrow> running s t2 = Some (a2, c2, e2) \<longrightarrow>
        a1 = a2 \<or> c1 = c2 \<longrightarrow> t1 = t2)"

lemma main_okD:
  assumes "main_ok dok fok s"
  shows "proc_ok dok fok (sproc s)" "head s = []"
    "running s tid = Some (args, c, env) \<Longrightarrow>
       tid < next_tid s \<and> args \<noteq> 0 \<and> uheap (sproc s) args \<noteq> None \<and> fds (sproc s) c = Some Sock"
    "running s t1 = Some (a1, c1, e1) \<Longrightarrow> running s t2 = Some (a2, c2, e2) \<Longrightarrow> a1 = a2 \<or> c1 = c2 \<Longrightarrow> t1 = t2"
  using assms unfolding main_ok_def by blast+

lemma main_okI:
  assumes "proc_ok dok fok (sproc s)" "head s = []"
    "\<And>tid args c env. running s tid = Some (args, c, env) \<Longrightarrow>
       tid < next_tid s \<and> args \<noteq> 0 \<and> uheap (sproc s) args \<noteq> None \<and> fds (sproc s) c = Some Sock"
    "\<And>t1 a1 c1 e1 t2 a2 c2 e2. running s t1 = Some (a1, c1, e1) \<Longrightarrow> running s t2 = Some (a2, c2, e2) \<Longrightarrow>
       a1 = a2 \<or> c1 = c2 \<Longrightarrow> t1 = t2"
  shows "main_ok dok fok s"
  using assms unfolding main_ok_def by blast

text \<open>The environment keeps its contracts in a turn.\<close>

definition event_ok :: "('e \<Rightarrow> 'd \<Rightarrow> byte list \<Rightarrow> bool) \<Rightarrow> ('d, 'f, 'e) server \<Rightarrow> 'e event \<Rightarrow> bool" where
  "event_ok eok s ev =
     (let h = uheap (sproc s); d = devst (sproc s) in
      case ev of
        Accept_fails sig \<Rightarrow> True
      | Unlisted tid \<Rightarrow> (\<forall>args c env. running s tid = Some (args, c, env) \<longrightarrow>
          allocs_ok h env \<and> (\<forall>bs. eok (write_envs env bs) d bs))
      | Client ma created na env \<Rightarrow>
          malloc_contract h ma sizeof_thread_arg \<and>
          (let h1 = snd (malloc h ma sizeof_thread_arg) in
           malloc_contract h1 na sizeof_thread_node \<and>
           allocs_ok (snd (malloc h1 na sizeof_thread_node)) env) \<and>
          (\<forall>bs. eok (write_envs env bs) d bs))"

text \<open>The state in which the thread of a client starts.\<close>

definition client_proc :: "('d, 'f) proc \<Rightarrow> nat \<Rightarrow> addr \<Rightarrow> addr \<Rightarrow> ('d, 'f) proc" where
  "client_proc p c ma na = p\<lparr>fds := (fds p)(c \<mapsto> Sock),
     uheap := snd (malloc (snd (malloc (uheap p) ma sizeof_thread_arg)) na sizeof_thread_node)\<rparr>"

lemma client_proc_sel [simp]:
  "devst (client_proc p c ma na) = devst p" "fds (client_proc p c ma na) = (fds p)(c \<mapsto> Sock)"
  "rw_held (client_proc p c ma na) = rw_held p"
  by (simp_all add: client_proc_def)

lemma client_proc_ok: "proc_ok dok fok p \<Longrightarrow> proc_ok dok fok (client_proc p c ma na)"
  by (auto simp: proc_ok_def split: if_splits)

context char_device begin

definition client_post ::
  "('d, 'f, 'e) server \<Rightarrow> 'e thread_env \<Rightarrow> nat \<Rightarrow> addr \<Rightarrow> addr \<Rightarrow> ('d, 'f, 'e) server \<Rightarrow> bool" where
  "client_post s env c ma na s' \<longleftrightarrow>
     (\<exists>out p'. s' = s\<lparr>sproc := p', next_tid := Suc (next_tid s), replies := replies s @ [out]\<rparr> \<and>
        fds p' = fds (sproc s) \<and> uheap p' = uheap (sproc s) \<and> proc_ok inv fok p' \<and>
        thread_post env (client_proc (sproc s) c ma na) out p')"

text \<open>A client whose thread is listed is served before the next one, and leaves nothing behind.\<close>

lemma client_mallocs:
  assumes ev: "event_ok env_ok s (Client ma True na env)" and nz: "ma \<noteq> 0" "na \<noteq> 0"
  obtains h1 h2 where "malloc (uheap (sproc s)) ma sizeof_thread_arg = (ma, h1)"
    "malloc h1 na sizeof_thread_node = (na, h2)" "uheap (client_proc (sproc s) c ma na) = h2" "h2 ma \<noteq> None"
    "allocs_ok h2 env" "\<And>bs. env_ok (write_envs env bs) (devst (sproc s)) bs"
    "free (h2(ma := None)) na = Some (uheap (sproc s))"
proof -
  define h1 where "h1 = (uheap (sproc s))(ma \<mapsto> replicate (unat sizeof_thread_arg) None)"
  define h2 where "h2 = h1(na \<mapsto> replicate (unat sizeof_thread_node) None)"
  have m: "malloc (uheap (sproc s)) ma sizeof_thread_arg = (ma, h1)" "malloc h1 na sizeof_thread_node = (na, h2)"
    using nz by (simp_all add: malloc_def h1_def h2_def)
  have fresh: "uheap (sproc s) ma = None" "h1 na = None" "ma \<noteq> na" "uheap (sproc s) na = None"
    using ev nz m by (auto simp: event_ok_def Let_def malloc_contract_def h1_def split: if_splits)
  have "uheap (client_proc (sproc s) c ma na) = h2" by (simp add: client_proc_def m)
  moreover have "h2 ma \<noteq> None" using fresh(3) by (simp add: h2_def h1_def)
  moreover have "allocs_ok h2 env" "\<And>bs. env_ok (write_envs env bs) (devst (sproc s)) bs"
    using ev m by (auto simp: event_ok_def Let_def)
  moreover have "free (h2(ma := None)) na = Some (uheap (sproc s))"
    using fresh nz by (auto simp: free_def h2_def h1_def fun_eq_iff)
  ultimately show thesis using m by (intro that)
qed

lemma main_ok_next_tid: "main_ok inv fok s \<Longrightarrow> running s (next_tid s) = None"
  using main_okD(3) [of inv fok s "next_tid s"] by (cases "running s (next_tid s)") auto

lemma client_listed:
  assumes ok: "main_ok inv fok s" and ev: "event_ok env_ok s (Client ma True na env)"
    and c: "lowest_fd (fds (sproc s)) = Some c" and nz: "ma \<noteq> 0" "na \<noteq> 0"
  shows "\<exists>res. main_turn ops (Client ma True na env) s = Some res \<and>
    (case res of
       Blocked \<Rightarrow> newline \<notin> set (arriving (client_events env))
     | Done s' \<Rightarrow> client_post s env c ma na s')"
proof -
  let ?p = "sproc s" and ?q = "client_proc (sproc s) c ma na" and ?tid = "next_tid s"
  obtain h1 h2 where m: "malloc (uheap ?p) ma sizeof_thread_arg = (ma, h1)" "malloc h1 na sizeof_thread_node = (na, h2)"
    and q: "uheap ?q = h2" "h2 ma \<noteq> None" and al: "allocs_ok h2 env" "\<And>bs. env_ok (write_envs env bs) (devst ?p) bs"
    and fr: "free (h2(ma := None)) na = Some (uheap ?p)"
    by (rule client_mallocs [OF ev nz, of c]) (rule that, assumption+)
  have cn: "fds ?p c = None" by (rule lowest_fd_free [OF c])
  obtain res where run: "thread_operation ops env ?q ma (int c) = Some res"
    "case res of Blocked \<Rightarrow> newline \<notin> set (arriving (client_events env))
     | Done (out, p') \<Rightarrow> proc_ok inv fok p' \<and> fds p' = (fds ?q)(c := None) \<and>
         uheap p' = (uheap ?q)(ma := None) \<and> thread_post env ?q out p'"
    using thread_run [OF client_proc_ok [OF main_okD(1) [OF ok]] nz(1), of c ma na c env] q al by auto
  let ?s = "s\<lparr>running := (running s)(?tid \<mapsto> (ma, c, env)), next_tid := Suc ?tid, sproc := ?q, head := [(?tid, na)]\<rparr>"
  have turn: "main_turn ops (Client ma True na env) s = join_loop ops [(?tid, na)] ?s"
    using c m nz main_okD(2) [OF ok]
    by (simp add: main_turn_def thread_node_add_def thread_join_def client_proc_def Let_def)
  show ?thesis
  proof (cases res)
    case Blocked
    then have "join_loop ops [(?tid, na)] ?s = Some Blocked" using run(1) by (simp add: run_thread_def)
    then show ?thesis using turn run(2) Blocked by simp
  next
    case (Done op)
    obtain out p' where op: "op = (out, p')" by (cases op)
    have p': "proc_ok inv fok p'" "fds p' = fds ?p" "uheap p' = h2(ma := None)" "thread_post env ?q out p'"
      using run(2) cn unfolding Done op q(1) by (simp_all add: fun_upd_idem)
    let ?s' = "s\<lparr>sproc := p'\<lparr>uheap := uheap ?p\<rparr>, next_tid := Suc ?tid, replies := replies s @ [out]\<rparr>"
    have "join_loop ops [(?tid, na)] ?s = Some (Done ?s')"
      using run(1) main_ok_next_tid [OF ok] fr main_okD(2) [OF ok] p'(3) unfolding Done op
      by (cases s) (simp add: run_thread_def fun_upd_idem)
    then have t: "main_turn ops (Client ma True na env) s = Some (Done ?s')" unfolding turn .
    have "client_post s env c ma na ?s'"
      using p' unfolding client_post_def
      by (intro exI [of _ out] exI [of _ "p'\<lparr>uheap := uheap ?p\<rparr>"])
        (simp add: proc_ok_def thread_post_def)
    with t show ?thesis by simp
  qed
qed

text \<open>Any turn keeps the invariant; the process ends up with the descriptors and blocks of the threads still running.\<close>

lemma main_ok_sproc:
  assumes "main_ok inv fok s" "proc_ok inv fok p" "fds p = fds (sproc s)" "uheap p = uheap (sproc s)"
  shows "main_ok inv fok (s\<lparr>sproc := p, next_tid := Suc (next_tid s), replies := rs\<rparr>)"
    "main_ok inv fok (s\<lparr>sproc := p\<rparr>)"
  using assms unfolding main_ok_def by (auto simp: less_SucI)

lemma unlisted_turn:
  assumes ok: "main_ok inv fok s" and ev: "event_ok env_ok s (Unlisted tid)"
  shows "\<exists>res. main_turn ops (Unlisted tid) s = Some res \<and>
    (case res of Blocked \<Rightarrow> True | Done s' \<Rightarrow> main_ok inv fok s')"
proof (cases "running s tid")
  case None
  then show ?thesis using ok main_okD(2) [OF ok] by (simp add: main_turn_def run_thread_def)
next
  case (Some x)
  obtain args c env where x: "x = (args, c, env)" by (cases x)
  note r = main_okD(3) [OF ok Some [unfolded x]]
  obtain res where run: "thread_operation ops env (sproc s) args (int c) = Some res"
    "case res of Blocked \<Rightarrow> newline \<notin> set (arriving (client_events env))
     | Done (out, p') \<Rightarrow> proc_ok inv fok p' \<and> fds p' = (fds (sproc s))(c := None) \<and>
         uheap p' = (uheap (sproc s))(args := None) \<and> thread_post env (sproc s) out p'"
    using thread_run [OF main_okD(1) [OF ok], of args c env] r ev Some x
    by (auto simp: event_ok_def Let_def)
  show ?thesis
  proof (cases res)
    case Blocked
    then show ?thesis using run(1) Some x main_okD(2) [OF ok] by (simp add: main_turn_def run_thread_def)
  next
    case (Done op)
    obtain out p' where op: "op = (out, p')" by (cases op)
    have p': "proc_ok inv fok p'" "fds p' = (fds (sproc s))(c := None)" "uheap p' = (uheap (sproc s))(args := None)"
      using run(2) unfolding Done op by simp_all
    let ?s = "s\<lparr>sproc := p', running := (running s)(tid := None), replies := replies s @ [out]\<rparr>"
    have "t < next_tid s \<and> a \<noteq> 0 \<and> uheap p' a \<noteq> None \<and> fds p' c' = Some Sock"
      if "running s t = Some (a, c', e)" "t \<noteq> tid" for t a c' e
      using main_okD(3) [OF ok that(1)] main_okD(4) [OF ok that(1) Some [unfolded x]] that(2) p' by auto
    then have "main_ok inv fok ?s"
      using p'(1) main_okD(2) [OF ok]
      by (intro main_okI) (auto split: if_splits dest: main_okD(4) [OF ok])
    moreover have "main_turn ops (Unlisted tid) s = Some (Done ?s)"
      using run(1) Some x Done op main_okD(2) [OF ok] by (simp add: main_turn_def run_thread_def)
    ultimately show ?thesis by simp
  qed
qed

lemma client_not_started:
  assumes ok: "main_ok inv fok s" and ev: "event_ok env_ok s (Client ma created na env)"
    and no: "lowest_fd (fds (sproc s)) = None \<or> ma = 0 \<or> \<not> created"
  shows "main_turn ops (Client ma created na env) s = Some (Done s)"
proof (cases "lowest_fd (fds (sproc s))")
  case (Some c)
  have cn: "fds (sproc s) c = None" by (rule lowest_fd_free [OF Some])
  have "ma \<noteq> 0 \<Longrightarrow> uheap (sproc s) ma = None"
    using ev by (auto simp: event_ok_def malloc_contract_def Let_def)
  then show ?thesis
    using no Some cn
    by (cases s; cases "sproc s") (auto simp: main_turn_def malloc_def sys_close_def fun_upd_idem Let_def)
qed (simp add: main_turn_def)

lemma client_unlisted:
  assumes ok: "main_ok inv fok s" and ev: "event_ok env_ok s (Client ma True 0 env)"
    and c: "lowest_fd (fds (sproc s)) = Some c" and nz: "ma \<noteq> 0"
  shows "\<exists>s'. main_turn ops (Client ma True 0 env) s = Some (Done s') \<and> main_ok inv fok s'"
proof -
  let ?p = "client_proc (sproc s) c ma 0"
  let ?s = "s\<lparr>sproc := ?p, running := (running s)(next_tid s \<mapsto> (ma, c, env)), next_tid := Suc (next_tid s)\<rparr>"
  have fresh: "uheap (sproc s) ma = None" "fds (sproc s) c = None"
    using ev nz lowest_fd_free [OF c] by (auto simp: event_ok_def malloc_contract_def Let_def)
  have p: "uheap ?p = (uheap (sproc s))(ma \<mapsto> replicate (unat sizeof_thread_arg) None)"
    using nz by (simp add: client_proc_def malloc_def)
  have "main_turn ops (Client ma True 0 env) s = Some (Done ?s)"
    using c nz main_okD(2) [OF ok]
    by (simp add: main_turn_def thread_node_add_def thread_join_def client_proc_def Let_def malloc_def)
  moreover have "a \<noteq> ma \<and> c' \<noteq> c" if "running s t = Some (a, c', e)" for t a c' e
    using main_okD(3) [OF ok that] fresh by auto
  then have "main_ok inv fok ?s"
    using client_proc_ok [OF main_okD(1) [OF ok], of c ma 0] main_okD(2) [OF ok] nz p
    by (intro main_okI)
      (auto simp: less_SucI split: if_splits dest: main_okD(3) [OF ok] main_okD(4) [OF ok])
  ultimately show ?thesis by blast
qed

lemma main_turn_spec:
  assumes ok: "main_ok inv fok s" and ev: "event_ok env_ok s ev"
  shows "\<exists>res. main_turn ops ev s = Some res \<and> (case res of Blocked \<Rightarrow> True | Done s' \<Rightarrow> main_ok inv fok s')"
proof (cases ev)
  case (Accept_fails sig)
  then show ?thesis using ok by (cases sig) (auto simp: main_turn_def signal_handler_def main_ok_def)
next
  case (Unlisted tid)
  then show ?thesis using unlisted_turn [OF ok] ev by simp
next
  case (Client ma created na env)
  show ?thesis
  proof (cases "lowest_fd (fds (sproc s)) = None \<or> ma = 0 \<or> \<not> created")
    case True
    then show ?thesis using client_not_started [OF ok ev [unfolded Client]] ok Client by simp
  next
    case False
    then obtain c where c: "lowest_fd (fds (sproc s)) = Some c" and cr: "created = True" "ma \<noteq> 0" by auto
    show ?thesis
    proof (cases "na = 0")
      case True
      then show ?thesis
        using client_unlisted [OF ok _ c cr(2)] ev Client cr(1) by fastforce
    next
      case False
      obtain res where "main_turn ops (Client ma True na env) s = Some res"
        "case res of Blocked \<Rightarrow> newline \<notin> set (arriving (client_events env))
         | Done s' \<Rightarrow> client_post s env c ma na s'"
        using client_listed [OF ok _ c cr(2) False] ev Client cr(1) by blast
      then show ?thesis
        using main_ok_sproc(1) [OF ok] Client cr(1) by (auto simp: client_post_def split: outcome.splits)
    qed
  qed
qed

end

section \<open>The server on the driver\<close>

type_synonym aesd_server = "(kst, file_t, write_env) server"

abbreviation server_ok :: "aesd_server \<Rightarrow> bool" where
  "server_ok \<equiv> main_ok dev_inv file_ok"

text \<open>The environment keeps its contracts in every turn the loop gets to.\<close>

fun events_ok :: "write_env event list \<Rightarrow> aesd_server \<Rightarrow> bool" where
  "events_ok [] s \<longleftrightarrow> True"
| "events_ok (ev # evs) s \<longleftrightarrow> exit_flag s \<or>
     event_ok aesd_env_ok s ev \<and> (\<forall>s'. main_turn aesd_ops ev s = Some (Done s') \<longrightarrow> events_ok evs s')"

text \<open>Memory for the list's nodes is available, and every client sends a newline.\<close>

fun regular :: "write_env event \<Rightarrow> bool" where
  "regular (Client ma created na env) \<longleftrightarrow> na \<noteq> 0 \<and> newline \<in> set (arriving (client_events env))"
| "regular _ \<longleftrightarrow> True"

text \<open>One of the two signals the server handles arrives.\<close>

fun terminates :: "'e event \<Rightarrow> bool" where
  "terminates (Accept_fails (Some signo)) \<longleftrightarrow> signo = SIGINT \<or> signo = SIGTERM"
| "terminates _ \<longleftrightarrow> False"

definition same_process :: "aesd_server \<Rightarrow> aesd_server \<Rightarrow> bool" where
  "same_process s s' \<longleftrightarrow> fds (sproc s') = fds (sproc s) \<and> uheap (sproc s') = uheap (sproc s) \<and>
     running s' = Map.empty \<and> (exit_flag s \<longrightarrow> exit_flag s')"

lemma regular_turn:
  assumes ok: "server_ok s" "running s = Map.empty" and ev: "event_ok aesd_env_ok s ev" "regular ev"
  shows "\<exists>s'. main_turn aesd_ops ev s = Some (Done s') \<and> server_ok s' \<and> same_process s s' \<and>
    (terminates ev \<longrightarrow> exit_flag s')"
proof -
  obtain res where res: "main_turn aesd_ops ev s = Some res"
    "case res of Blocked \<Rightarrow> True | Done s' \<Rightarrow> server_ok s'"
    using aesdchar.main_turn_spec [OF ok(1) ev(1)] by blast
  have "\<exists>s'. res = Done s' \<and> same_process s s' \<and> (terminates ev \<longrightarrow> exit_flag s')"
  proof (cases ev)
    case (Accept_fails sig)
    then show ?thesis
      using res(1) ok(2) by (cases sig) (auto simp: main_turn_def signal_handler_def same_process_def)
  next
    case (Unlisted tid)
    then show ?thesis
      using res(1) ok(2) by (auto simp: main_turn_def run_thread_def same_process_def split: if_splits)
  next
    case (Client ma created na env)
    show ?thesis
    proof (cases "lowest_fd (fds (sproc s)) = None \<or> ma = 0 \<or> \<not> created")
      case True
      then show ?thesis
        using aesdchar.client_not_started [OF ok(1) ev(1) [unfolded Client]] res(1) ok(2) Client
        by (auto simp: same_process_def)
    next
      case False
      then obtain c where c: "lowest_fd (fds (sproc s)) = Some c" and cr: "created = True" "ma \<noteq> 0" by auto
      have na: "na \<noteq> 0" "newline \<in> set (arriving (client_events env))" using ev(2) Client by simp_all
      show ?thesis
        using aesdchar.client_listed [OF ok(1) ev(1) [unfolded Client cr(1)] c cr(2) na(1)] res(1) Client cr(1) na(2) ok(2)
        by (cases res) (auto simp: aesdchar.client_post_def same_process_def)
    qed
  qed
  with res show ?thesis by auto
qed

text \<open>The end of the program, when no thread is listed any more.\<close>

lemma final_turn:
  assumes "server_ok s" "exit_flag s" "fd_entry (sproc s) sockfd \<noteq> None" "info \<noteq> 0" "uheap (sproc s) info \<noteq> None"
  shows "main_loop aesd_ops handled sockfd info evs s = Some (Done (Exit 0,
    s\<lparr>sproc := (sproc s)\<lparr>uheap := (uheap (sproc s))(info := None), fds := (fds (sproc s))(nat sockfd := None)\<rparr>\<rparr>))"
  using assms main_okD(2) [OF assms(1)]
  by (subst main_loop.simps)
    (auto simp: thread_join_def clean_def freeaddrinfo_def free_def sys_close_def fd_entry_def split: if_splits)

definition shut_down :: "aesd_server \<Rightarrow> int \<Rightarrow> addr \<Rightarrow> aesd_server \<Rightarrow> bool" where
  "shut_down s sockfd info s' \<longleftrightarrow> dev_inv (devst (sproc s')) \<and> running s' = Map.empty \<and>
     fds (sproc s') = (fds (sproc s))(nat sockfd := None) \<and> uheap (sproc s') = (uheap (sproc s))(info := None)"

lemma regular_loop:
  assumes "server_ok s" "running s = Map.empty" "events_ok evs s" "\<forall>ev \<in> set evs. regular ev"
    and "\<forall>ev \<in> set evs. killed_by handled ev = None"
    and "fd_entry (sproc s) sockfd \<noteq> None" "info \<noteq> 0" "uheap (sproc s) info \<noteq> None"
  shows "\<exists>res. main_loop aesd_ops handled sockfd info evs s = Some res \<and>
    (case res of
       Blocked \<Rightarrow> \<not> exit_flag s \<and> \<not> (\<exists>ev \<in> set evs. terminates ev)
     | Done (e, s') \<Rightarrow> e = Exit 0 \<and> shut_down s sockfd info s')"
  using assms
proof (induction evs arbitrary: s)
  case Nil
  show ?case
  proof (cases "exit_flag s")
    case True
    then show ?thesis
      using final_turn [OF Nil(1) True Nil(6-8)] main_okD(1) [OF Nil(1)] Nil(2) by (simp add: shut_down_def proc_ok_def)
  qed (simp add: main_loop.simps)
next
  case (Cons ev evs)
  show ?case
  proof (cases "exit_flag s")
    case True
    then show ?thesis
      using final_turn [OF Cons.prems(1) True Cons.prems(6-8)] main_okD(1) [OF Cons.prems(1)] Cons.prems(2)
      by (simp add: shut_down_def proc_ok_def)
  next
    case False
    then have ev: "event_ok aesd_env_ok s ev" "regular ev" "killed_by handled ev = None" using Cons.prems(3-5) by auto
    obtain s' where s': "main_turn aesd_ops ev s = Some (Done s')" "server_ok s'" "same_process s s'"
      "terminates ev \<longrightarrow> exit_flag s'"
      using regular_turn [OF Cons.prems(1,2) ev(1,2)] by blast
    have step: "main_loop aesd_ops handled sockfd info (ev # evs) s = main_loop aesd_ops handled sockfd info evs s'"
      using False s'(1) ev(3) by (subst main_loop.simps) simp
    have "\<exists>res. main_loop aesd_ops handled sockfd info evs s' = Some res \<and>
      (case res of
         Blocked \<Rightarrow> \<not> exit_flag s' \<and> \<not> (\<exists>ev \<in> set evs. terminates ev)
       | Done (e, s'') \<Rightarrow> e = Exit 0 \<and> shut_down s' sockfd info s'')"
      using Cons.prems s' False
      by (intro Cons.IH) (auto simp: same_process_def fd_entry_def)
    then show ?thesis
      using s'(3,4) False unfolding step by (auto simp: same_process_def shut_down_def split: outcome.splits)
  qed
qed

section \<open>A small server\<close>

definition demo_server :: aesd_server where
  "demo_server = \<lparr>sproc = \<lparr>devst = demo_st, fds = [0 \<mapsto> Sock, 1 \<mapsto> Sock, 2 \<mapsto> Sock, 3 \<mapsto> Sock],
       uheap = Map.empty, rw_held = False, ioctl_just_performed = False\<rparr>,
     head = [], running = Map.empty, next_tid = 0, exit_flag = False, replies = []\<rparr>"

definition demo_client :: "byte list \<Rightarrow> write_env event" where
  "demo_client bs = Client 50 True 51 (demo_env bs)"

lemma demo_server_ok: "server_ok demo_server"
  by (rule main_okI) (auto simp: demo_server_def proc_ok_def split: if_splits)

lemma demo_server_sel [simp]:
  "devst (sproc demo_server) = demo_st" "running demo_server = Map.empty" "exit_flag demo_server = False"
  "fds (sproc demo_server) 3 = Some Sock" "uheap (sproc demo_server) = Map.empty"
  by (simp_all add: demo_server_def)

lemma demo_server_lowest [simp]: "lowest_fd (fds (sproc demo_server)) = Some 4"
  by (rule lowest_fdI) (auto simp: demo_server_def)

lemma demo_client_ok: "event_ok aesd_env_ok demo_server (demo_client bs)"
  using demo_write_env
  by (auto simp: event_ok_def demo_client_def malloc_contract_def malloc_def allocs_ok_def
      realloc_contract_def demo_env_def sizeof_thread_arg_def sizeof_thread_node_def Let_def)

section \<open>Properties\<close>

text \<open>
  The reply sends the device's contents from the position a seek left, or from the start,
  in chunks of 1024 bytes.  Of each chunk the client gets what one \<^verbatim>\<open>send\<close> transferred: the rest
  of a chunk of which only a part was sent, and a whole chunk when the call was interrupted, are
  never sent, although the function goes on.
\<close>

lemma reply_exact:
  assumes "dev_inv (devst p)" "fds p fd = Some (Dev f)" "file_ok f" "fd_entry p client_fd = Some Sock"
    and "\<not> rw_held p" "malloc_contract (uheap p) ma CLIENT_BUFFER_LEN" "ma \<noteq> 0"
    and "lowest_fd ((fds p)(fd := None)) = Some fd"
  shows "\<exists>r p'. return_socketdata_to_client aesd_ops ma True intr sends p client_fd (int fd) =
      Some (Done (r, client_gets intr sends 0
        (drop (if ioctl_just_performed p then unat (f_pos f) else 0) (stored (devst p))), p')) \<and>
    devst p' = devst p \<and> uheap p' = uheap p \<and> \<not> rw_held p'"
proof -
  obtain r p' where "return_socketdata_to_client aesd_ops ma True intr sends p client_fd (int fd) =
      Some (Done (r, if ma = 0 \<or> \<not> ioctl_just_performed p \<and> \<not> True then []
        else client_gets intr sends 0
          (drop (if ioctl_just_performed p then unat (f_pos f) else 0) (concat (fst (abs_dev (devst p))))), p'))"
    "devst p' = devst p" "uheap p' = uheap p" "\<not> rw_held p'"
    using aesdchar.return_socketdata_run [OF assms(1-6,8), of True intr sends] by blast
  with assms(7) show ?thesis by (simp add: abs_dev_def stored_def)
qed

lemma reply_exact_witness:
  "\<exists>r p'. return_socketdata_to_client aesd_ops 60 True (\<lambda>_. False) (\<lambda>_. Sent 3)
      (demo_proc\<lparr>fds := (fds demo_proc)(5 \<mapsto> Dev demo_file)\<rparr>) 4 5 =
      Some (Done (r, [CHR ''a'', CHR ''b'', newline], p'))"
proof -
  let ?p = "demo_proc\<lparr>fds := (fds demo_proc)(5 \<mapsto> Dev demo_file)\<rparr>"
  have "(fds ?p)(5 := None) = fds demo_proc" by (auto simp: demo_proc_def fun_eq_iff)
  then have low: "lowest_fd ((fds ?p)(5 := None)) = Some 5" by simp
  have g: "client_gets (\<lambda>_. False) (\<lambda>_. Sent 3) 0 (stored demo_st) = [CHR ''a'', CHR ''b'', newline]"
    by (simp add: demo_stored client_gets.simps)
  show ?thesis
    using reply_exact [of ?p 5 demo_file 4 60 "\<lambda>_. False" "\<lambda>_. Sent 3", OF _ _ _ _ _ _ _ low] g
    by (auto simp: file_ok_def fd_entry_def demo_proc_def malloc_contract_def)
qed

text \<open>
  A client that sends a line and whose thread is listed is served before the next client is
  accepted: its reply is the last ten commands with its own, the device has stored the line, and
  the process has the descriptors and the heap it had before.
\<close>

lemma main_turn_serves_line:
  assumes "main_ok dev_inv file_ok s" "event_ok aesd_env_ok s (Client ma True na env)"
    and "lowest_fd (fds (sproc s)) = Some c" "ma \<noteq> 0" "na \<noteq> 0"
    and "smooth (client_proc (sproc s) c ma na) env (length cs + 1)"
    and "arriving (client_events env) = cs @ [newline]" "newline \<notin> set cs" "\<not> seek_request (cs @ [newline])"
  defines "cmds \<equiv> push 10 (commands (devst (sproc s))) (pending (devst (sproc s)) @ cs @ [newline])"
  shows "\<exists>s'. main_turn aesd_ops (Client ma True na env) s = Some (Done s') \<and>
    replies s' = replies s @ [concat cmds] \<and> commands (devst (sproc s')) = cmds \<and>
    pending (devst (sproc s')) = [] \<and> fds (sproc s') = fds (sproc s) \<and> uheap (sproc s') = uheap (sproc s)"
proof -
  let ?q = "client_proc (sproc s) c ma na" and ?bs = "cs @ [newline]"
  obtain s' where s': "main_turn aesd_ops (Client ma True na env) s = Some (Done s')"
    "aesdchar.client_post s env c ma na s'"
    using outcome_returns [OF aesdchar.client_listed [OF assms(1-5)]] assms(7) by auto
  then obtain out p' where p': "s' = s\<lparr>sproc := p', next_tid := Suc (next_tid s), replies := replies s @ [out]\<rparr>"
    "fds p' = fds (sproc s)" "uheap p' = uheap (sproc s)" "aesdchar.thread_post env ?q out p'"
    by (auto simp: aesdchar.client_post_def)
  have "\<not> receive_oom (calloc_addr env) (realloc_addr env) (length ?bs)"
    using assms(6) by (auto simp: receive_oom_def smooth_def)
  then obtain bs where bs: "request_of ?bs bs" "aesdchar.served env (devst (sproc s)) (devst p') bs out"
    using p'(4) assms(6,7) by (auto simp: aesdchar.thread_post_def Let_def smooth_def)
  have "aesdchar.served env (devst (sproc s)) (devst p') ?bs out"
    using bs(2) request_of_line [OF bs(1) assms(8)] by simp
  then have "abs_dev (devst p') = spec_write ?bs (abs_dev (devst (sproc s)))"
    "out = concat (fst (abs_dev (devst p')))"
    using assms(6,9) smooth_reply [OF assms(6)] by (auto simp: aesdchar.served_def smooth_def)
  with s'(1) p'(1-3) show ?thesis by (simp add: abs_dev_def spec_write_newline cmds_def)
qed

lemma main_turn_serves_line_witness:
  "\<exists>s'. main_turn aesd_ops (demo_client [CHR ''z'', newline]) demo_server = Some (Done s') \<and>
     replies s' = [[CHR ''a'', CHR ''b'', newline, CHR ''c'', CHR ''d'', CHR ''e'', newline,
                    CHR ''x'', CHR ''z'', newline]]"
proof -
  have low: "lowest_fd (fds (client_proc (sproc demo_server) 4 50 51)) = Some 5"
    by (rule lowest_fdI) (auto simp: demo_server_def)
  have sm: "smooth (client_proc (sproc demo_server) 4 50 51) (demo_env [CHR ''z'', newline]) (length ''z'' + 1)"
    using demo_smooth [of 2 "[CHR ''z'', newline]"] low by (simp add: smooth_def)
  show ?thesis
    using main_turn_serves_line [OF demo_server_ok demo_client_ok [unfolded demo_client_def] demo_server_lowest _ _ sm]
    by (auto simp: demo_client_def demo_abs push_def seek_request_def SEEK_COMMAND_def demo_server_def)
qed

text \<open>
  When memory for the list's nodes is available and every client sends a newline, the accept
  loop goes on until a signal arrives, and then ends with no thread running, all memory it
  allocated freed, and all descriptors closed that it opened, the listening socket included.
\<close>

lemma server_shuts_down_clean:
  assumes "main_ok dev_inv file_ok s" "running s = Map.empty" "events_ok evs s"
    and "\<forall>ev \<in> set evs. regular ev" "\<forall>ev \<in> set evs. killed_by handled ev = None" "\<exists>ev \<in> set evs. terminates ev"
    and "fd_entry (sproc s) sockfd \<noteq> None" "info \<noteq> 0" "uheap (sproc s) info \<noteq> None"
  shows "\<exists>s'. main_loop aesd_ops handled sockfd info evs s = Some (Done (Exit 0, s')) \<and> shut_down s sockfd info s'"
  using outcome_returns [OF regular_loop [OF assms(1-5,7-9)]] assms(6) by auto

end
