(* ===== verification/Socket_Startup.thy ===== *)
theory Socket_Startup
  imports Socket_Main
begin

text \<open>
  How \<^verbatim>\<open>server/aesdsocket.c\<close> starts: the option \<^verbatim>\<open>-d\<close>, \<^verbatim>\<open>create_daemon\<close> with the
  descriptors it rearranges, and the sequence of steps in \<^verbatim>\<open>main\<close> before the accept loop, each of
  which may fail.  A descriptor refers to an open file of any type \<open>'o\<close>; \<open>null\<close> is the one that
  opening \<^verbatim>\<open>/dev/null\<close> creates.
\<close>

section \<open>Becoming a daemon\<close>

record daemon_env =
  fork_ret :: int
  setsid_ret :: int
  chdir_ret :: int
  null_opens :: bool
  dup2_ok :: "nat \<Rightarrow> bool"

text \<open>The process exits (the parent), or the function returns with these descriptors open.\<close>

datatype 'o daemon_result = Exits int | Returns bool "nat \<rightharpoonup> 'o"

text \<open>
  \<^verbatim>\<open>dup2(fd, t)\<close> for the targets in turn, up to the first failure; whether all succeeded.
  Duplicating a descriptor onto itself changes nothing.
\<close>

fun dup2_all :: "(nat \<Rightarrow> bool) \<Rightarrow> nat \<Rightarrow> nat list \<Rightarrow> (nat \<rightharpoonup> 'o) \<Rightarrow> bool \<times> (nat \<rightharpoonup> 'o)" where
  "dup2_all ok fd [] m = (True, m)"
| "dup2_all ok fd (t # ts) m = (if \<not> ok t then (False, m) else dup2_all ok fd ts (m(t := m fd)))"

definition create_daemon :: "'o \<Rightarrow> daemon_env \<Rightarrow> (nat \<rightharpoonup> 'o) \<Rightarrow> 'o daemon_result" where
  "create_daemon null env m =
     (let pid = fork_ret env in
      if pid < 0 then Returns False m
      else if pid > 0 then Exits 0
      else if setsid_ret env < 0 then Returns False m
      else if chdir_ret env = - 1 then Returns False m
      else case (if null_opens env then lowest_fd m else None) of
        None \<Rightarrow> Returns False m
      | Some dev_null_fd \<Rightarrow>
          let (ok, m') = dup2_all (dup2_ok env) dev_null_fd [0, 1, 2] (m(dev_null_fd \<mapsto> null)) in
          Returns ok (m'(dev_null_fd := None)))"

lemma dup2_all_success:
  "(\<forall>t \<in> set ts. ok t) \<Longrightarrow> dup2_all ok fd ts m = (True, \<lambda>i. if i \<in> set ts then m fd else m i)"
  by (induction ts arbitrary: m) (auto simp: fun_eq_iff)

lemma dup2_all_other: "i \<notin> set ts \<Longrightarrow> snd (dup2_all ok fd ts m) i = m i"
  by (induction ok fd ts m rule: dup2_all.induct) auto

section \<open>Starting the server\<close>

text \<open>
  The results of the calls: \<^verbatim>\<open>getaddrinfo\<close> allocates one block at \<open>info_addr\<close> when it succeeds, and
  leaves \<^verbatim>\<open>serverInfo\<close> NULL when it fails.
\<close>

record startup_env =
  socket_opens :: bool
  getaddrinfo_ret :: int
  info_addr :: addr
  bind_ret :: int
  daemon :: daemon_env
  listen_ret :: int
  sigaction_ret :: "int \<Rightarrow> int"

text \<open>A \<^verbatim>\<open>struct addrinfo\<close> with its IPv4 address.\<close>

definition sizeof_addrinfo :: u64 where "sizeof_addrinfo = 64"

text \<open>
  The program ends, or enters the accept loop with handlers for some signals, its listening socket
  and the block of the address information.
\<close>

datatype ('d, 'f) startup =
    Ends int "('d, 'f) proc"
  | Serves "int set" int addr "('d, 'f) proc"

text \<open>
  The signals \<^verbatim>\<open>signal_handler\<close> is installed for: the second call of \<^verbatim>\<open>sigaction\<close> is not made when
  the first fails, and a failure is only logged.
\<close>

definition reg_signal_handler :: "(int \<Rightarrow> int) \<Rightarrow> int set" where
  "reg_signal_handler sigaction =
     (if sigaction SIGINT = - 1 then {}
      else if sigaction SIGTERM = - 1 then {SIGINT}
      else {SIGINT, SIGTERM})"

definition daemon_mode :: "byte list list \<Rightarrow> bool" where
  "daemon_mode argv \<longleftrightarrow> 2 \<le> length argv \<and> argv ! 1 = ''-d''"

text \<open>Giving up after \<^verbatim>\<open>getaddrinfo\<close>: \<^verbatim>\<open>freeaddrinfo(serverInfo); clean();\<close>.\<close>

definition give_up :: "int \<Rightarrow> addr \<Rightarrow> ('d, 'f) proc \<Rightarrow> ('d, 'f) startup option" where
  "give_up sockfd serverInfo p = do {
     h \<leftarrow> freeaddrinfo (uheap p) serverInfo;
     let (status, p') = clean sockfd (p\<lparr>uheap := h\<rparr>);
     Some (Ends status p')
   }"

text \<open>
  An open \<^verbatim>\<open>/dev/null\<close> is no device file of the server, as a socket is none.  The descriptor that
  \<^verbatim>\<open>syslog\<close> opens for itself, and \<^verbatim>\<open>closelog\<close> closes, is not in the table: while it is open the lowest
  free number may be one higher than here.
\<close>

definition server_startup ::
  "byte list list \<Rightarrow> startup_env \<Rightarrow> ('d, 'f) proc \<Rightarrow> ('d, 'f) startup option" where
  "server_startup argv env p =
     (case (if socket_opens env then lowest_fd (fds p) else None) of
        None \<Rightarrow> let (status, p') = clean (- 1) p in Some (Ends status p')
      | Some sockfd \<Rightarrow>
          let p1 = p\<lparr>fds := (fds p)(sockfd \<mapsto> Sock)\<rparr> in
          if getaddrinfo_ret env \<noteq> 0 then give_up (int sockfd) 0 p1
          else
            let (serverInfo, h) = malloc (uheap p1) (info_addr env) sizeof_addrinfo; p2 = p1\<lparr>uheap := h\<rparr> in
            if bind_ret env \<noteq> 0 then give_up (int sockfd) serverInfo p2
            else
              (case (if daemon_mode argv then create_daemon Sock (daemon env) (fds p2) else Returns True (fds p2)) of
                 Exits status \<Rightarrow> Some (Ends status p2)
               | Returns ok m \<Rightarrow>
                   let p3 = p2\<lparr>fds := m\<rparr> in
                   if \<not> ok then give_up (int sockfd) serverInfo p3
                   else if listen_ret env = - 1 then give_up (int sockfd) serverInfo p3
                   else Some (Serves (reg_signal_handler (sigaction_ret env)) (int sockfd) serverInfo p3)))"

text \<open>The program.\<close>

definition server_main ::
  "('d, 'f, 'e) dev_ops \<Rightarrow> byte list list \<Rightarrow> startup_env \<Rightarrow> 'e event list \<Rightarrow> ('d, 'f, 'e) server \<Rightarrow>
   (ending \<times> ('d, 'f, 'e) server) outcome option" where
  "server_main ops argv env evs s = do {
     st \<leftarrow> server_startup argv env (sproc s);
     (case st of
        Ends status p \<Rightarrow> Some (Done (Exit status, s\<lparr>sproc := p\<rparr>))
      | Serves handled sockfd serverInfo p \<Rightarrow> main_loop ops handled sockfd serverInfo evs (s\<lparr>sproc := p\<rparr>))
   }"

text \<open>
  When \<^verbatim>\<open>create_daemon\<close> succeeds in a process whose three standard descriptors are open,
  these refer to \<^verbatim>\<open>/dev/null\<close> and every other descriptor is what it was.  When it fails, the
  other descriptors are what they were too.
\<close>

lemma create_daemon_descriptors:
  assumes "create_daemon null env m = Returns ok m'" "m 0 \<noteq> None" "m 1 \<noteq> None" "m 2 \<noteq> None"
  shows "(\<forall>fd. 3 \<le> fd \<longrightarrow> m' fd = m fd) \<and> (ok \<longrightarrow> m' 0 = Some null \<and> m' 1 = Some null \<and> m' 2 = Some null)"
proof (cases "fork_ret env = 0 \<and> \<not> setsid_ret env < 0 \<and> chdir_ret env \<noteq> - 1 \<and> null_opens env \<and> lowest_fd m \<noteq> None")
  case False
  then have "m' = m \<and> \<not> ok"
    using assms(1) by (auto simp: create_daemon_def Let_def split: if_splits option.splits)
  then show ?thesis by simp
next
  case True
  then obtain n where n: "lowest_fd m = Some n" by auto
  have free: "m n = None" by (rule lowest_fd_free [OF n])
  then have n3: "3 \<le> n" using assms(2-4) by (cases "n = 0 \<or> n = 1 \<or> n = 2") auto
  obtain b mm where d: "dup2_all (dup2_ok env) n [0, 1, 2] (m(n \<mapsto> null)) = (b, mm)" by force
  have r: "ok = b" "m' = mm(n := None)"
    using assms(1) True n d by (auto simp: create_daemon_def Let_def)
  have "m' fd = m fd" if "3 \<le> fd" for fd
    using dup2_all_other [of fd "[0, 1, 2]" "dup2_ok env" n "m(n \<mapsto> null)"] that d free r(2) by auto
  moreover have "m' 0 = Some null \<and> m' 1 = Some null \<and> m' 2 = Some null" if ok
  proof -
    have "dup2_ok env 0 \<and> dup2_ok env 1 \<and> dup2_ok env 2"
      using that r(1) d by (auto split: if_splits)
    then show ?thesis
      using dup2_all_success [of "[0, 1, 2]" "dup2_ok env" n "m(n \<mapsto> null)"] d r(2) n3 by auto
  qed
  ultimately show ?thesis by blast
qed

definition std_open :: "(nat \<rightharpoonup> 'o) \<Rightarrow> bool" where
  "std_open m \<longleftrightarrow> m 0 \<noteq> None \<and> m 1 \<noteq> None \<and> m 2 \<noteq> None"

text \<open>Every call the start depends on succeeds.\<close>

definition starts :: "byte list list \<Rightarrow> startup_env \<Rightarrow> (nat \<rightharpoonup> 'f fdesc) \<Rightarrow> bool" where
  "starts argv env m \<longleftrightarrow> socket_opens env \<and> getaddrinfo_ret env = 0 \<and> bind_ret env = 0 \<and> listen_ret env \<noteq> - 1 \<and>
     (\<exists>sockfd. lowest_fd m = Some sockfd \<and>
        (daemon_mode argv \<longrightarrow> (\<exists>m'. create_daemon Sock (daemon env) (m(sockfd \<mapsto> Sock)) = Returns True m')))"

definition daemon_parent :: "byte list list \<Rightarrow> startup_env \<Rightarrow> bool" where
  "daemon_parent argv env \<longleftrightarrow> daemon_mode argv \<and> 0 < fork_ret (daemon env)"

lemma std_open_fresh: "std_open m \<Longrightarrow> lowest_fd m = Some fd \<Longrightarrow> 3 \<le> fd"
  using lowest_fd_free [of m fd] by (cases "fd = 0 \<or> fd = 1 \<or> fd = 2") (auto simp: std_open_def)

lemma create_daemon_exits:
  "create_daemon null env m = Exits status \<Longrightarrow> status = 0 \<and> 0 < fork_ret env"
  by (auto simp: create_daemon_def Let_def split: if_splits option.splits prod.splits)

lemma give_up_run:
  assumes "info = 0 \<or> uheap p info \<noteq> None" "0 \<le> sockfd"
  shows "give_up sockfd info p = Some (Ends 0
    (p\<lparr>uheap := if info = 0 then uheap p else (uheap p)(info := None), fds := (fds p)(nat sockfd := None)\<rparr>))"
  using assms
  by (cases p) (auto simp: give_up_def freeaddrinfo_def free_def clean_def sys_close_def fd_entry_def fun_upd_idem)

text \<open>The process as the accept loop finds it, and as a failed start leaves it.\<close>

definition ready :: "('d, 'f) proc \<Rightarrow> int \<Rightarrow> addr \<Rightarrow> ('d, 'f) proc \<Rightarrow> bool" where
  "ready p sockfd info p' \<longleftrightarrow> 3 \<le> sockfd \<and> fds p (nat sockfd) = None \<and> info \<noteq> 0 \<and> uheap p info = None \<and>
     (\<exists>blk m. p' = p\<lparr>fds := m, uheap := (uheap p)(info \<mapsto> blk)\<rparr> \<and>
        (\<forall>fd \<ge> 3. m fd = ((fds p)(nat sockfd \<mapsto> Sock)) fd) \<and> (\<forall>fd < 3. m fd = fds p fd \<or> m fd = Some Sock))"

definition given_up :: "('d, 'f) proc \<Rightarrow> ('d, 'f) proc \<Rightarrow> bool" where
  "given_up p p' \<longleftrightarrow> (\<exists>m. p' = p\<lparr>fds := m\<rparr> \<and> (\<forall>fd \<ge> 3. m fd = fds p fd))"

lemma given_upI:
  assumes "0 \<le> sockfd" "fds p (nat sockfd) = None" "\<forall>fd \<ge> 3. m fd = ((fds p)(nat sockfd \<mapsto> Sock)) fd"
    and "info = 0 \<and> h = uheap p \<or> info \<noteq> 0 \<and> uheap p info = None \<and> h = (uheap p)(info \<mapsto> blk)"
  shows "\<exists>p'. give_up sockfd info (p\<lparr>fds := m, uheap := h\<rparr>) = Some (Ends 0 p') \<and> given_up p p'"
proof -
  have "info = 0 \<or> uheap (p\<lparr>fds := m, uheap := h\<rparr>) info \<noteq> None" using assms(4) by auto
  note run = give_up_run [OF this assms(1)]
  have "(if info = 0 then h else h(info := None)) = uheap p" using assms(4) by (auto simp: fun_upd_idem)
  then show ?thesis
    using run assms(2,3) unfolding given_up_def by (auto intro!: exI [of _ "m(nat sockfd := None)"])
qed

lemma readyI:
  assumes "3 \<le> sockfd" "fds p (nat sockfd) = None" "info \<noteq> 0" "uheap p info = None"
    and "\<forall>fd \<ge> 3. m fd = ((fds p)(nat sockfd \<mapsto> Sock)) fd" "\<forall>fd < 3. m fd = fds p fd \<or> m fd = Some Sock"
  shows "ready p sockfd info (p\<lparr>fds := m, uheap := (uheap p)(info \<mapsto> blk)\<rparr>)"
  unfolding ready_def using assms by - (intro conjI; (rule exI [of _ blk], rule exI [of _ m])?; simp)

text \<open>The loop starts in a state like the one before.\<close>

lemma ready_ok:
  assumes "ready p sockfd info p'" "proc_ok dok fok p"
  shows "proc_ok dok fok p'"
proof -
  obtain blk m where p': "p' = p\<lparr>fds := m, uheap := (uheap p)(info \<mapsto> blk)\<rparr>"
    and m: "\<forall>fd \<ge> 3. m fd = ((fds p)(nat sockfd \<mapsto> Sock)) fd" "\<forall>fd < 3. m fd = fds p fd \<or> m fd = Some Sock"
    using assms(1) by (auto simp: ready_def)
  have "fds p fd = Some (Dev f)" if "m fd = Some (Dev f)" for fd f
    using m(1) [rule_format, of fd] m(2) [rule_format, of fd] that by (cases "fd < 3") (auto split: if_splits)
  then show ?thesis using assms(2) by (auto simp: proc_ok_def p')
qed

text \<open>The descriptors after the daemon mode, if it is asked for.\<close>

definition daemonize :: "byte list list \<Rightarrow> startup_env \<Rightarrow> (nat \<rightharpoonup> 'f fdesc) \<Rightarrow> 'f fdesc daemon_result" where
  "daemonize argv env m = (if daemon_mode argv then create_daemon Sock (daemon env) m else Returns True m)"

lemma daemonize_returns:
  assumes "daemonize argv env m = Returns ok m'" "std_open m"
  shows "(\<forall>fd \<ge> 3. m' fd = m fd) \<and> (ok \<longrightarrow> (\<forall>fd < 3. m' fd = m fd \<or> m' fd = Some Sock))"
proof (cases "daemon_mode argv")
  case True
  then have dmn: "create_daemon Sock (daemon env) m = Returns ok m'" using assms(1) by (simp add: daemonize_def)
  note d = create_daemon_descriptors [OF dmn assms(2) [unfolded std_open_def, THEN conjunct1]]
  have "fd = 0 \<or> fd = 1 \<or> fd = 2" if "fd < 3" for fd :: nat using that by auto
  then show ?thesis using d assms(2) unfolding std_open_def by blast
qed (use assms(1) in \<open>simp add: daemonize_def\<close>)

lemma startup_bound:
  assumes "socket_opens env" "lowest_fd (fds p) = Some c" "getaddrinfo_ret env = 0" "bind_ret env = 0" "info_addr env \<noteq> 0"
  defines "m \<equiv> (fds p)(c \<mapsto> Sock)" and "h \<equiv> (uheap p)(info_addr env \<mapsto> replicate (unat sizeof_addrinfo) None)"
  shows "server_startup argv env p =
    (case daemonize argv env m of
       Exits status \<Rightarrow> Some (Ends status (p\<lparr>fds := m, uheap := h\<rparr>))
     | Returns ok m' \<Rightarrow>
         if \<not> ok \<or> listen_ret env = - 1 then give_up (int c) (info_addr env) (p\<lparr>fds := m', uheap := h\<rparr>)
         else Some (Serves (reg_signal_handler (sigaction_ret env)) (int c) (info_addr env) (p\<lparr>fds := m', uheap := h\<rparr>)))"
  using assms by (cases p) (auto simp: server_startup_def malloc_def daemonize_def Let_def split: daemon_result.split)

lemma starts_bound:
  assumes "socket_opens env" "lowest_fd (fds p) = Some c" "getaddrinfo_ret env = 0" "bind_ret env = 0"
  shows "starts argv env (fds p) \<longleftrightarrow>
    listen_ret env \<noteq> - 1 \<and> (\<exists>m'. daemonize argv env ((fds p)(c \<mapsto> Sock)) = Returns True m')"
  using assms by (auto simp: starts_def daemonize_def)

text \<open>What the start makes of a socket that has been bound.\<close>

lemma startup_bound_run:
  assumes c: "lowest_fd (fds p) = Some c" and std: "std_open (fds p)"
    and go: "socket_opens env" "getaddrinfo_ret env = 0" "bind_ret env = 0"
    and al: "uheap p (info_addr env) = None" "info_addr env \<noteq> 0"
    and fail: "\<And>m. \<forall>fd \<ge> 3. m fd = ((fds p)(c \<mapsto> Sock)) fd \<Longrightarrow>
      \<exists>p'. give_up (int c) (info_addr env)
        (p\<lparr>fds := m, uheap := (uheap p)(info_addr env \<mapsto> replicate (unat sizeof_addrinfo) None)\<rparr>) = Some (Ends 0 p') \<and>
        given_up p p'"
  shows "\<exists>st. server_startup argv env p = Some st \<and>
    (case st of
       Ends status p' \<Rightarrow> status = 0 \<and> \<not> starts argv env (fds p) \<and> (daemon_parent argv env \<or> given_up p p')
     | Serves handled sockfd info p' \<Rightarrow> starts argv env (fds p) \<and>
         handled = reg_signal_handler (sigaction_ret env) \<and> ready p sockfd info p')"
proof -
  let ?m = "(fds p)(c \<mapsto> Sock)"
  note code = startup_bound [OF go(1) c go(2,3) al(2), of argv] starts_bound [OF go(1) c go(2,3), of argv]
  show ?thesis
  proof (cases "daemonize argv env ?m")
    case (Exits status)
    then have "status = 0 \<and> daemon_parent argv env"
      using create_daemon_exits [of Sock "daemon env" ?m status]
      by (auto simp: daemonize_def daemon_parent_def split: if_splits)
    then show ?thesis using Exits code by simp
  next
    case (Returns ok m)
    have "std_open ?m" using std by (auto simp: std_open_def)
    note m = daemonize_returns [OF Returns this]
    show ?thesis
    proof (cases "\<not> ok \<or> listen_ret env = - 1")
      case True
      then show ?thesis using fail [of m] m code Returns by auto
    next
      case False
      then have "ready p (int c) (info_addr env)
          (p\<lparr>fds := m, uheap := (uheap p)(info_addr env \<mapsto> replicate (unat sizeof_addrinfo) None)\<rparr>)"
        using m std_open_fresh [OF std c] lowest_fd_free [OF c] al by (intro readyI) auto
      then show ?thesis using False code Returns by simp
    qed
  qed
qed

lemma startup_run:
  assumes std: "std_open (fds p)" and al: "malloc_contract (uheap p) (info_addr env) sizeof_addrinfo" "info_addr env \<noteq> 0"
  shows "\<exists>st. server_startup argv env p = Some st \<and>
    (case st of
       Ends status p' \<Rightarrow> status = 0 \<and> \<not> starts argv env (fds p) \<and> (daemon_parent argv env \<or> given_up p p')
     | Serves handled sockfd info p' \<Rightarrow> starts argv env (fds p) \<and>
         handled = reg_signal_handler (sigaction_ret env) \<and> ready p sockfd info p')"
proof (cases "socket_opens env \<and> lowest_fd (fds p) \<noteq> None")
  case False
  then show ?thesis
    by (auto simp: server_startup_def clean_def sys_close_def fd_entry_def starts_def given_up_def intro!: exI [of _ "fds p"])
next
  case True
  then obtain c where c: "lowest_fd (fds p) = Some c" and op: "socket_opens env" by auto
  note free = lowest_fd_free [OF c]
  let ?info = "info_addr env"
  let ?m = "(fds p)(c \<mapsto> Sock)" and ?h = "(uheap p)(?info \<mapsto> replicate (unat sizeof_addrinfo) None)"
  have inf: "uheap p ?info = None" using al by (simp add: malloc_contract_def)
  have fail: "\<exists>p'. give_up (int c) ?info (p\<lparr>fds := m, uheap := ?h\<rparr>) = Some (Ends 0 p') \<and> given_up p p'"
    if "\<forall>fd \<ge> 3. m fd = ?m fd" for m
    by (rule given_upI) (use that free al inf in auto)
  show ?thesis
  proof (cases "getaddrinfo_ret env = 0 \<and> bind_ret env = 0")
    case False
    have "\<exists>p'. give_up (int c) 0 (p\<lparr>fds := ?m\<rparr>) = Some (Ends 0 p') \<and> given_up p p'"
      using given_upI [of "int c" p ?m 0 "uheap p"] free by simp
    then show ?thesis
      using False op c fail [of ?m] al(2) by (auto simp: server_startup_def malloc_def starts_def Let_def)
  next
    case True
    then show ?thesis using startup_bound_run [OF c std op _ _ inf al(2) fail] by blast
  qed
qed

lemma startup_serves:
  assumes "std_open (fds p)" "malloc_contract (uheap p) (info_addr env) sizeof_addrinfo" "info_addr env \<noteq> 0"
    and "starts argv env (fds p)"
  obtains sockfd info p' where
    "server_startup argv env p = Some (Serves (reg_signal_handler (sigaction_ret env)) sockfd info p')" "ready p sockfd info p'"
  using startup_run [OF assms(1-3), of argv]
proof (elim exE conjE, goal_cases)
  case (1 st)
  then show ?case using assms(4) by (cases st) auto
qed

section \<open>The program with its signals in accept\<close>

text \<open>
  The program, as a daemon or not: when its start succeeds, memory for the list's nodes is
  available, every client sends a newline and one of the two signals arrives, it ends with status
  0, with a valid device, no thread running, all memory it allocated freed, and all descriptors
  closed that it opened.
\<close>

lemma server_main_ends:
  assumes "main_ok dev_inv file_ok s" "running s = Map.empty" "std_open (fds (sproc s))"
    and "malloc_contract (uheap (sproc s)) (info_addr env) sizeof_addrinfo" "info_addr env \<noteq> 0"
    and "starts argv env (fds (sproc s))" "sigaction_ret env SIGINT \<noteq> - 1" "sigaction_ret env SIGTERM \<noteq> - 1"
    and "\<forall>ev \<in> set evs. regular ev \<and> (\<forall>signo. ev = Accept_fails (Some signo) \<longrightarrow> signo \<in> {SIGINT, SIGTERM})"
    and "\<exists>ev \<in> set evs. terminates ev"
    and "\<And>handled sockfd info p. server_startup argv env (sproc s) = Some (Serves handled sockfd info p) \<Longrightarrow>
      events_ok evs (s\<lparr>sproc := p\<rparr>)"
  shows "\<exists>s'. server_main aesd_ops argv env evs s = Some (Done (Exit 0, s')) \<and> dev_inv (devst (sproc s')) \<and>
    running s' = Map.empty \<and> uheap (sproc s') = uheap (sproc s) \<and>
    (\<forall>fd \<ge> 3. fds (sproc s') fd = fds (sproc s) fd)"
proof -
  let ?p = "sproc s" and ?handled = "reg_signal_handler (sigaction_ret env)"
  obtain sockfd info p where st: "server_startup argv env ?p = Some (Serves ?handled sockfd info p)"
    and r: "ready ?p sockfd info p"
    by (rule startup_serves [OF assms(3-6)])
  have hd: "?handled = {SIGINT, SIGTERM}" using assms(7,8) by (simp add: reg_signal_handler_def)
  have "server_ok (s\<lparr>sproc := p\<rparr>)" 
    using ready_ok [OF r main_okD(1) [OF assms(1)]] main_okD(2) [OF assms(1)] assms(2) by (intro main_okI) auto
  moreover have "\<forall>ev \<in> set evs. regular ev" "\<forall>ev \<in> set evs. killed_by ?handled ev = None"
    using assms(9) by (auto simp: hd killed_by_def split: event.splits option.splits)
  moreover have "fd_entry p sockfd \<noteq> None" "info \<noteq> 0" "uheap p info \<noteq> None"
    using r by (auto simp: ready_def fd_entry_def)
  ultimately obtain s' where "main_loop aesd_ops ?handled sockfd info evs (s\<lparr>sproc := p\<rparr>) = Some (Done (Exit 0, s'))"
    "shut_down (s\<lparr>sproc := p\<rparr>) sockfd info s'"
    using server_shuts_down_clean [of "s\<lparr>sproc := p\<rparr>" evs ?handled sockfd info] assms(2,10,11) st by auto
  then show ?thesis
    using st r by (auto simp: server_main_def shut_down_def ready_def fun_upd_idem)
qed

section \<open>A start\<close>

definition demo_start :: "bool \<Rightarrow> startup_env" where
  "demo_start binds = \<lparr>socket_opens = True, getaddrinfo_ret = 0, info_addr = 40, bind_ret = (if binds then 0 else - 1),
     daemon = \<lparr>fork_ret = 0, setsid_ret = 1, chdir_ret = 0, null_opens = True, dup2_ok = (\<lambda>_. True)\<rparr>,
     listen_ret = 0, sigaction_ret = (\<lambda>_. 0)\<rparr>"

definition demo_boot :: aesd_server where
  "demo_boot = demo_server\<lparr>sproc := (sproc demo_server)\<lparr>fds := [0 \<mapsto> Sock, 1 \<mapsto> Sock, 2 \<mapsto> Sock]\<rparr>\<rparr>"

lemma demo_boot_sel [simp]:
  "fds (sproc demo_boot) = [0 \<mapsto> Sock, 1 \<mapsto> Sock, 2 \<mapsto> Sock]" "uheap (sproc demo_boot) = Map.empty"
  "running demo_boot = Map.empty" "exit_flag demo_boot = False" "devst (sproc demo_boot) = demo_st"
  by (simp_all add: demo_boot_def)

lemma demo_boot_ok: "server_ok demo_boot" "std_open (fds (sproc demo_boot))"
  "malloc_contract (uheap (sproc demo_boot)) (info_addr (demo_start b)) sizeof_addrinfo" "info_addr (demo_start b) \<noteq> 0"
  using demo_server_ok
  by (auto simp: std_open_def main_ok_def proc_ok_def demo_boot_def demo_server_def demo_start_def malloc_contract_def
      sizeof_addrinfo_def split: if_splits)

section \<open>Properties\<close>

text \<open>
  C27.  The server enters its accept loop exactly when every step but the installation of the
  signal handlers succeeds; every other failure, and the parent of a daemon, end with exit status
  0, so no caller can tell a failed start from a successful one.  A start that fails closes the
  socket and frees the address information; one that succeeds has the two, and both signals end
  the server exactly when both calls of \<^verbatim>\<open>sigaction\<close> succeed.
\<close>

theorem server_startup_status:
  assumes "std_open (fds p)" "malloc_contract (uheap p) (info_addr env) sizeof_addrinfo" "info_addr env \<noteq> 0"
  shows "\<exists>st. server_startup argv env p = Some st \<and>
    (case st of
       Ends status p' \<Rightarrow> status = 0 \<and> \<not> starts argv env (fds p) \<and> (daemon_parent argv env \<or> given_up p p')
     | Serves handled sockfd info p' \<Rightarrow> starts argv env (fds p) \<and> ready p sockfd info p' \<and>
         ({SIGINT, SIGTERM} \<subseteq> handled \<longleftrightarrow> sigaction_ret env SIGINT \<noteq> - 1 \<and> sigaction_ret env SIGTERM \<noteq> - 1))"
proof -
  have "{SIGINT, SIGTERM} \<subseteq> reg_signal_handler r \<longleftrightarrow> r SIGINT \<noteq> - 1 \<and> r SIGTERM \<noteq> - 1" for r
    by (auto simp: reg_signal_handler_def SIGINT_def SIGTERM_def)
  note handlers = this [of "sigaction_ret env"]
  obtain st where st: "server_startup argv env p = Some st"
    "case st of
       Ends status p' \<Rightarrow> status = 0 \<and> \<not> starts argv env (fds p) \<and> (daemon_parent argv env \<or> given_up p p')
     | Serves handled sockfd info p' \<Rightarrow> starts argv env (fds p) \<and>
         handled = reg_signal_handler (sigaction_ret env) \<and> ready p sockfd info p'"
    using startup_run [OF assms, of argv] by blast
  then show ?thesis using handlers by (intro exI [of _ st] conjI) (auto split: startup.splits)
qed

theorem server_startup_status_witness:
  "\<exists>p'. server_startup [''aesdsocket''] (demo_start False) (sproc demo_boot) = Some (Ends 0 p') \<and>
     given_up (sproc demo_boot) p'"
proof -
  have "\<not> starts [''aesdsocket''] (demo_start False) (fds (sproc demo_boot))" "\<not> daemon_parent [''aesdsocket''] (demo_start False)"
    by (simp_all add: starts_def demo_start_def daemon_parent_def daemon_mode_def)
  with server_startup_status [OF demo_boot_ok(2-4), of "[''aesdsocket'']" False] show ?thesis
  proof (elim exE conjE, goal_cases)
    case (1 st)
    then show ?case by (cases st) auto
  qed
qed

end
