(* ===== verification/Socket_Turns.thy ===== *)
theory Socket_Turns
  imports Socket_Properties
begin

text \<open>
  The threads of \<^verbatim>\<open>server/aesdsocket.c\<close> step by step.  A thread that is not joined (its list node
  could not be allocated) runs beside those accepted later, and beside each other such threads
  interleave wherever no mutex keeps them apart.  Here \<^verbatim>\<open>thread_operation\<close> is cut into turns at the
  calls other threads can come between: opening the device, receiving, the critical section of
  \<^verbatim>\<open>send_rcv_socket_data\<close>, and in \<^verbatim>\<open>return_socketdata_to_client\<close> taking the mutex and closing the
  file, opening it again, and the sending loop up to the release of the mutex.  What a turn does
  in several calls touches only what belongs to the thread, or is done under the mutex.
\<close>

section \<open>Turns\<close>

text \<open>
  Where a thread is, with the local variables it still needs: the descriptor of
  \<^verbatim>\<open>thread_operation\<close>, the buffer, and in \<open>Sending\<close> also the descriptor of
  \<^verbatim>\<open>return_socketdata_to_client\<close>.
\<close>

datatype phase =
    Opening
  | Receiving int
  | Storing int addr u64
  | Replying int
  | Reopening int addr
  | Sending int int addr
  | Closing int "byte list"
  | Ended "byte list"

text \<open>
  A turn gives the next phase and the process, or is \<open>Blocked\<close>: on the mutex, or on a client that
  sends nothing more.
\<close>

definition receive_turn ::
  "'e thread_env \<Rightarrow> ('d, 'f) proc \<Rightarrow> int \<Rightarrow> int \<Rightarrow> (phase \<times> ('d, 'f) proc) outcome option" where
  "receive_turn env p client_fd file_fd =
     (let (client_buffer, h) = calloc (uheap p) (calloc_addr env) CLIENT_BUFFER_LEN;
          events = (case fd_entry p client_fd of Some Sock \<Rightarrow> client_events env | _ \<Rightarrow> [RecvError]) in
      if client_buffer = 0 then Some (Done (Closing file_fd [], p))
      else do {
        ex \<leftarrow> recv_loop (realloc_addr env) h client_buffer 0 CLIENT_BUFFER_LEN events;
        (case ex of
           Waiting \<Rightarrow> Some Blocked
         | Gave_up h' \<Rightarrow> Some (Done (Closing file_fd [], p\<lparr>uheap := h'\<rparr>))
         | Complete buf n h' \<Rightarrow> Some (Done (Storing file_fd buf n, p\<lparr>uheap := h'\<rparr>)))
      })"

definition reply_turn ::
  "'e thread_env \<Rightarrow> ('d, 'f) proc \<Rightarrow> int \<Rightarrow> (phase \<times> ('d, 'f) proc) outcome option" where
  "reply_turn env p file_fd =
     (let (send_buffer, h) = malloc (uheap p) (malloc_addr env) CLIENT_BUFFER_LEN in
      if send_buffer = 0 then Some (Done (Closing file_fd [], p))
      else if rw_held p then Some Blocked
      else
        let p1 = p\<lparr>uheap := h, rw_held := True\<rparr> in
        if \<not> ioctl_just_performed p1
        then Some (Done (Reopening file_fd send_buffer, sys_close file_fd p1))
        else Some (Done (Sending file_fd file_fd send_buffer, p1\<lparr>ioctl_just_performed := False\<rparr>)))"

definition reopen_turn ::
  "('d, 'f, 'e) dev_ops \<Rightarrow> 'e thread_env \<Rightarrow> ('d, 'f) proc \<Rightarrow> int \<Rightarrow> addr \<Rightarrow>
   (phase \<times> ('d, 'f) proc) outcome option" where
  "reopen_turn ops env p old_fd send_buffer =
     (let (file_fd, p1) = sys_open ops (reopen_succeeds env) p in
      if file_fd = - 1 then do {
        h \<leftarrow> free (uheap p1) send_buffer;
        Some (Done (Closing old_fd [], p1\<lparr>uheap := h, rw_held := False\<rparr>))
      }
      else Some (Done (Sending old_fd file_fd send_buffer, p1\<lparr>ioctl_just_performed := False\<rparr>)))"

definition thread_turn ::
  "('d, 'f, 'e) dev_ops \<Rightarrow> 'e thread_env \<Rightarrow> addr \<Rightarrow> int \<Rightarrow> phase \<Rightarrow> ('d, 'f) proc \<Rightarrow>
   (phase \<times> ('d, 'f) proc) outcome option" where
  "thread_turn ops env args client_fd ph p =
     (case ph of
        Opening \<Rightarrow> do {
          guard (uheap p args \<noteq> None);
          let (file_fd, p1) = sys_open ops (open_succeeds env) p;
          if file_fd = - 1 then do {
            let p2 = sys_close client_fd p1;
            h \<leftarrow> free (uheap p2) args;
            Some (Done (Ended [], p2\<lparr>uheap := h\<rparr>))
          }
          else Some (Done (Receiving file_fd, p1))
        }
      | Receiving file_fd \<Rightarrow> receive_turn env p client_fd file_fd
      | Storing file_fd client_buffer total_received \<Rightarrow> do {
          stored \<leftarrow> store_request ops (write_envs env) p file_fd client_buffer total_received;
          Some (case stored of
                  Blocked \<Rightarrow> Blocked
                | Done (r, p1) \<Rightarrow> Done (if r > 0 then Replying file_fd else Closing file_fd [], p1))
        }
      | Replying file_fd \<Rightarrow> reply_turn env p file_fd
      | Reopening old_fd send_buffer \<Rightarrow> reopen_turn ops env p old_fd send_buffer
      | Sending old_fd file_fd send_buffer \<Rightarrow> do {
          (r, out, p1) \<leftarrow> reply_loop ops (read_signals env) (send_results env) 0 p client_fd file_fd send_buffer [];
          h \<leftarrow> free (uheap p1) send_buffer;
          Some (Done (Closing old_fd out, p1\<lparr>uheap := h, rw_held := False\<rparr>))
        }
      | Closing file_fd out \<Rightarrow> do {
          let p1 = sys_close client_fd (sys_close file_fd p);
          h \<leftarrow> free (uheap p1) args;
          Some (Done (Ended out, p1\<lparr>uheap := h\<rparr>))
        }
      | Ended out \<Rightarrow> Some (Done (Ended out, p)))"

text \<open>A thread on its own: \<open>n\<close> turns one after the other.\<close>

fun turns ::
  "('d, 'f, 'e) dev_ops \<Rightarrow> 'e thread_env \<Rightarrow> addr \<Rightarrow> int \<Rightarrow> nat \<Rightarrow> phase \<Rightarrow> ('d, 'f) proc \<Rightarrow>
   (phase \<times> ('d, 'f) proc) outcome option" where
  "turns ops env args client_fd 0 ph p = Some (Done (ph, p))"
| "turns ops env args client_fd (Suc n) ph p = do {
     res \<leftarrow> thread_turn ops env args client_fd ph p;
     (case res of
        Blocked \<Rightarrow> Some Blocked
      | Done (ph', p') \<Rightarrow> turns ops env args client_fd n ph' p')
   }"

section \<open>A thread alone\<close>

lemma turns_ended [simp]: "turns ops env args c n (Ended out) p = Some (Done (Ended out, p))"
  by (induction n) (simp_all add: thread_turn_def)

definition then_end ::
  "int \<Rightarrow> addr \<Rightarrow> int \<Rightarrow> (int \<times> byte list \<times> ('d, 'f) proc) outcome option \<Rightarrow>
   (phase \<times> ('d, 'f) proc) outcome option" where
  "then_end client_fd args file_fd replied = do {
     res \<leftarrow> replied;
     (case res of
        Blocked \<Rightarrow> Some Blocked
      | Done (_, out, p3) \<Rightarrow> do {
          let p4 = sys_close client_fd (sys_close file_fd p3);
          h \<leftarrow> free (uheap p4) args;
          Some (Done (Ended out, p4\<lparr>uheap := h\<rparr>))
        })
   }"

lemma turns_closing:
  "turns ops env args c (Suc n) (Closing fd out) p = then_end c args fd (Some (Done (r, out, p)))"
  by (simp add: thread_turn_def then_end_def Let_def split: bind_split)

lemma then_end_None [simp]: "then_end c args fd None = None"
  by (simp add: then_end_def)

lemma turns_sending:
  "turns ops env args c (Suc (Suc n)) (Sending old fd b) p = then_end c args old (do {
     (r, out, p1) \<leftarrow> reply_loop ops (read_signals env) (send_results env) 0 p c fd b [];
     h \<leftarrow> free (uheap p1) b;
     Some (Done (r, out, p1\<lparr>uheap := h, rw_held := False\<rparr>))
   })"
proof (cases "reply_loop ops (read_signals env) (send_results env) 0 p c fd b []")
  case (Some res)
  obtain r out p1 where res: "res = (r, out, p1)" by (cases res)
  note close = turns_closing [of ops env args c n old out _ r]
  show ?thesis
    by (subst turns.simps(2), cases "free (uheap p1) b")
      (simp_all add: Some res close thread_turn_def [of _ _ _ _ "Sending old fd b"] del: turns.simps)
qed (simp add: thread_turn_def)

lemma turns_replying:
  "turns ops env args c 4 (Replying fd) p =
     then_end c args fd (return_socketdata_to_client ops (malloc_addr env) (reopen_succeeds env)
       (read_signals env) (send_results env) p c fd)"
proof -
  obtain b h where m: "malloc (uheap p) (malloc_addr env) CLIENT_BUFFER_LEN = (b, h)" by force
  let ?p1 = "p\<lparr>uheap := h, rw_held := True\<rparr>"
  obtain fd' p2 where o: "sys_open ops (reopen_succeeds env) (sys_close fd ?p1) = (fd', p2)" by force
  note code = return_socketdata_to_client_def m Let_def o
  have four: "4 = Suc (Suc (Suc (Suc 0)))" by simp
  note first = turns.simps(2) [of ops env args c "Suc (Suc (Suc 0))" "Replying fd"]
  show ?thesis
  proof (cases "b = 0 \<or> rw_held p")
    case True
    then show ?thesis
      unfolding four first by (auto simp: thread_turn_def reply_turn_def code then_end_def split: bind_split)
  next
    case go: False
    show ?thesis
    proof (cases "ioctl_just_performed p")
      case True
      have "turns ops env args c 4 (Replying fd) p =
          turns ops env args c (Suc (Suc 1)) (Sending fd fd b) (?p1\<lparr>ioctl_just_performed := False\<rparr>)"
        using go True unfolding four first by (simp add: thread_turn_def reply_turn_def m Let_def)
      then show ?thesis using go True unfolding turns_sending by (simp add: code)
    next
      case False
      have turn: "turns ops env args c 4 (Replying fd) p =
          turns ops env args c (Suc (Suc (Suc 0))) (Reopening fd b) (sys_close fd ?p1)"
        using go False unfolding four first by (simp add: thread_turn_def reply_turn_def m Let_def)
      show ?thesis
      proof (cases "fd' = - 1")
        case True
        then show ?thesis
          unfolding turn using go False
          by (subst turns.simps(2), cases "free (uheap p2) b")
            (simp_all add: thread_turn_def [of _ _ _ _ "Reopening fd b"] reopen_turn_def code
              turns_closing [where r = "- 1"] del: turns.simps)
      next
        case nf: False
        have "turns ops env args c (Suc (Suc (Suc 0))) (Reopening fd b) (sys_close fd ?p1) =
            turns ops env args c (Suc (Suc 0)) (Sending fd fd' b) (p2\<lparr>ioctl_just_performed := False\<rparr>)"
          using nf by (subst turns.simps(2)) (simp add: thread_turn_def reopen_turn_def o)
        then show ?thesis unfolding turn turns_sending using go False nf by (simp add: code)
      qed
    qed
  qed
qed

lemma turns_storing:
  "turns ops env args c 5 (Storing fd b n) p = do {
     stored \<leftarrow> store_request ops (write_envs env) p fd b n;
     (case stored of
        Blocked \<Rightarrow> Some Blocked
      | Done (r, p2) \<Rightarrow> then_end c args fd
          (if r > 0 then return_socketdata_to_client ops (malloc_addr env) (reopen_succeeds env)
             (read_signals env) (send_results env) p2 c fd else Some (Done (0, [], p2))))
   }"
proof -
  have five: "5 = Suc 4" by simp
  have close: "turns ops env args c 4 (Closing fd []) q = then_end c args fd (Some (Done (0, [], q)))" for q
    using turns_closing [of ops env args c "3" fd "[]" q 0] by simp
  show ?thesis
    unfolding five turns.simps(2)
    by (auto simp: thread_turn_def close turns_replying split: bind_split outcome.split)
qed

lemma turns_receiving:
  "turns ops env args c 6 (Receiving fd) p = do {
     stored \<leftarrow> send_rcv_socket_data ops (calloc_addr env) (realloc_addr env) (client_events env)
       (write_envs env) p c fd;
     (case stored of
        Blocked \<Rightarrow> Some Blocked
      | Done (r, p2) \<Rightarrow> then_end c args fd
          (if r > 0 then return_socketdata_to_client ops (malloc_addr env) (reopen_succeeds env)
             (read_signals env) (send_results env) p2 c fd else Some (Done (0, [], p2))))
   }"
proof -
  have six: "6 = Suc 5" by simp
  have close: "turns ops env args c 5 (Closing fd []) q = then_end c args fd (Some (Done (0, [], q)))" for q
    using turns_closing [of ops env args c "4" fd "[]" q 0] by simp
  show ?thesis
    unfolding six
    by (subst turns.simps(2))
      (auto simp: thread_turn_def [of _ _ _ _ "Receiving fd"] receive_turn_def send_rcv_socket_data_def
        Let_def close turns_storing split: prod.split bind_split recv_exit.split simp del: turns.simps)
qed

text \<open>
  A thread that takes its turns without another thread between them does exactly what
  \<^verbatim>\<open>thread_operation\<close> does: it waits, has undefined behaviour or ends in the same cases, with the
  same bytes for the client and the same process.
\<close>

lemma turns_compose:
  "turns ops env args c 7 Opening p =
     map_option (map_outcome (map_prod Ended id)) (thread_operation ops env p args c)"
proof (cases "uheap p args")
  case None
  then show ?thesis by (simp add: numeral_eq_Suc thread_turn_def thread_operation_def guard_def)
next
  case (Some blk)
  obtain fd p1 where o: "sys_open ops (open_succeeds env) p = (fd, p1)" by force
  have seven: "7 = Suc 6" by simp
  show ?thesis
  proof (cases "fd = - 1")
    case True
    then show ?thesis
      unfolding seven
      by (subst turns.simps(2), cases "free (uheap (sys_close c p1)) args")
        (simp_all add: thread_turn_def [of _ _ _ _ Opening] thread_operation_def Some o
          del: turns.simps)
  next
    case False
    then show ?thesis
      unfolding seven
      by (subst turns.simps(2))
        (auto simp: thread_turn_def [of _ _ _ _ Opening] thread_operation_def Some o then_end_def Let_def
          turns_receiving split: bind_split outcome.split simp del: turns.simps)
  qed
qed

end
