(* ===== verification/Socket_Interleaving.thy ===== *)
theory Socket_Interleaving
  imports Socket_Turns
begin

text \<open>
  Any number of threads of the server taking turns in any order, from a state in which each has
  its argument block and its client; no further client is accepted meanwhile.  The invariant says
  what belongs to whom: the blocks and the client of a thread are its own, the descriptors it
  keeps for the device are no sockets, and the mutex is held exactly by the one thread between
  closing its file and the end of its reply.  The descriptors of the device are not the threads'
  own: see \<open>reopen_takes_foreign_descriptor\<close>.
\<close>

section \<open>What a phase owns\<close>

fun phase_block :: "phase \<Rightarrow> addr set" where
  "phase_block (Storing fd b n) = {b}"
| "phase_block (Reopening fd b) = {b}"
| "phase_block (Sending fd fd' b) = {b}"
| "phase_block _ = {}"

fun phase_fds :: "phase \<Rightarrow> int set" where
  "phase_fds Opening = {}"
| "phase_fds (Receiving fd) = {fd}"
| "phase_fds (Storing fd b n) = {fd}"
| "phase_fds (Replying fd) = {fd}"
| "phase_fds (Reopening fd b) = {fd}"
| "phase_fds (Sending fd fd' b) = {fd, fd'}"
| "phase_fds (Closing fd out) = {fd}"
| "phase_fds (Ended out) = {}"

fun live :: "phase \<Rightarrow> bool" where
  "live (Ended out) = False"
| "live _ = True"

fun in_reply :: "phase \<Rightarrow> bool" where
  "in_reply (Reopening fd b) = True"
| "in_reply (Sending fd fd' b) = True"
| "in_reply _ = False"

fun opens_file :: "phase \<Rightarrow> bool" where
  "opens_file Opening = True"
| "opens_file (Reopening fd b) = True"
| "opens_file _ = False"

text \<open>A received request of \<open>n\<close> bytes in block \<open>b\<close>, with its NUL.\<close>

definition request_in :: "heap \<Rightarrow> addr \<Rightarrow> u64 \<Rightarrow> byte list \<Rightarrow> bool" where
  "request_in h b n bs \<longleftrightarrow> (\<exists>rest. h b = Some (map Some bs @ Some (CHR 0x00) # rest)) \<and>
     unat n = length bs \<and> newline \<in> set bs \<and> length bs \<le> max_rw_count"

fun phase_ok :: "heap \<Rightarrow> phase \<Rightarrow> bool" where
  "phase_ok h (Storing fd b n) = (b \<noteq> 0 \<and> (\<exists>bs. request_in h b n bs))"
| "phase_ok h (Reopening fd b) = (b \<noteq> 0 \<and> (\<exists>blk. h b = Some blk \<and> length blk = 1024))"
| "phase_ok h (Sending fd fd' b) = (b \<noteq> 0 \<and> (\<exists>blk. h b = Some blk \<and> length blk = 1024))"
| "phase_ok h _ = True"

definition thread_ok :: "('d, 'f) proc \<Rightarrow> addr \<Rightarrow> nat \<Rightarrow> phase \<Rightarrow> bool" where
  "thread_ok p args c ph \<longleftrightarrow> (live ph \<longrightarrow>
     args \<noteq> 0 \<and> uheap p args \<noteq> None \<and> args \<notin> phase_block ph \<and> fds p c = Some Sock \<and>
     (\<forall>fd \<in> phase_fds ph. 0 \<le> fd \<and> fds p (nat fd) \<noteq> Some Sock) \<and> phase_ok (uheap p) ph)"

definition blocks :: "addr \<Rightarrow> phase \<Rightarrow> addr set" where
  "blocks args ph = (if live ph then insert args (phase_block ph) else {})"

definition shared_ok :: "('d \<Rightarrow> bool) \<Rightarrow> ('f \<Rightarrow> bool) \<Rightarrow> ('d, 'f) proc \<Rightarrow> bool" where
  "shared_ok dok fok p \<longleftrightarrow> dok (devst p) \<and> (\<forall>fd f. fds p fd = Some (Dev f) \<longrightarrow> fok f)"

text \<open>The line a turn stores in the device: that of a request which was written.\<close>

definition stored_line :: "heap \<Rightarrow> phase \<Rightarrow> phase \<Rightarrow> byte list list" where
  "stored_line h ph ph' =
     (case (ph, ph') of
        (Storing fd b n, Replying _) \<Rightarrow>
          (case mem_read h b 0 (unat n) of
             Some bs \<Rightarrow> if seek_request bs then [] else [bs]
           | None \<Rightarrow> [])
      | _ \<Rightarrow> [])"

text \<open>The contracts of the environment in a turn; no client sends more than one call can write.\<close>

definition turn_env ::
  "('e \<Rightarrow> 'd \<Rightarrow> byte list \<Rightarrow> bool) \<Rightarrow> 'e thread_env \<Rightarrow> phase \<Rightarrow> ('d, 'f) proc \<Rightarrow> bool" where
  "turn_env eok env ph p \<longleftrightarrow>
     (case ph of
        Receiving fd \<Rightarrow> malloc_contract (uheap p) (calloc_addr env) CLIENT_BUFFER_LEN \<and>
          realloc_contract (realloc_addr env) (uheap p) \<and>
          length (arriving (client_events env)) \<le> max_rw_count
      | Storing fd b n \<Rightarrow> (\<forall>bs. eok (write_envs env bs) (devst p) bs)
      | Replying fd \<Rightarrow> malloc_contract (uheap p) (malloc_addr env) CLIENT_BUFFER_LEN
      | _ \<Rightarrow> True)"

text \<open>
  What a turn leaves alone, and what it leaves behind: memory of others, descriptors of other
  clients, the mutex of another thread.
\<close>

definition turn_frame :: "addr \<Rightarrow> nat \<Rightarrow> phase \<Rightarrow> ('d, 'f) proc \<Rightarrow> phase \<Rightarrow> ('d, 'f) proc \<Rightarrow> bool" where
  "turn_frame args c ph p ph' p' \<longleftrightarrow>
     (\<forall>a. a \<notin> blocks args ph \<union> blocks args ph' \<longrightarrow> uheap p' a = uheap p a) \<and>
     (\<forall>a \<in> blocks args ph'. a \<in> blocks args ph \<or> uheap p a = None) \<and>
     (\<forall>fd. fd \<noteq> c \<longrightarrow> (fds p' fd = Some Sock \<longleftrightarrow> fds p fd = Some Sock)) \<and>
     (if in_reply ph' then rw_held p' \<and> (in_reply ph \<or> \<not> rw_held p)
      else rw_held p' = (rw_held p \<and> \<not> in_reply ph)) \<and>
     (live ph' \<longrightarrow> live ph)"

text \<open>
  What a turn gives back and takes: blocks it no longer needs are freed, only its own descriptors
  change, a new one is the lowest free number, and at the end its file and its client are closed.
\<close>

definition turn_exact :: "addr \<Rightarrow> nat \<Rightarrow> phase \<Rightarrow> ('d, 'f) proc \<Rightarrow> phase \<Rightarrow> ('d, 'f) proc \<Rightarrow> bool" where
  "turn_exact args c ph p ph' p' \<longleftrightarrow>
     (\<forall>a \<in> blocks args ph - blocks args ph'. uheap p' a = None) \<and>
     (\<forall>fd. fd \<noteq> c \<longrightarrow> int fd \<notin> phase_fds ph \<union> phase_fds ph' \<longrightarrow> fds p' fd = fds p fd) \<and>
     (\<forall>fd \<in> phase_fds ph' - phase_fds ph. opens_file ph \<and> lowest_fd (fds p) = Some (nat fd)) \<and>
     (live ph' \<longrightarrow> phase_fds ph' \<noteq> {}) \<and>
     (live ph \<longrightarrow> \<not> live ph' \<longrightarrow> fds p' c = None \<and> (\<forall>fd \<in> phase_fds ph. fds p' (nat fd) = None)) \<and>
     (\<forall>fd b. ph' = Reopening fd b \<longrightarrow> fds p' (nat fd) = None)"

text \<open>Why a thread waits.\<close>

definition waits_for :: "'e thread_env \<Rightarrow> ('d, 'f) proc \<Rightarrow> phase \<Rightarrow> bool" where
  "waits_for env p ph \<longleftrightarrow>
     (case ph of
        Receiving fd \<Rightarrow> newline \<notin> set (arriving (client_events env))
      | Storing fd b n \<Rightarrow> rw_held p
      | Replying fd \<Rightarrow> rw_held p
      | _ \<Rightarrow> False)"

text \<open>All that a completed turn of a thread achieves.\<close>

definition turn_good ::
  "('d \<Rightarrow> bool) \<Rightarrow> ('f \<Rightarrow> bool) \<Rightarrow> ('d \<Rightarrow> byte list list \<times> byte list) \<Rightarrow> addr \<Rightarrow> nat \<Rightarrow>
   phase \<Rightarrow> ('d, 'f) proc \<Rightarrow> phase \<Rightarrow> ('d, 'f) proc \<Rightarrow> bool" where
  "turn_good dok fok cont args c ph p ph' p' \<longleftrightarrow>
     shared_ok dok fok p' \<and> thread_ok p' args c ph' \<and> turn_frame args c ph p ph' p' \<and>
     turn_exact args c ph p ph' p' \<and>
     cont (devst p') = fold spec_write (stored_line (uheap p) ph ph') (cont (devst p))"

lemmas good_turn_defs = turn_good_def shared_ok_def thread_ok_def turn_frame_def turn_exact_def stored_line_def blocks_def

lemma fd_entry_int: "0 \<le> fd \<Longrightarrow> fd_entry p fd = fds p (nat fd)"
  by (simp add: fd_entry_def)

context char_device begin

text \<open>Calls on a descriptor that another thread has closed.\<close>

lemma store_request_closed:
  assumes "fds p fd = None" "\<not> rw_held p" "unat n = length bs"
    and "uheap p = h0(b \<mapsto> map Some bs @ Some (CHR 0x00) # rest)" "b \<noteq> 0" "h0 b = None"
  shows "store_request ops env p (int fd) b n = Some (Done (- 1, p\<lparr>uheap := h0, rw_held := False\<rparr>))"
proof -
  have "free (uheap p) b = Some h0" using assms(5,6) by (simp add: assms(4) fun_upd_idem)
  then show ?thesis
    using assms(1) by (auto simp: store_request_eval [OF assms(2,4,3)] sys_ioctl_def sys_write_def split: option.split)
qed

lemma reply_loop_closed:
  assumes "fds p fd = None" "uheap p b = Some blk"
  shows "reply_loop ops intr sends i p client_fd (int fd) b out = Some (0, out, p)"
proof -
  have "mem_write (uheap p) b 0 [] = Some (uheap p)"
    using assms(2) by (simp add: mem_write_def fun_upd_idem)
  then show ?thesis using assms(1) by (subst reply_loop.simps) (simp add: sys_read_def)
qed

abbreviation good_turn where
  "good_turn \<equiv> turn_good inv fok content"

text \<open>One lemma for each phase.\<close>

lemma opening_turn:
  assumes "shared_ok inv fok p" "thread_ok p args c Opening"
  shows "\<exists>ph' p'. thread_turn ops env args (int c) Opening p = Some (Done (ph', p')) \<and>
    good_turn args c Opening p ph' p'"
proof -
  note t = assms(2) [unfolded thread_ok_def, simplified] and sh = assms(1) [unfolded shared_ok_def]
  obtain f where f: "dev_open ops (devst p) = (f, devst p)" "fok f" using open_spec sh by blast
  show ?thesis
  proof (cases "lowest_fd (fds p) = None \<or> \<not> open_succeeds env")
    case True
    let ?p' = "p\<lparr>fds := (fds p)(c := None), uheap := (uheap p)(args := None)\<rparr>"
    have "sys_open ops (open_succeeds env) p = (- 1, p)" using True by (auto simp: sys_open_def split: option.split)
    then have "thread_turn ops env args (int c) Opening p = Some (Done (Ended [], ?p'))"
      using t by (auto simp: thread_turn_def sys_close_def free_def)
    moreover have "good_turn args c Opening p (Ended []) ?p'"
      using sh by (auto simp: good_turn_defs
          split: if_splits)
    ultimately show ?thesis by blast
  next
    case False
    then obtain fd where fd: "lowest_fd (fds p) = Some fd" and op: "open_succeeds env" by auto
    let ?p' = "p\<lparr>fds := (fds p)(fd \<mapsto> Dev f)\<rparr>"
    have fc: "fds p fd = None" "fd \<noteq> c" using lowest_fd_free [OF fd] t by auto
    have "sys_open ops (open_succeeds env) p = (int fd, ?p')"
      using fd op f(1) by (cases p) (simp add: sys_open_def)
    then have "thread_turn ops env args (int c) Opening p = Some (Done (Receiving (int fd), ?p'))"
      using t by (auto simp: thread_turn_def)
    moreover have "good_turn args c Opening p (Receiving (int fd)) ?p'"
      using sh t fc fd f(2)
      by (auto simp: good_turn_defs)
    ultimately show ?thesis by blast
  qed
qed

lemma receiving_turn:
  assumes "shared_ok inv fok p" "thread_ok p args c (Receiving fd)" "turn_env env_ok env (Receiving fd) p"
  shows "thread_turn ops env args (int c) (Receiving fd) p = Some Blocked \<and> newline \<notin> set (arriving (client_events env)) \<or>
    (\<exists>ph' p'. thread_turn ops env args (int c) (Receiving fd) p = Some (Done (ph', p')) \<and>
      good_turn args c (Receiving fd) p ph' p')"
proof -
  note t = assms(2) [unfolded thread_ok_def, simplified] and sh = assms(1) [unfolded shared_ok_def]
  note al = assms(3) [unfolded turn_env_def, simplified]
  have close: "good_turn args c (Receiving fd) p (Closing fd []) p" using sh t by (auto simp: good_turn_defs)
  show ?thesis
  proof (cases "calloc_addr env = 0")
    case True
    then have "thread_turn ops env args (int c) (Receiving fd) p = Some (Done (Closing fd [], p))"
      by (simp add: thread_turn_def receive_turn_def calloc_def)
    with close show ?thesis by blast
  next
    case False
    note code = thread_turn_def receive_turn_def calloc_def
    have al': "malloc_contract (uheap p) (calloc_addr env) CLIENT_BUFFER_LEN" "realloc_contract (realloc_addr env) (uheap p)"
      using al by simp_all
    show ?thesis
    proof (rule recv_cases [OF al'(1) False al'(2), of "client_events env"], goal_cases)
      case (3 b n bs rest)
      let ?p = "p\<lparr>uheap := (uheap p)(b \<mapsto> map Some bs @ Some (CHR 0x00) # rest)\<rparr>"
      have "request_in (uheap ?p) b n bs"
        using 3(3) request_ofD [OF 3(5)] al by (simp add: request_in_def)
      then have "good_turn args c (Receiving fd) p (Storing fd b n) ?p"
        using sh t 3(1,2) by (auto simp: good_turn_defs)
      moreover have "thread_turn ops env args (int c) (Receiving fd) p = Some (Done (Storing fd b n, ?p))"
        using False 3(6) t by (simp add: code)
      ultimately show ?thesis by blast
    qed (use False t close in \<open>simp_all add: code\<close>)
  qed
qed

lemma store_runs:
  assumes sh: "inv (devst p)" "\<And>fd f. fds p fd = Some (Dev f) \<Longrightarrow> fok f" and "\<not> rw_held p" "fds p k \<noteq> Some Sock"
    and bs: "uheap p = h0(b \<mapsto> map Some bs @ Some (CHR 0x00) # rest)" "h0 b = None" "b \<noteq> 0" "unat n = length bs"
      "newline \<in> set bs" "length bs \<le> max_rw_count"
    and env: "env_ok (write_envs env bs) (devst p) bs"
  shows "\<exists>r p' v. store_request ops (write_envs env) p (int k) b n = Some (Done (r, p')) \<and>
      uheap p' = h0 \<and> \<not> rw_held p' \<and> fds p' = (fds p)(k := v) \<and> v \<noteq> Some Sock \<and>
      (\<forall>f. v = Some (Dev f) \<longrightarrow> fok f) \<and> inv (devst p') \<and>
      content (devst p') = (if 0 < r \<and> \<not> seek_request bs then spec_write bs (content (devst p)) else content (devst p))"
proof (cases "fds p k")
  case None
  then have "fds p = (fds p)(k := None)" by (simp add: fun_upd_idem)
  then show ?thesis
    using store_request_closed [of p k n bs h0 b rest "write_envs env"] None assms(3) bs sh(1)
    by (intro exI [of _ "- 1"] exI [of _ "p\<lparr>uheap := h0, rw_held := False\<rparr>"] exI [of _ None]) simp
next
  case (Some x)
  then obtain f where f: "fds p k = Some (Dev f)" using assms(4) by (cases x) auto
  have "bs \<noteq> []" using bs(5) by auto
  then obtain r p' f' where st: "store_request ops (write_envs env) p (int k) b n = Some (Done (r, p'))"
    "uheap p' = h0" "\<not> rw_held p'" "fds p' = (fds p)(k \<mapsto> Dev f')" "fok f'" "inv (devst p')"
    "handled (write_envs env) bs (devst p) (ioctl_just_performed p) f' (devst p') (ioctl_just_performed p') r"
    using store_request_run [of p k f "write_envs env" bs h0 b rest n] f sh assms(3) bs env by auto
  have "content (devst p') = (if 0 < r \<and> \<not> seek_request bs then spec_write bs (content (devst p)) else content (devst p))"
    using st(7) bs(6) by (auto simp: handled_def seek_done_def write_done_def split: if_splits)
  with st show ?thesis by (intro exI [of _ r] exI [of _ p'] exI [of _ "Some (Dev f')"]) simp
qed

lemma storing_turn:
  assumes "shared_ok inv fok p" "thread_ok p args c (Storing fd b n)" "turn_env env_ok env (Storing fd b n) p" "\<not> rw_held p"
  shows "\<exists>ph' p'. thread_turn ops env args (int c) (Storing fd b n) p = Some (Done (ph', p')) \<and>
    good_turn args c (Storing fd b n) p ph' p'"
proof -
  note t = assms(2) [unfolded thread_ok_def, simplified] and sh = assms(1) [unfolded shared_ok_def]
  obtain bs rest where bs: "uheap p b = Some (map Some bs @ Some (CHR 0x00) # rest)" "unat n = length bs"
    "newline \<in> set bs" "length bs \<le> max_rw_count" using t by (auto simp: request_in_def)
  define h0 where "h0 = (uheap p)(b := None)"
  have up: "uheap p = h0(b \<mapsto> map Some bs @ Some (CHR 0x00) # rest)" "h0 b = None"
    using bs(1) by (auto simp: h0_def)
  have rd: "mem_read (uheap p) b 0 (unat n) = Some bs" unfolding bs(2) up(1) by (rule mem_read_prefix)
  have ifd: "int (nat fd) = fd" and nsock: "fds p (nat fd) \<noteq> Some Sock" and neq: "c \<noteq> nat fd" using t by auto
  have ab: "args \<noteq> b" "uheap p args \<noteq> None" using t by auto
  have "env_ok (write_envs env bs) (devst p) bs" using assms(3) by (simp add: turn_env_def)
  then obtain r p' v where st: "store_request ops (write_envs env) p fd b n = Some (Done (r, p'))"
    "uheap p' = h0" "\<not> rw_held p'" "fds p' = (fds p)(nat fd := v)" "v \<noteq> Some Sock"
    "\<forall>f. v = Some (Dev f) \<longrightarrow> fok f" "inv (devst p')"
    "content (devst p') = (if 0 < r \<and> \<not> seek_request bs then spec_write bs (content (devst p)) else content (devst p))"
    using store_runs [of p "nat fd" h0 b bs rest n env, unfolded ifd] sh assms(4) nsock up t bs(2-4) by auto
  let ?ph = "if r > 0 then Replying fd else Closing fd []"
  have "thread_turn ops env args (int c) (Storing fd b n) p = Some (Done (?ph, p'))"
    using st(1) by (simp add: thread_turn_def)
  moreover have "good_turn args c (Storing fd b n) p ?ph p'"
    unfolding turn_good_def
  proof (intro conjI)
    show "shared_ok inv fok p'" using st(4,6,7) sh by (auto simp: shared_ok_def split: if_splits)
    show "thread_ok p' args c ?ph"
      using t st(2,4,5) ab neq by (auto simp: thread_ok_def h0_def)
    show "turn_frame args c (Storing fd b n) p ?ph p'"
      using st(2-5) nsock assms(4) by (auto simp: turn_frame_def blocks_def h0_def split: if_splits)
    show "turn_exact args c (Storing fd b n) p ?ph p'"
      using st(2,4) t by (auto simp: turn_exact_def blocks_def h0_def split: if_splits)
    show "content (devst p') = fold spec_write (stored_line (uheap p) (Storing fd b n) ?ph) (content (devst p))"
      using st(8) rd by (auto simp: stored_line_def)
  qed
  ultimately show ?thesis by blast
qed

lemma replying_taken:
  assumes sh: "shared_ok inv fok p" and ok: "thread_ok p args c (Replying fd)" and env: "turn_env env_ok env (Replying fd) p"
    and ma: "malloc_addr env \<noteq> 0" and free: "\<not> rw_held p"
  shows "\<exists>ph' p'. thread_turn ops env args (int c) (Replying fd) p = Some (Done (ph', p')) \<and>
    good_turn args c (Replying fd) p ph' p'"
proof -
  note t = ok [unfolded thread_ok_def, simplified] and inv = sh [unfolded shared_ok_def]
  let ?ma = "malloc_addr env"
  let ?p1 = "p\<lparr>uheap := (uheap p)(?ma \<mapsto> replicate 1024 None), rw_held := True\<rparr>"
  have fresh: "uheap p ?ma = None" "args \<noteq> ?ma" using env ma t by (auto simp: turn_env_def malloc_contract_def)
  have "thread_turn ops env args (int c) (Replying fd) p =
      Some (Done (if ioctl_just_performed p then (Sending fd fd ?ma, ?p1\<lparr>ioctl_just_performed := False\<rparr>)
        else (Reopening fd ?ma, sys_close fd ?p1)))"
    using ma free by (simp add: thread_turn_def reply_turn_def malloc_def Let_def)
  moreover have "good_turn args c (Replying fd) p (Sending fd fd ?ma) (?p1\<lparr>ioctl_just_performed := False\<rparr>)"
    using inv t ma fresh free by (auto simp: good_turn_defs)
  moreover have "good_turn args c (Replying fd) p (Reopening fd ?ma) (sys_close fd ?p1)"
    using inv t ma fresh free by (auto simp: good_turn_defs sys_close_def fd_entry_int split: if_splits)
  ultimately show ?thesis by (cases "ioctl_just_performed p") auto
qed

lemma replying_turn:
  assumes "shared_ok inv fok p" "thread_ok p args c (Replying fd)" "turn_env env_ok env (Replying fd) p"
  shows "thread_turn ops env args (int c) (Replying fd) p = Some Blocked \<and> rw_held p \<or>
    (\<exists>ph' p'. thread_turn ops env args (int c) (Replying fd) p = Some (Done (ph', p')) \<and>
      good_turn args c (Replying fd) p ph' p')"
proof (cases "malloc_addr env = 0")
  case True
  then have "thread_turn ops env args (int c) (Replying fd) p = Some (Done (Closing fd [], p))"
    by (simp add: thread_turn_def reply_turn_def malloc_def)
  moreover have "good_turn args c (Replying fd) p (Closing fd []) p"
    using assms(1,2) by (auto simp: good_turn_defs)
  ultimately show ?thesis by blast
next
  case ma: False
  show ?thesis
  proof (cases "rw_held p")
    case True
    then show ?thesis using ma by (simp add: thread_turn_def reply_turn_def malloc_def)
  qed (use replying_taken [OF assms ma] in blast)
qed

lemma reopening_turn:
  assumes "shared_ok inv fok p" "thread_ok p args c (Reopening fd b)" "rw_held p"
  shows "\<exists>ph' p'. thread_turn ops env args (int c) (Reopening fd b) p = Some (Done (ph', p')) \<and>
    good_turn args c (Reopening fd b) p ph' p'"
proof -
  note t = assms(2) [unfolded thread_ok_def, simplified] and sh = assms(1) [unfolded shared_ok_def]
  obtain f where f: "dev_open ops (devst p) = (f, devst p)" "fok f" using open_spec sh by blast
  show ?thesis
  proof (cases "lowest_fd (fds p) = None \<or> \<not> reopen_succeeds env")
    case True
    let ?p' = "p\<lparr>uheap := (uheap p)(b := None), rw_held := False\<rparr>"
    have "sys_open ops (reopen_succeeds env) p = (- 1, p)" using True by (auto simp: sys_open_def split: option.split)
    then have "thread_turn ops env args (int c) (Reopening fd b) p = Some (Done (Closing fd [], ?p'))"
      using t by (auto simp: thread_turn_def reopen_turn_def free_def)
    moreover have "good_turn args c (Reopening fd b) p (Closing fd []) ?p'"
      using sh t by (auto simp: good_turn_defs)
    ultimately show ?thesis by blast
  next
    case False
    then obtain fd' where fd': "lowest_fd (fds p) = Some fd'" and op: "reopen_succeeds env" by auto
    let ?p1 = "p\<lparr>fds := (fds p)(fd' \<mapsto> Dev f)\<rparr>"
    let ?p' = "?p1\<lparr>ioctl_just_performed := False\<rparr>"
    have fc: "fds p fd' = None" "fd' \<noteq> c" using lowest_fd_free [OF fd'] t by auto
    have "sys_open ops (reopen_succeeds env) p = (int fd', ?p1)"
      using fd' op f(1) by (cases p) (simp add: sys_open_def)
    then have "thread_turn ops env args (int c) (Reopening fd b) p = Some (Done (Sending fd (int fd') b, ?p'))"
      using t by (auto simp: thread_turn_def reopen_turn_def)
    moreover have "good_turn args c (Reopening fd b) p (Sending fd (int fd') b) ?p'"
      using sh t fc fd' f(2) assms(3)
      by (auto simp: good_turn_defs)
    ultimately show ?thesis by blast
  qed
qed

lemma sending_turn:
  assumes "shared_ok inv fok p" "thread_ok p args c (Sending old fd b)" "rw_held p"
  shows "\<exists>ph' p'. thread_turn ops env args (int c) (Sending old fd b) p = Some (Done (ph', p')) \<and>
    good_turn args c (Sending old fd b) p ph' p'"
proof -
  note t = assms(2) [unfolded thread_ok_def, simplified] and sh = assms(1) [unfolded shared_ok_def]
  obtain blk where blk: "uheap p b = Some blk" "length blk = 1024" using t by auto
  have ifd: "int (nat fd) = fd" and nsock: "fds p (nat fd) \<noteq> Some Sock" using t by auto
  define h0 where "h0 = (uheap p)(b := None)"
  have up: "uheap p = h0(b \<mapsto> blk)" using blk(1) by (auto simp: h0_def)
  have "\<exists>r out p1 blk' v. reply_loop ops (read_signals env) (send_results env) 0 p (int c) fd b [] =
      Some (r, out, p1) \<and> uheap p1 = h0(b \<mapsto> blk') \<and> devst p1 = devst p \<and> fds p1 = (fds p)(nat fd := v) \<and>
      v \<noteq> Some Sock \<and> (\<forall>f. v = Some (Dev f) \<longrightarrow> fok f)"
  proof (cases "fds p (nat fd)")
    case None
    then have "fds p = (fds p)(nat fd := None)" by (simp add: fun_upd_idem)
    then show ?thesis
      using reply_loop_closed [OF None, of b blk "read_signals env" "send_results env" 0 "int c" "[]"] blk(1) up
      unfolding ifd by (intro exI [of _ 0] exI [of _ "[]"] exI [of _ p] exI [of _ blk] exI [of _ None]) simp
  next
    case (Some x)
    then obtain f where f: "fds p (nat fd) = Some (Dev f)" using nsock by (cases x) auto
    obtain r f' blk' where "reply_loop ops (read_signals env) (send_results env) 0 p (int c) fd b [] =
        Some (r, client_gets (read_signals env) (send_results env) 0 (drop (fpos f) (device_bytes (devst p))),
          reading p h0 b blk' (nat fd) f')" "fok f'"
      using reply_loop_run [OF _ f _ _ up blk(2), of "int c" "read_signals env" "send_results env" 0 "[]"]
        sh f t unfolding ifd by auto
    then show ?thesis by (auto intro!: exI [of _ "Some (Dev f')"])
  qed
  then obtain r out p1 blk' v where run:
    "reply_loop ops (read_signals env) (send_results env) 0 p (int c) fd b [] = Some (r, out, p1)"
    "uheap p1 = h0(b \<mapsto> blk')" "devst p1 = devst p" "fds p1 = (fds p)(nat fd := v)" "v \<noteq> Some Sock"
    "\<forall>f. v = Some (Dev f) \<longrightarrow> fok f" by blast
  let ?p' = "p1\<lparr>uheap := h0, rw_held := False\<rparr>"
  have "free (uheap p1) b = Some h0" using t unfolding run(2) by (simp add: h0_def)
  then have "thread_turn ops env args (int c) (Sending old fd b) p = Some (Done (Closing old out, ?p'))"
    using run(1) by (simp add: thread_turn_def)
  moreover have "good_turn args c (Sending old fd b) p (Closing old out) ?p'"
    using sh t run(3-6) nsock
    by (auto simp: good_turn_defs h0_def
        split: if_splits)
  ultimately show ?thesis by blast
qed

lemma closing_turn:
  assumes "shared_ok inv fok p" "thread_ok p args c (Closing fd out)"
  shows "\<exists>p'. thread_turn ops env args (int c) (Closing fd out) p = Some (Done (Ended out, p')) \<and>
    good_turn args c (Closing fd out) p (Ended out) p'"
proof -
  note t = assms(2) [unfolded thread_ok_def, simplified] and sh = assms(1) [unfolded shared_ok_def]
  let ?p1 = "sys_close (int c) (sys_close fd p)"
  let ?p' = "?p1\<lparr>uheap := (uheap p)(args := None)\<rparr>"
  have p1: "uheap ?p1 = uheap p" "devst ?p1 = devst p" "rw_held ?p1 = rw_held p"
    "fds ?p1 = (fds p)(nat fd := None, c := None)"
    using t by (auto simp: sys_close_def fd_entry_int fun_upd_idem)
  have "thread_turn ops env args (int c) (Closing fd out) p = Some (Done (Ended out, ?p'))"
    using t p1(1) by (auto simp: thread_turn_def free_def)
  moreover have "good_turn args c (Closing fd out) p (Ended out) ?p'"
    using sh t p1(2-4)
    by (auto simp: good_turn_defs
        split: if_splits)
  ultimately show ?thesis by blast
qed

text \<open>A turn is always defined; it waits only for its client or for the mutex.\<close>

lemma turn_run:
  assumes "shared_ok inv fok p" "thread_ok p args c ph" "turn_env env_ok env ph p" "in_reply ph \<longrightarrow> rw_held p"
  shows "thread_turn ops env args (int c) ph p = Some Blocked \<and> waits_for env p ph \<or>
    (\<exists>ph' p'. thread_turn ops env args (int c) ph p = Some (Done (ph', p')) \<and> good_turn args c ph p ph' p')"
proof (cases ph)
  case (Storing fd b n)
  show ?thesis
  proof (cases "rw_held p")
    case True
    then show ?thesis by (simp add: Storing thread_turn_def store_request_def waits_for_def)
  next
    case False
    then show ?thesis using storing_turn assms unfolding Storing by blast
  qed
next
  case (Ended out)
  then show ?thesis
    using assms(1) by (auto simp: thread_turn_def turn_good_def thread_ok_def turn_frame_def turn_exact_def stored_line_def blocks_def)
qed (use assms opening_turn [of p args c env] receiving_turn [of p args c _ env]
    replying_turn [of p args c _ env] reopening_turn [of p args c _ _ env] sending_turn [of p args c _ _ _ env]
    closing_turn [of p args c _ _ env] in \<open>fastforce simp: waits_for_def\<close>)+

end

end
