(* ===== verification/Socket_Pool.thy ===== *)
theory Socket_Pool
  imports Socket_Interleaving
begin

text \<open>
  The threads of the server as a pool: each step is a turn of one of them, so a run is any
  interleaving.  The properties: no interleaving has undefined behaviour or a deadlock on the
  mutex, the lines of the clients are stored whole and in the order of the critical sections, and
  two races the code does have.
\<close>

section \<open>Runs\<close>

text \<open>The argument block, the client and the phase of each thread.\<close>

record ('d, 'f) pool =
  shared :: "('d, 'f) proc"
  workers :: "nat \<rightharpoonup> addr \<times> nat \<times> phase"

inductive pool_step ::
  "('d, 'f, 'e) dev_ops \<Rightarrow> ('e \<Rightarrow> 'd \<Rightarrow> byte list \<Rightarrow> bool) \<Rightarrow>
   ('d, 'f) pool \<Rightarrow> byte list list \<Rightarrow> ('d, 'f) pool \<Rightarrow> bool"
  for ops eok where
  Turn: "workers s t = Some (args, c, ph) \<Longrightarrow> live ph \<Longrightarrow> turn_env eok env ph (shared s) \<Longrightarrow>
    thread_turn ops env args (int c) ph (shared s) = Some (Done (ph', p')) \<Longrightarrow>
    pool_step ops eok s (stored_line (uheap (shared s)) ph ph')
      (s\<lparr>shared := p', workers := (workers s)(t \<mapsto> (args, c, ph'))\<rparr>)"

inductive pool_run ::
  "('d, 'f, 'e) dev_ops \<Rightarrow> ('e \<Rightarrow> 'd \<Rightarrow> byte list \<Rightarrow> bool) \<Rightarrow>
   ('d, 'f) pool \<Rightarrow> byte list list \<Rightarrow> ('d, 'f) pool \<Rightarrow> bool"
  for ops eok s0 where
  Run_none: "pool_run ops eok s0 [] s0"
| Run_turn: "pool_run ops eok s0 ws s \<Longrightarrow> pool_step ops eok s w s' \<Longrightarrow> pool_run ops eok s0 (ws @ w) s'"

text \<open>Threads just created: each has its argument block and its client, and the mutex is free.\<close>

definition pool_start :: "('d \<Rightarrow> bool) \<Rightarrow> ('f \<Rightarrow> bool) \<Rightarrow> ('d, 'f) pool \<Rightarrow> bool" where
  "pool_start dok fok s \<longleftrightarrow> proc_ok dok fok (shared s) \<and>
     (\<forall>t args c ph. workers s t = Some (args, c, ph) \<longrightarrow>
        ph = Opening \<and> args \<noteq> 0 \<and> uheap (shared s) args \<noteq> None \<and> fds (shared s) c = Some Sock) \<and>
     (\<forall>t1 a1 c1 ph1 t2 a2 c2 ph2. workers s t1 = Some (a1, c1, ph1) \<longrightarrow> workers s t2 = Some (a2, c2, ph2) \<longrightarrow>
        a1 = a2 \<or> c1 = c2 \<longrightarrow> t1 = t2)"

section \<open>Invariant\<close>

definition apart :: "addr \<times> nat \<times> phase \<Rightarrow> addr \<times> nat \<times> phase \<Rightarrow> bool" where
  "apart w1 w2 = (case (w1, w2) of ((a1, c1, ph1), (a2, c2, ph2)) \<Rightarrow>
     live ph1 \<and> live ph2 \<longrightarrow>
       c1 \<noteq> c2 \<and> blocks a1 ph1 \<inter> blocks a2 ph2 = {} \<and> \<not> (in_reply ph1 \<and> in_reply ph2))"

definition pool_inv :: "('d \<Rightarrow> bool) \<Rightarrow> ('f \<Rightarrow> bool) \<Rightarrow> ('d, 'f) pool \<Rightarrow> bool" where
  "pool_inv dok fok s \<longleftrightarrow> shared_ok dok fok (shared s) \<and>
     (\<forall>t args c ph. workers s t = Some (args, c, ph) \<longrightarrow> thread_ok (shared s) args c ph) \<and>
     (\<forall>t1 w1 t2 w2. workers s t1 = Some w1 \<longrightarrow> workers s t2 = Some w2 \<longrightarrow> t1 \<noteq> t2 \<longrightarrow> apart w1 w2) \<and>
     (rw_held (shared s) \<longleftrightarrow> (\<exists>t args c ph. workers s t = Some (args, c, ph) \<and> in_reply ph))"

lemma pool_invD:
  assumes "pool_inv dok fok s"
  shows "shared_ok dok fok (shared s)"
    "workers s t = Some (args, c, ph) \<Longrightarrow> thread_ok (shared s) args c ph"
    "workers s t1 = Some w1 \<Longrightarrow> workers s t2 = Some w2 \<Longrightarrow> t1 \<noteq> t2 \<Longrightarrow> apart w1 w2"
    "workers s t = Some (args, c, ph) \<Longrightarrow> in_reply ph \<Longrightarrow> rw_held (shared s)"
    "rw_held (shared s) \<Longrightarrow> \<exists>t args c ph. workers s t = Some (args, c, ph) \<and> in_reply ph"
  using assms unfolding pool_inv_def by blast+

lemma pool_invI:
  assumes "shared_ok dok fok (shared s)"
    and "\<And>t args c ph. workers s t = Some (args, c, ph) \<Longrightarrow> thread_ok (shared s) args c ph"
    and "\<And>t1 w1 t2 w2. workers s t1 = Some w1 \<Longrightarrow> workers s t2 = Some w2 \<Longrightarrow> t1 \<noteq> t2 \<Longrightarrow> apart w1 w2"
    and "rw_held (shared s) \<longleftrightarrow> (\<exists>t args c ph. workers s t = Some (args, c, ph) \<and> in_reply ph)"
  shows "pool_inv dok fok s"
  using assms unfolding pool_inv_def by blast

lemma pool_startD:
  assumes "pool_start dok fok s"
  shows "proc_ok dok fok (shared s)"
    "workers s t = Some (args, c, ph) \<Longrightarrow>
       ph = Opening \<and> args \<noteq> 0 \<and> uheap (shared s) args \<noteq> None \<and> fds (shared s) c = Some Sock"
    "workers s t1 = Some (a1, c1, ph1) \<Longrightarrow> workers s t2 = Some (a2, c2, ph2) \<Longrightarrow> a1 = a2 \<or> c1 = c2 \<Longrightarrow> t1 = t2"
  using assms unfolding pool_start_def by blast+

lemma pool_inv_start:
  assumes "pool_start dok fok s"
  shows "pool_inv dok fok s"
proof -
  note st = pool_startD [OF assms]
  have ok: "thread_ok (shared s) args c ph" "ph = Opening" if "workers s t = Some (args, c, ph)" for t args c ph
    using st(2) [OF that] by (auto simp: thread_ok_def)
  have "apart w1 w2" if "workers s t1 = Some w1" "workers s t2 = Some w2" "t1 \<noteq> t2" for t1 t2 w1 w2
  proof -
    obtain a1 c1 ph1 a2 c2 ph2 where w: "w1 = (a1, c1, ph1)" "w2 = (a2, c2, ph2)" by (cases w1; cases w2) auto
    then have "ph1 = Opening" "ph2 = Opening" using ok(2) that by blast+
    then show ?thesis using st(3) [of t1 a1 c1 ph1 t2 a2 c2 ph2] that w by (auto simp: apart_def blocks_def)
  qed
  moreover have "\<not> rw_held (shared s)" "shared_ok dok fok (shared s)"
    using st(1) by (auto simp: proc_ok_def shared_ok_def)
  moreover have "\<not> in_reply ph" if "workers s t = Some (args, c, ph)" for t args c ph
    using ok(2) [OF that] by simp
  ultimately show ?thesis using ok(1) unfolding pool_inv_def by blast
qed

lemma phase_ok_same:
  "phase_ok h ph \<Longrightarrow> (\<And>b. b \<in> phase_block ph \<Longrightarrow> h' b = h b) \<Longrightarrow> phase_ok h' ph"
  by (cases ph; simp; unfold request_in_def; fastforce)

lemma thread_ok_blocks: "thread_ok p args c ph \<Longrightarrow> a \<in> blocks args ph \<Longrightarrow> uheap p a \<noteq> None"
  by (cases ph) (auto simp: thread_ok_def blocks_def request_in_def split: if_splits)

text \<open>A turn of one thread keeps what the others own.\<close>

lemma turn_frameD:
  assumes "turn_frame args c ph p ph' p'"
  shows "a \<notin> blocks args ph \<Longrightarrow> a \<notin> blocks args ph' \<Longrightarrow> uheap p' a = uheap p a"
    "a \<in> blocks args ph' \<Longrightarrow> a \<in> blocks args ph \<or> uheap p a = None"
    "fd \<noteq> c \<Longrightarrow> (fds p' fd = Some Sock) = (fds p fd = Some Sock)"
    "in_reply ph' \<Longrightarrow> rw_held p' \<and> (in_reply ph \<or> \<not> rw_held p)"
    "\<not> in_reply ph' \<Longrightarrow> rw_held p' = (rw_held p \<and> \<not> in_reply ph)"
    "live ph' \<Longrightarrow> live ph"
  using assms by (auto simp: turn_frame_def)

lemma apartD:
  assumes "apart (args, c, ph) (args', c', ph2)" "live ph" "live ph2"
  shows "c \<noteq> c'" "a \<in> blocks args ph \<Longrightarrow> a \<notin> blocks args' ph2" "in_reply ph \<Longrightarrow> \<not> in_reply ph2"
  using assms by (auto simp: apart_def)

lemma thread_ok_frame:
  assumes fr: "turn_frame args c ph p ph' p'" and ok2: "thread_ok p args' c' ph2" and ok: "thread_ok p args c ph"
    and ap: "apart (args, c, ph) (args', c', ph2)" and lv: "live ph"
  shows "thread_ok p' args' c' ph2"
proof (cases "live ph2")
  case True
  note a = apartD [OF ap lv True] and f = turn_frameD [OF fr]
  have own: "blocks args' ph2 = insert args' (phase_block ph2)" using True by (simp add: blocks_def)
  have same: "uheap p' a = uheap p a" if "a \<in> blocks args' ph2" for a
    using f(1,2) [of a] a(2) [of a] that thread_ok_blocks [OF ok2 that] by blast
  have "phase_ok (uheap p') ph2"
    using phase_ok_same [of "uheap p" ph2 "uheap p'"] ok2 same own True by (auto simp: thread_ok_def)
  moreover have "fds p' fd \<noteq> Some Sock" if "int fd \<in> phase_fds ph2" for fd
  proof (cases "fd = c")
    case False
    then show ?thesis using f(3) [of fd] ok2 True that by (auto simp: thread_ok_def)
  qed (use ok ok2 True lv that in \<open>auto simp: thread_ok_def\<close>)
  ultimately show ?thesis
    using ok2 a(1) f(3) [of c'] same [of args'] own True by (force simp: thread_ok_def)
qed (simp add: thread_ok_def)

lemma apart_frame:
  assumes fr: "turn_frame args c ph p ph' p'" and ok2: "thread_ok p args' c' ph2"
    and ap: "apart (args, c, ph) (args', c', ph2)" and held: "in_reply ph2 \<longrightarrow> rw_held p"
  shows "apart (args, c, ph') (args', c', ph2)"
  unfolding apart_def
proof (clarsimp simp: disjoint_iff, intro conjI allI impI)
  assume lv: "live ph'" "live ph2"
  note f = turn_frameD [OF fr] and a = apartD [OF ap turn_frameD(6) [OF fr lv(1)] lv(2)]
  show "c \<noteq> c'" by (rule a(1))
  show "b \<notin> blocks args' ph2" if "b \<in> blocks args ph'" for b
    using f(2) [OF that] a(2) [of b] thread_ok_blocks [OF ok2, of b] by blast
  show "\<not> in_reply ph2" if "in_reply ph'" using f(4) [OF that] a(3) held by blast
qed

text \<open>The invariant is kept by a good turn.\<close>

lemma apart_sym: "apart w1 w2 \<Longrightarrow> apart w2 w1"
  by (cases w1; cases w2) (auto simp: apart_def)

text \<open>The mutex is held after a turn exactly when the thread or another one is in its reply.\<close>

lemma reply_mutex:
  assumes inv: "pool_inv dok fok s" and w: "workers s t = Some (args, c, ph)" and lv: "live ph"
    and fr: "turn_frame args c ph (shared s) ph' p'"
  shows "rw_held p' \<longleftrightarrow> in_reply ph' \<or> (\<exists>u args' c' ph2. u \<noteq> t \<and> workers s u = Some (args', c', ph2) \<and> in_reply ph2)"
proof (cases "in_reply ph'")
  case True
  then show ?thesis using turn_frameD(4) [OF fr] by blast
next
  case False
  note d = pool_invD [OF inv]
  have "\<not> in_reply ph2" if "in_reply ph" "workers s u = Some (args', c', ph2)" "u \<noteq> t" for u args' c' ph2
    using apartD(3) [OF d(3) [OF w that(2)] lv] that by (cases ph2) auto
  then show ?thesis using turn_frameD(5) [OF fr False] False d(4,5) w by (metis Pair_inject option.inject)
qed

lemma pool_inv_turn:
  assumes inv: "pool_inv dok fok s" and w: "workers s t = Some (args, c, ph)" and lv: "live ph"
    and good: "turn_good dok fok cont args c ph (shared s) ph' p'"
  shows "pool_inv dok fok (s\<lparr>shared := p', workers := (workers s)(t \<mapsto> (args, c, ph'))\<rparr>)"
proof -
  note d = pool_invD [OF inv]
  have fr: "turn_frame args c ph (shared s) ph' p'" and ok': "thread_ok p' args c ph'" and sh: "shared_ok dok fok p'"
    using good by (simp_all add: turn_good_def)
  have ap: "apart (args, c, ph) w'" if "workers s u = Some w'" "u \<noteq> t" for u w'
    using d(3) [OF w that(1)] that(2) by blast
  have ok2: "thread_ok p' args' c' ph2" if "workers s u = Some (args', c', ph2)" "u \<noteq> t" for u args' c' ph2
    by (rule thread_ok_frame [OF fr d(2) [OF that(1)] d(2) [OF w] ap [OF that] lv])
  have ap2: "apart (args, c, ph') w'" if "workers s u = Some w'" "u \<noteq> t" for u w'
    using apart_frame [OF fr d(2) ap] d(4) that by (cases w') blast
  let ?s = "s\<lparr>shared := p', workers := (workers s)(t \<mapsto> (args, c, ph'))\<rparr>"
  have sel: "shared ?s = p'" "workers ?s = (workers s)(t \<mapsto> (args, c, ph'))" by simp_all
  show ?thesis
  proof (rule pool_invI; unfold sel)
    show "thread_ok p' args' c' ph2" if "((workers s)(t \<mapsto> (args, c, ph'))) u = Some (args', c', ph2)" for u args' c' ph2
      using that ok' ok2 [of u] by (auto split: if_splits)
    show "apart w1 w2" if "((workers s)(t \<mapsto> (args, c, ph'))) t1 = Some w1" "((workers s)(t \<mapsto> (args, c, ph'))) t2 = Some w2"
      "t1 \<noteq> t2" for t1 w1 t2 w2
      using that d(3) ap2 apart_sym by (auto split: if_splits)
    show "rw_held p' \<longleftrightarrow>
        (\<exists>u args' c' ph2. ((workers s)(t \<mapsto> (args, c, ph'))) u = Some (args', c', ph2) \<and> in_reply ph2)"
      using reply_mutex [OF inv w lv fr] by auto
  qed (rule sh)
qed

text \<open>Lines stored whole, for the specification of a write.\<close>

lemma spec_whole_lines:
  assumes "\<forall>w \<in> set ws. newline \<in> set w" "length cs \<le> MAX_OPS"
  shows "fold spec_write ws (cs, []) = (drop (length (cs @ ws) - MAX_OPS) (cs @ ws), [])"
  using assms(1)
proof (induction ws rule: rev_induct)
  case (snoc w ws)
  then show ?case
    using push_drop [of MAX_OPS "cs @ ws" w] by (simp add: spec_write_newline del: drop_append)
qed (use assms(2) in simp)

text \<open>The first of them completes the unfinished command.\<close>

fun completing :: "byte list \<Rightarrow> byte list list \<Rightarrow> byte list list" where
  "completing p [] = []"
| "completing p (w # ws) = (p @ w) # ws"

lemma spec_completing:
  assumes "\<forall>w \<in> set ws. newline \<in> set w" "length cs \<le> MAX_OPS"
  shows "fold spec_write ws (cs, p) =
    (drop (length (cs @ ws) - MAX_OPS) (cs @ completing p ws), if ws = [] then p else [])"
proof (cases ws)
  case (Cons w ws')
  have "newline \<in> set w" using assms(1) Cons by simp
  then have "fold spec_write ws (cs, p) = fold spec_write ((p @ w) # ws') (cs, [])"
    by (simp add: Cons spec_write_newline)
  also have "\<dots> = (drop (length (cs @ (p @ w) # ws') - MAX_OPS) (cs @ (p @ w) # ws'), [])"
    using assms Cons by (intro spec_whole_lines) auto
  finally show ?thesis by (simp add: Cons)
qed (use assms(2) in simp)

lemma stored_line_whole:
  assumes "thread_ok p args c ph" "w \<in> set (stored_line (uheap p) ph ph')"
  shows "newline \<in> set w \<and> \<not> seek_request w"
proof -
  obtain fd b n where ph: "ph = Storing fd b n" and rd: "mem_read (uheap p) b 0 (unat n) = Some w"
    and ns: "\<not> seek_request w"
    using assms(2) by (auto simp: stored_line_def split: phase.splits option.splits if_splits)
  obtain bs rest where "uheap p b = Some (map Some bs @ Some (CHR 0x00) # rest)" "unat n = length bs"
    "newline \<in> set bs" using assms(1) unfolding ph by (auto simp: thread_ok_def request_in_def)
  moreover from this have "uheap p = (uheap p)(b \<mapsto> map Some bs @ Some (CHR 0x00) # rest)"
    by (simp add: fun_upd_idem)
  then have "mem_read (uheap p) b 0 (length bs) = Some bs" by (metis mem_read_prefix)
  ultimately show ?thesis using rd ns by simp
qed

context char_device begin

lemma pool_turn:
  assumes "pool_inv inv fok s" "workers s t = Some (args, c, ph)" "turn_env env_ok env ph (shared s)"
  shows "thread_turn ops env args (int c) ph (shared s) = Some Blocked \<and> waits_for env (shared s) ph \<or>
    (\<exists>ph' p'. thread_turn ops env args (int c) ph (shared s) = Some (Done (ph', p')) \<and>
      good_turn args c ph (shared s) ph' p')"
  using turn_run [OF pool_invD(1,2) [OF assms(1)] assms(3)] pool_invD(4) [OF assms(1,2)] assms(2) by blast

text \<open>Any interleaving keeps the invariant and stores whole lines.\<close>

lemma pool_step_inv:
  assumes "pool_step ops env_ok s w s'" "pool_inv inv fok s"
  shows "pool_inv inv fok s' \<and> (\<forall>l \<in> set w. newline \<in> set l \<and> \<not> seek_request l) \<and>
    content (devst (shared s')) = fold spec_write w (content (devst (shared s)))"
  using assms(1)
proof cases
  case (Turn t args c ph env ph' p')
  then have good: "good_turn args c ph (shared s) ph' p'" using pool_turn [OF assms(2)] by fastforce
  show ?thesis
    using pool_inv_turn [OF assms(2) Turn(3,4) good] stored_line_whole [OF pool_invD(2) [OF assms(2) Turn(3)]]
      good Turn(1,2) by (auto simp: turn_good_def)
qed

lemma pool_run_inv:
  assumes "pool_run ops env_ok s0 ws s" "pool_inv inv fok s0"
  shows "pool_inv inv fok s \<and> (\<forall>l \<in> set ws. newline \<in> set l \<and> \<not> seek_request l) \<and>
    content (devst (shared s)) = fold spec_write ws (content (devst (shared s0)))"
  using assms
proof (induction rule: pool_run.induct)
  case (Run_turn ws s w s')
  then show ?case using pool_step_inv [OF Run_turn(2)] by auto
qed simp

text \<open>A thread in its reply never waits.\<close>

lemma reply_not_blocked:
  assumes "pool_inv inv fok s" "workers s t = Some (args, c, ph)" "in_reply ph"
  shows "thread_turn ops env args (int c) ph (shared s) \<notin> {None, Some Blocked}"
proof -
  have "turn_env env_ok env ph (shared s) \<and> \<not> waits_for env (shared s) ph"
    using assms(3) by (cases ph) (simp_all add: turn_env_def waits_for_def)
  then show ?thesis using pool_turn [OF assms(1,2), of env] by auto
qed

end

section \<open>Races\<close>

text \<open>A turn in which no line is stored, as a run; runs after each other.\<close>

lemma silent_turn:
  assumes "workers s t = Some (args, c, ph)" "live ph" "turn_env eok env ph (shared s)"
    "thread_turn ops env args (int c) ph (shared s) = Some (Done (ph', p'))" "stored_line (uheap (shared s)) ph ph' = []"
  shows "pool_run ops eok s [] (s\<lparr>shared := p', workers := (workers s)(t \<mapsto> (args, c, ph'))\<rparr>)"
  using Run_turn [OF Run_none Turn [OF assms(1-4)]] assms(5) by simp

lemma pool_run_trans: "pool_run ops eok s1 ws2 s2 \<Longrightarrow> pool_run ops eok s0 ws1 s1 \<Longrightarrow> pool_run ops eok s0 (ws1 @ ws2) s2"
proof (induction rule: pool_run.induct)
  case (Run_turn ws s w s')
  then show ?case using pool_run.Run_turn [OF Run_turn(3) Run_turn(2)] by simp
qed simp

lemmas silent_runs = pool_run_trans [where ?ws1.0 = "[]" and ?ws2.0 = "[]", simplified]

lemma lowest_fd_cong: "(\<And>i. (m i = None) = (m' i = None)) \<Longrightarrow> lowest_fd m = lowest_fd m'"
  by (simp add: lowest_fd_def)

text \<open>
  Between closing its file and opening it again a thread is under the mutex, but opening the
  device at the start of a thread is not: another thread can get the number in between.
\<close>

context char_device begin

lemma crossing_opens:
  fixes env :: "'e thread_env"
  assumes inv: "pool_inv inv fok s"
    and w: "workers s t = Some (a1, c1, Reopening (int fd) b)" "workers s u = Some (a2, c2, Opening)"
    and fd: "lowest_fd (fds (shared s)) = Some fd" "lowest_fd ((fds (shared s))(fd \<mapsto> Sock)) = Some fd2"
    and env: "open_succeeds env" "reopen_succeeds env"
  shows "\<exists>s' f. pool_run ops env_ok s [] s' \<and>
    workers s' = (workers s)(u \<mapsto> (a2, c2, Receiving (int fd)), t \<mapsto> (a1, c1, Sending (int fd) (int fd2) b)) \<and>
    fds (shared s') = (fds (shared s))(fd \<mapsto> Dev f, fd2 \<mapsto> Dev f)"
proof -
  let ?p = "shared s"
  have tu: "t \<noteq> u" using w by auto
  have "uheap ?p a2 \<noteq> None" using pool_invD(2) [OF inv w(2)] by (simp add: thread_ok_def)
  obtain f where f: "dev_open ops (devst ?p) = (f, devst ?p)"
    using open_spec [of "devst ?p"] pool_invD(1) [OF inv] unfolding shared_ok_def by blast
  define p1 where "p1 = ?p\<lparr>fds := (fds ?p)(fd \<mapsto> Dev f)\<rparr>"
  define s1 where "s1 = s\<lparr>shared := p1, workers := (workers s)(u \<mapsto> (a2, c2, Receiving (int fd)))\<rparr>"
  have "sys_open ops True ?p = (int fd, p1)" using fd(1) f by (cases ?p) (simp add: sys_open_def p1_def)
  with \<open>uheap ?p a2 \<noteq> None\<close> have "thread_turn ops env a2 (int c2) Opening ?p = Some (Done (Receiving (int fd), p1))"
    using env(1) by (auto simp: thread_turn_def)
  from silent_turn [OF w(2) _ _ this] have st1: "pool_run ops env_ok s [] s1"
    by (simp add: turn_env_def s1_def stored_line_def)
  define p2 where "p2 = p1\<lparr>fds := (fds p1)(fd2 \<mapsto> Dev f), ioctl_just_performed := False\<rparr>"
  have "lowest_fd (fds p1) = lowest_fd ((fds ?p)(fd \<mapsto> Sock))"
    unfolding p1_def by (intro lowest_fd_cong) simp
  then have low: "lowest_fd (fds p1) = Some fd2" by (simp only: fd(2))
  have w1: "workers s1 t = Some (a1, c1, Reopening (int fd) b)" "shared s1 = p1" "devst p1 = devst ?p"
    using w(1) tu by (simp_all add: s1_def p1_def)
  have "thread_turn ops env a1 (int c1) (Reopening (int fd) b) p1 = Some (Done (Sending (int fd) (int fd2) b, p2))"
    using low env(2) f w1(3) by (cases p1) (simp add: thread_turn_def reopen_turn_def sys_open_def p2_def)
  from silent_turn [OF w1(1) _ _ this [folded w1(2)]]
  have "pool_run ops env_ok s1 [] (s1\<lparr>shared := p2, workers := (workers s1)(t \<mapsto> (a1, c1, Sending (int fd) (int fd2) b))\<rparr>)"
    by (simp add: turn_env_def stored_line_def)
  from silent_runs [OF this st1] show ?thesis
    by (intro exI conjI; assumption?) (simp_all add: s1_def p2_def p1_def)
qed

lemma finishing_turns:
  fixes env :: "'e thread_env"
  assumes w: "workers s t = Some (args, c, Sending (int old) (int fd) b)" and f: "fds (shared s) fd = Some (Dev f)"
    and dv: "inv (devst (shared s))" "fok f"
    and t: "args \<noteq> 0" "uheap (shared s) args \<noteq> None" "fds (shared s) c = Some Sock" "b \<noteq> 0" "args \<noteq> b"
    and blk: "uheap (shared s) b = Some blk" "length blk = 1024"
  shows "\<exists>s' out f'. pool_run ops env_ok s [] s' \<and> workers s' = (workers s)(t \<mapsto> (args, c, Ended out)) \<and>
    fds (shared s') = (fds (shared s))(fd \<mapsto> Dev f', old := None, c := None)"
proof -
  let ?p = "shared s"
  define h0 where "h0 = (uheap ?p)(b := None)"
  have up: "uheap ?p = h0(b \<mapsto> blk)" and ha: "h0 args \<noteq> None" using blk(1) t(2,5) by (auto simp: h0_def)
  obtain r out f' blk' where loop: "reply_loop ops (read_signals env) (send_results env) 0 ?p (int c) (int fd) b [] =
      Some (r, out, reading ?p h0 b blk' fd f')"
    using reply_loop_run [of ?p fd f "int c" h0 b blk "read_signals env" "send_results env" 0 "[]"] dv f t(3) up blk(2)
    by auto
  define p3 where "p3 = (reading ?p h0 b blk' fd f')\<lparr>uheap := h0, rw_held := False\<rparr>"
  define s3 where "s3 = s\<lparr>shared := p3, workers := (workers s)(t \<mapsto> (args, c, Closing (int old) out))\<rparr>"
  have "thread_turn ops env args (int c) (Sending (int old) (int fd) b) ?p = Some (Done (Closing (int old) out, p3))"
    using loop t(4) by (simp add: thread_turn_def p3_def h0_def)
  from silent_turn [OF w _ _ this] have st3: "pool_run ops env_ok s [] s3"
    by (simp add: turn_env_def s3_def stored_line_def)
  define p4 where "p4 = sys_close (int c) (sys_close (int old) p3)"
  have p3: "fds p3 = (fds ?p)(fd \<mapsto> Dev f')" "uheap p3 = h0" by (simp_all add: p3_def)
  have w3: "workers s3 t = Some (args, c, Closing (int old) out)" "shared s3 = p3" by (simp_all add: s3_def)
  have "thread_turn ops env args (int c) (Closing (int old) out) p3 =
      Some (Done (Ended out, p4\<lparr>uheap := h0(args := None)\<rparr>))"
    using ha t(1) p3(2) by (auto simp: thread_turn_def p4_def sys_close_def free_def)
  from silent_turn [OF w3(1) _ _ this [folded w3(2)]]
  have "pool_run ops env_ok s3 [] (s3\<lparr>shared := p4\<lparr>uheap := h0(args := None)\<rparr>,
      workers := (workers s3)(t \<mapsto> (args, c, Ended out))\<rparr>)"
    by (simp add: turn_env_def stored_line_def)
  from silent_runs [OF this st3] show ?thesis
  proof (intro exI conjI; assumption?)
    show "fds (shared (s3\<lparr>shared := p4\<lparr>uheap := h0(args := None)\<rparr>, workers := (workers s3)(t \<mapsto> (args, c, Ended out))\<rparr>)) =
        (fds ?p)(fd \<mapsto> Dev f', old := None, c := None)"
      using p3(1) by (auto simp: p4_def sys_close_def fun_upd_idem)
  qed (simp add: s3_def)
qed

lemma finishing:
  fixes env :: "'e thread_env"
  assumes inv: "pool_inv inv fok s" and w: "workers s t = Some (args, c, Sending (int old) (int fd) b)"
    and f: "fds (shared s) fd = Some (Dev f)"
  shows "\<exists>s' out f'. pool_run ops env_ok s [] s' \<and> workers s' = (workers s)(t \<mapsto> (args, c, Ended out)) \<and>
    fds (shared s') = (fds (shared s))(fd \<mapsto> Dev f', old := None, c := None)"
proof -
  have "inv (devst (shared s))" "fok f" using pool_invD(1) [OF inv] f by (auto simp: shared_ok_def)
  then show ?thesis
    using finishing_turns [OF w f] pool_invD(2) [OF inv w] by (auto simp: thread_ok_def)
qed

lemma reopen_race:
  fixes env :: "'e thread_env"
  assumes inv: "pool_inv inv fok s"
    and w: "workers s t = Some (a1, c1, Reopening (int fd) b)" "workers s u = Some (a2, c2, Opening)"
    and fd: "lowest_fd (fds (shared s)) = Some fd" "lowest_fd ((fds (shared s))(fd \<mapsto> Sock)) = Some fd2"
    and env: "open_succeeds env" "reopen_succeeds env"
  shows "\<exists>s' out f. pool_run ops env_ok s [] s' \<and> workers s' t = Some (a1, c1, Ended out) \<and>
    workers s' u = Some (a2, c2, Receiving (int fd)) \<and> fds (shared s') fd = None \<and>
    fds (shared s') fd2 = Some (Dev f)"
proof -
  obtain s2 f where s2: "pool_run ops env_ok s [] s2"
    "workers s2 = (workers s)(u \<mapsto> (a2, c2, Receiving (int fd)), t \<mapsto> (a1, c1, Sending (int fd) (int fd2) b))"
    "fds (shared s2) = (fds (shared s))(fd \<mapsto> Dev f, fd2 \<mapsto> Dev f)"
    using crossing_opens [OF assms] by blast
  have inv2: "pool_inv inv fok s2" using pool_run_inv [OF s2(1) inv] by blast
  have tu: "t \<noteq> u" using w by auto
  have fdn: "fd \<noteq> fd2" "c1 \<noteq> fd2"
    using lowest_fd_free [OF fd(2)] pool_invD(2) [OF inv w(1)] by (auto simp: thread_ok_def split: if_splits)
  obtain s' out f' where "pool_run ops env_ok s2 [] s'" "workers s' = (workers s2)(t \<mapsto> (a1, c1, Ended out))"
    "fds (shared s') = (fds (shared s2))(fd2 \<mapsto> Dev f', fd := None, c1 := None)"
    using finishing [OF inv2, of t a1 c1 fd fd2 b f] s2(2,3) by auto
  with silent_runs [OF this(1) s2(1)] s2(2) tu fdn show ?thesis by auto
qed

text \<open>
  The flag that tells a reply not to start over is shared by all threads: a line stored between a
  seek and its reply resets it.
\<close>

lemma storing_line:
  assumes "shared_ok inv fok p" "thread_ok p args c (Storing fd b n)" "turn_env env_ok env (Storing fd b n) p"
    and "\<not> rw_held p" "request_in (uheap p) b n bs" "\<not> seek_request bs" "fds p (nat fd) = Some (Dev f)"
    and "env_good (write_envs env bs)"
  shows "\<exists>p' f'. thread_turn ops env args (int c) (Storing fd b n) p = Some (Done (Replying fd, p')) \<and>
    stored_line (uheap p) (Storing fd b n) (Replying fd) = [bs] \<and> \<not> ioctl_just_performed p' \<and> \<not> rw_held p' \<and>
    uheap p' = (uheap p)(b := None) \<and> fds p' = (fds p)(nat fd \<mapsto> Dev f')"
proof -
  obtain rest where bs: "uheap p b = Some (map Some bs @ Some (CHR 0x00) # rest)" "unat n = length bs"
    "newline \<in> set bs" "length bs \<le> max_rw_count" using assms(5) by (auto simp: request_in_def)
  have t: "b \<noteq> 0" "0 \<le> fd" using assms(2) by (auto simp: thread_ok_def)
  let ?h0 = "(uheap p)(b := None)"
  have up: "uheap p = ?h0(b \<mapsto> map Some bs @ Some (CHR 0x00) # rest)" using bs(1) by auto
  have "bs \<noteq> []" using bs(3) by auto
  then obtain r p' f' where st: "store_request ops (write_envs env) p fd b n = Some (Done (r, p'))"
    "uheap p' = ?h0" "\<not> rw_held p'" "fds p' = (fds p)(nat fd \<mapsto> Dev f')"
    "handled (write_envs env) bs (devst p) (ioctl_just_performed p) f' (devst p') (ioctl_just_performed p') r"
    using store_request_run [of p "nat fd" f "write_envs env" bs ?h0 b rest n] assms(1,3,4,7) t bs(2)
      up by (auto simp: turn_env_def shared_ok_def)
  have "0 < r" "\<not> ioctl_just_performed p'"
    using st(5) assms(6,8) bs(4) by (auto simp: handled_def write_done_def split: if_splits)
  moreover have "mem_read (uheap p) b 0 (unat n) = Some bs" unfolding bs(2) by (subst up) (rule mem_read_prefix)
  ultimately show ?thesis
    using st assms(6) by (auto simp: thread_turn_def stored_line_def)
qed

lemma flag_race:
  fixes env :: "'e thread_env"
  assumes inv: "pool_inv inv fok s"
    and w: "workers s t = Some (a1, c1, Replying fd)" "workers s u = Some (a2, c2, Storing fd2 b n)"
    and req: "request_in (uheap (shared s)) b n bs" "\<not> seek_request bs" "fds (shared s) (nat fd2) = Some (Dev f)"
    and free: "\<not> rw_held (shared s)"
    and env: "env_good (write_envs env bs)" "turn_env env_ok env (Storing fd2 b n) (shared s)"
      "malloc_addr env \<noteq> 0" "malloc_contract (uheap (shared s)) (malloc_addr env) CLIENT_BUFFER_LEN"
  shows "\<exists>s'. pool_run ops env_ok s [bs] s' \<and> workers s' t = Some (a1, c1, Reopening fd (malloc_addr env)) \<and>
    fds (shared s') (nat fd) = None"
proof -
  let ?p = "shared s"
  have tu: "t \<noteq> u" using w by auto
  obtain p1 f' where p1: "thread_turn ops env a2 (int c2) (Storing fd2 b n) ?p = Some (Done (Replying fd2, p1))"
    "stored_line (uheap ?p) (Storing fd2 b n) (Replying fd2) = [bs]" "\<not> ioctl_just_performed p1" "\<not> rw_held p1"
    "uheap p1 = (uheap ?p)(b := None)" "fds p1 = (fds ?p)(nat fd2 \<mapsto> Dev f')"
    using storing_line [OF pool_invD(1) [OF inv] pool_invD(2) [OF inv w(2)] env(2) free req env(1)] by blast
  define s1 where "s1 = s\<lparr>shared := p1, workers := (workers s)(u \<mapsto> (a2, c2, Replying fd2))\<rparr>"
  have run1: "pool_run ops env_ok s [bs] s1"
    using Run_turn [OF Run_none Turn [OF w(2) _ env(2) p1(1)]] p1(2) by (simp add: s1_def)
  define p2 where "p2 = sys_close fd (p1\<lparr>uheap := (uheap p1)(malloc_addr env \<mapsto> replicate 1024 None), rw_held := True\<rparr>)"
  have w1: "workers s1 t = Some (a1, c1, Replying fd)" "shared s1 = p1" using w(1) tu by (simp_all add: s1_def)
  have "thread_turn ops env a1 (int c1) (Replying fd) p1 = Some (Done (Reopening fd (malloc_addr env), p2))"
    using env(3) p1(3,4) by (simp add: thread_turn_def reply_turn_def malloc_def p2_def Let_def)
  moreover have "turn_env env_ok env (Replying fd) p1"
    using env(4) p1(5) by (auto simp: turn_env_def malloc_contract_def)
  ultimately have "pool_run ops env_ok s1 [] (s1\<lparr>shared := p2, workers := (workers s1)(t \<mapsto> (a1, c1, Reopening fd (malloc_addr env)))\<rparr>)"
    using silent_turn [OF w1(1), unfolded w1(2)] by (simp add: stored_line_def)
  from pool_run_trans [OF this run1] obtain s2 where
    s2: "pool_run ops env_ok s [bs] s2" "s2 = s1\<lparr>shared := p2, workers := (workers s1)(t \<mapsto> (a1, c1, Reopening fd (malloc_addr env)))\<rparr>"
    by simp
  have "0 \<le> fd" using pool_invD(2) [OF inv w(1)] by (simp add: thread_ok_def)
  then have "fds p2 (nat fd) = None" by (simp add: p2_def sys_close_def fd_entry_int)
  with s2 show ?thesis by (intro exI [of _ s2]) simp
qed

end

section \<open>Two threads\<close>

text \<open>Thread 7 serves client 4 and thread 8 client 3, on the device of \<open>demo_proc\<close>, in given phases.\<close>

definition pair_pool :: "(nat \<rightharpoonup> file_t fdesc) \<Rightarrow> heap \<Rightarrow> bool \<Rightarrow> bool \<Rightarrow> phase \<Rightarrow> phase \<Rightarrow> (kst, file_t) pool" where
  "pair_pool opened h held flag ph7 ph8 =
     \<lparr>shared = demo_proc\<lparr>fds := fds demo_proc ++ opened, uheap := [50 \<mapsto> [], 51 \<mapsto> []] ++ h,
        rw_held := held, ioctl_just_performed := flag\<rparr>,
      workers = [7 \<mapsto> (50, 4, ph7), 8 \<mapsto> (51, 3, ph8)]\<rparr>"

lemma pair_pool_sel [simp]:
  "devst (shared (pair_pool opened h held flag ph7 ph8)) = demo_st"
  "fds (shared (pair_pool opened h held flag ph7 ph8)) = fds demo_proc ++ opened"
  "uheap (shared (pair_pool opened h held flag ph7 ph8)) = [50 \<mapsto> [], 51 \<mapsto> []] ++ h"
  "rw_held (shared (pair_pool opened h held flag ph7 ph8)) = held"
  "ioctl_just_performed (shared (pair_pool opened h held flag ph7 ph8)) = flag"
  "workers (pair_pool opened h held flag ph7 ph8) = [7 \<mapsto> (50, 4, ph7), 8 \<mapsto> (51, 3, ph8)]"
  by (simp_all add: pair_pool_def)

lemma demo_fds: "fds demo_proc = [0 \<mapsto> Sock, 1 \<mapsto> Sock, 2 \<mapsto> Sock, 3 \<mapsto> Sock, 4 \<mapsto> Sock]"
  by (simp add: demo_proc_def)

lemma pair_start: "pool_start dev_inv file_ok (pair_pool Map.empty Map.empty False False Opening Opening)"
  by (auto simp: pool_start_def proc_ok_def demo_fds split: if_splits)

text \<open>The first turns of thread 7: it opens the device, receives a line and stores it.\<close>

abbreviation demo_open_file :: file_t where
  "demo_open_file \<equiv> \<lparr>f_pos = 0, private_data = AesdDevice\<rparr>"

definition line_block :: block where
  "line_block = [Some (CHR ''z''), Some newline, Some (CHR 0x00)] @ replicate 1021 (Some (CHR 0x00))"

lemma pair_opening:
  "thread_turn aesd_ops (demo_env bs) 50 (int 4) Opening (shared (pair_pool Map.empty Map.empty False False Opening Opening)) =
     Some (Done (Receiving 5, shared (pair_pool [5 \<mapsto> Dev demo_open_file] Map.empty False False ph7 ph8)))"
  by (simp add: thread_turn_def sys_open_def aesd_ops_def aesd_open_def pair_pool_def demo_env_def)

lemma pair_receiving:
  "thread_turn aesd_ops (demo_env [CHR ''z'', newline]) 50 (int 4) (Receiving 5)
     (shared (pair_pool [5 \<mapsto> Dev demo_open_file] Map.empty False False ph7 ph8)) =
     Some (Done (Storing 5 60 2, shared (pair_pool [5 \<mapsto> Dev demo_open_file] [60 \<mapsto> line_block] False False ph7 ph8)))"
proof -
  have "unat (CLIENT_BUFFER_LEN - 1) = 1023" by (simp add: CLIENT_BUFFER_LEN_def)
  then show ?thesis
    by (simp add: thread_turn_def receive_turn_def calloc_def fd_entry_def demo_fds recv_loop.simps
        mem_write_def mem_read_def Let_def pair_pool_def line_block_def)
qed

lemma pair_move:
  "(pair_pool opened h held flag ph7 ph8)\<lparr>shared := shared (pair_pool opened' h' held' flag' x y),
     workers := [8 \<mapsto> (51, 3, ph8), 7 \<mapsto> (50, 4, ph7')]\<rparr> = pair_pool opened' h' held' flag' ph7' ph8"
  by (simp add: pair_pool_def fun_upd_twist)

lemma line_request: "request_in [50 \<mapsto> [], 51 \<mapsto> [], 60 \<mapsto> line_block] 60 2 [CHR ''z'', newline]"
  by (simp add: request_in_def line_block_def max_rw_count_def)

text \<open>A pool in which thread 7 has received its line, and the other is in some phase.\<close>

lemma pair_storing_ok:
  assumes "ph8 \<in> {Opening, Replying 6}"
  shows "pool_inv dev_inv file_ok
    (pair_pool [5 \<mapsto> Dev demo_open_file, 6 \<mapsto> Dev demo_open_file] [60 \<mapsto> line_block] False flag (Storing 5 60 2) ph8)"
  using assms line_request
  by (auto simp: pool_inv_def shared_ok_def thread_ok_def apart_def blocks_def demo_fds file_ok_def
      split: if_splits)

lemma pair_stores:
  "\<exists>s. pool_run aesd_ops aesd_env_ok (pair_pool Map.empty Map.empty False False Opening Opening) [[CHR ''z'', newline]] s \<and>
     workers s 7 = Some (50, 4, Replying 5) \<and> workers s 8 = Some (51, 3, Opening)"
proof -
  let ?f = "[5 \<mapsto> Dev demo_open_file]" and ?bs = "[CHR ''z'', newline]"
  let ?s1 = "pair_pool ?f Map.empty False False (Receiving 5) Opening"
  let ?s2 = "pair_pool ?f [60 \<mapsto> line_block] False False (Storing 5 60 2) Opening"
  have r1: "pool_run aesd_ops aesd_env_ok (pair_pool Map.empty Map.empty False False Opening Opening) [] ?s1"
    using silent_turn [OF _ _ _ pair_opening, where t = 7 and eok = aesd_env_ok] by (simp add: turn_env_def stored_line_def pair_move)
  have "turn_env aesd_env_ok (demo_env ?bs) (Receiving 5) (shared ?s1)"
    by (auto simp: turn_env_def malloc_contract_def realloc_contract_def demo_env_def max_rw_count_def)
  then have r2: "pool_run aesd_ops aesd_env_ok ?s1 [] ?s2"
    using silent_turn [OF _ _ _ pair_receiving, where t = 7 and eok = aesd_env_ok] by (simp add: stored_line_def pair_move)
  have inv: "pool_inv dev_inv file_ok ?s2"
    using aesdchar.pool_run_inv [OF silent_runs [OF r2 r1] pool_inv_start [OF pair_start]] by blast
  have env: "turn_env aesd_env_ok (demo_env ?bs) (Storing 5 60 2) (shared ?s2)"
    using demo_write_env by (simp add: turn_env_def)
  have "request_in (uheap (shared ?s2)) 60 2 ?bs" using line_request by simp
  then obtain p' where p': "thread_turn aesd_ops (demo_env ?bs) 50 (int 4) (Storing 5 60 2) (shared ?s2) =
      Some (Done (Replying 5, p'))" "stored_line (uheap (shared ?s2)) (Storing 5 60 2) (Replying 5) = [?bs]"
    using aesdchar.storing_line [OF pool_invD(1,2) [OF inv] env, of 7 50 4 ?bs demo_open_file]
    by (auto simp: seek_request_def SEEK_COMMAND_def aesd_env_good_def)
  from Run_turn [OF silent_runs [OF r2 r1] Turn [OF _ _ env p'(1), of 7]] p'(2) show ?thesis by (fastforce intro!: exI)
qed

section \<open>Properties\<close>



text \<open>
  C22.  In every interleaving the lines of the clients are stored whole, one behind the other in
  the order in which the threads enter the critical section: the device holds the last ten
  commands, the first line stored completing what was unfinished, and no line is ever mixed with
  another.
\<close>

theorem lines_stored_whole:
  assumes "pool_start dev_inv file_ok s0" "pool_run aesd_ops aesd_env_ok s0 ws s"
  shows "(\<forall>w \<in> set ws. newline \<in> set w) \<and>
    commands (devst (shared s)) =
      drop (length (commands (devst (shared s0)) @ ws) - 10)
        (commands (devst (shared s0)) @ completing (pending (devst (shared s0))) ws) \<and>
    pending (devst (shared s)) = (if ws = [] then pending (devst (shared s0)) else [])"
proof -
  have run: "\<forall>w \<in> set ws. newline \<in> set w"
    "abs_dev (devst (shared s)) = fold spec_write ws (abs_dev (devst (shared s0)))"
    using aesdchar.pool_run_inv [OF assms(2) pool_inv_start [OF assms(1)]] by auto
  have "dev_inv (devst (shared s0))" using assms(1) by (simp add: pool_start_def proc_ok_def)
  from spec_completing [OF run(1) commands_bound [OF this]] run show ?thesis
    by (auto simp: abs_dev_def)
qed

theorem lines_stored_whole_witness:
  "\<exists>s :: (kst, file_t) pool. workers s 7 = Some (50, 4, Replying 5) \<and> workers s 8 = Some (51, 3, Opening) \<and>
     commands (devst (shared s)) = commands demo_st @ [[CHR ''x'', CHR ''z'', newline]]"
proof -
  let ?bs = "[CHR ''z'', newline]"
  obtain s where "pool_run aesd_ops aesd_env_ok (pair_pool Map.empty Map.empty False False Opening Opening) [?bs] s"
    "workers s 7 = Some (50, 4, Replying 5)" "workers s 8 = Some (51, 3, Opening)"
    using pair_stores by blast
  with lines_stored_whole [OF pair_start this(1)] show ?thesis
    by (auto simp: demo_abs intro!: exI [of _ s])
qed

text \<open>
  C23.  A race of the descriptors: while a thread is between closing its file and opening it again,
  another thread that starts can get the number of the closed file.  The first thread then gets
  another number, but at its end closes the old one: the device file of the other thread is
  closed before it has received its request, and the file the first thread opened stays open.
\<close>

theorem reopen_closes_foreign_file:
  assumes "pool_inv dev_inv file_ok s"
    and "workers s t = Some (a1, c1, Reopening (int fd) b)" "workers s u = Some (a2, c2, Opening)"
    and "lowest_fd (fds (shared s)) = Some fd" "lowest_fd ((fds (shared s))(fd \<mapsto> Sock)) = Some fd2"
  shows "\<exists>s' out f. pool_run aesd_ops aesd_env_ok s [] s' \<and> workers s' t = Some (a1, c1, Ended out) \<and>
    workers s' u = Some (a2, c2, Receiving (int fd)) \<and> fds (shared s') fd = None \<and>
    fds (shared s') fd2 = Some (Dev f)"
  by (rule aesdchar.reopen_race [OF assms, of "demo_env []"]) simp_all

theorem reopen_closes_foreign_file_witness:
  "\<exists>s' out f. pool_run aesd_ops aesd_env_ok
       (pair_pool Map.empty [60 \<mapsto> replicate 1024 None] True False (Reopening 5 60) Opening) [] s' \<and>
     workers s' 7 = Some (50, 4, Ended out) \<and> workers s' 8 = Some (51, 3, Receiving 5) \<and>
     fds (shared s') 5 = None \<and> fds (shared s') 6 = Some (Dev f)"
proof -
  let ?s = "pair_pool Map.empty [60 \<mapsto> replicate 1024 None] True False (Reopening (int 5) 60) Opening"
  have inv: "pool_inv dev_inv file_ok ?s"
    by (auto simp: pool_inv_def shared_ok_def thread_ok_def apart_def blocks_def demo_fds split: if_splits)
  have "lowest_fd (fds (shared ?s)) = Some 5" by simp
  moreover have "lowest_fd ((fds (shared ?s))(5 \<mapsto> Sock)) = Some 6"
    by (rule lowest_fdI) (auto simp: demo_fds)
  ultimately show ?thesis
    using reopen_closes_foreign_file [OF inv, of 7 50 4 5 60 8 51 3 6] by simp
qed

text \<open>
  C24.  A race of the flag: when a client has performed its seek and another line is stored before the
  reply starts, the reply finds the flag of the seek reset: it closes the file with the position
  sought, and will send everything from a new one.
\<close>

theorem stored_line_cancels_seek:
  assumes "pool_inv dev_inv file_ok s"
    and "workers s t = Some (a1, c1, Replying fd)" "workers s u = Some (a2, c2, Storing fd2 b n)"
    and "request_in (uheap (shared s)) b n bs" "\<not> seek_request bs" "fds (shared s) (nat fd2) = Some (Dev f)"
    and "\<not> rw_held (shared s)" "aesd_env_good (write_envs env bs)"
    and "turn_env aesd_env_ok env (Storing fd2 b n) (shared s)"
    and "malloc_addr env \<noteq> 0" "malloc_contract (uheap (shared s)) (malloc_addr env) CLIENT_BUFFER_LEN"
  shows "\<exists>s'. pool_run aesd_ops aesd_env_ok s [bs] s' \<and>
    workers s' t = Some (a1, c1, Reopening fd (malloc_addr env)) \<and> fds (shared s') (nat fd) = None"
  by (rule aesdchar.flag_race [OF assms])

theorem stored_line_cancels_seek_witness:
  "\<exists>s' :: (kst, file_t) pool. workers s' 8 = Some (51, 3, Reopening 6 70) \<and> fds (shared s') 6 = None"
proof -
  let ?s = "pair_pool [5 \<mapsto> Dev demo_open_file, 6 \<mapsto> Dev demo_open_file] [60 \<mapsto> line_block] False True
    (Storing 5 60 2) (Replying 6)"
  let ?env = "(demo_env [])\<lparr>malloc_addr := 70\<rparr>"
  have "turn_env aesd_env_ok ?env (Storing 5 60 2) (shared ?s)"
    using demo_write_env [of "[]"] by (simp add: turn_env_def)
  moreover have "malloc_contract (uheap (shared ?s)) (malloc_addr ?env) CLIENT_BUFFER_LEN"
    by (simp add: malloc_contract_def)
  ultimately show ?thesis
    using stored_line_cancels_seek [OF pair_storing_ok, of "Replying 6" True 8 51 3 6 7 50 4 5 60 2
        "[CHR ''z'', newline]" demo_open_file ?env] line_request
    by (auto simp: seek_request_def SEEK_COMMAND_def aesd_env_good_def)
qed

end
