(* ===== verification/Socket_Host.thy ===== *)
theory Socket_Host
  imports Socket_Pool Socket_Main
begin

text \<open>
  The whole process of \<^verbatim>\<open>server/aesdsocket.c\<close> step by step: the main thread, cut at every call
  another thread or a signal can come between, beside the threads of its clients.  The flag the
  signal handler sets is tested before \<^verbatim>\<open>accept\<close> is called, so a signal can come between the two.
  Both handlers are taken to be installed, as a start whose calls of \<^verbatim>\<open>sigaction\<close> succeed leaves
  them; any other signal that ends a process, and so \<^verbatim>\<open>SIGPIPE\<close> of a \<^verbatim>\<open>send\<close> to a client that is gone,
  ends it at once.
\<close>

section \<open>The main thread\<close>

text \<open>
  Where \<^verbatim>\<open>main\<close> is after the start: testing the flag, about to call \<^verbatim>\<open>accept\<close>, waiting in it,
  allocating the argument for a client, creating its thread, adding the thread's node to the list,
  or in \<^verbatim>\<open>thread_join\<close> with the rest of the list (the flag tells the call after the loop from that
  in it), ending, ended with a status, or killed by a signal without a handler.
\<close>

datatype main_phase =
    Testing
  | Calling
  | In_accept
  | Allocating nat
  | Creating nat addr
  | Listing nat
  | Joining bool "(nat \<times> addr) list"
  | Cleaning
  | Exited int
  | Died int

datatype accept_result = Nobody | Fails | Comes

record main_env =
  accepts :: accept_result
  arg_addr :: addr
  thread_created :: bool
  node_addr :: addr

record ('d, 'f) host =
  crew :: "('d, 'f) pool"
  mphase :: main_phase
  listed :: "(nat \<times> addr) list"
  next_id :: nat
  quit :: bool

abbreviation proc_of :: "('d, 'f) host \<Rightarrow> ('d, 'f) proc" where
  "proc_of s \<equiv> shared (crew s)"

definition with_proc :: "('d, 'f) proc \<Rightarrow> ('d, 'f) host \<Rightarrow> ('d, 'f) host" where
  "with_proc p s = s\<lparr>crew := (crew s)\<lparr>shared := p\<rparr>\<rparr>"

text \<open>A thread that is created starts with its argument block and its client.\<close>

definition spawn :: "addr \<Rightarrow> nat \<Rightarrow> ('d, 'f) host \<Rightarrow> ('d, 'f) host" where
  "spawn t_args client_fd s =
     s\<lparr>crew := (crew s)\<lparr>workers := (workers (crew s))(next_id s \<mapsto> (t_args, client_fd, Opening))\<rparr>,
       next_id := Suc (next_id s)\<rparr>"

fun has_ended :: "(addr \<times> nat \<times> phase) option \<Rightarrow> bool" where
  "has_ended (Some (args, c, Ended out)) = True"
| "has_ended _ = False"

definition main_step ::
  "int \<Rightarrow> addr \<Rightarrow> main_env \<Rightarrow> ('d, 'f) host \<Rightarrow> ('d, 'f) host outcome option" where
  "main_step sockfd serverInfo env s =
     (let p = proc_of s in
      case mphase s of
        Testing \<Rightarrow> Some (Done (s\<lparr>mphase := if quit s then Joining True (listed s) else Calling\<rparr>))
      | Calling \<Rightarrow> Some (Done (s\<lparr>mphase := In_accept\<rparr>))
      | In_accept \<Rightarrow>
          (case accepts env of
             Nobody \<Rightarrow> Some Blocked
           | Fails \<Rightarrow> Some (Done (s\<lparr>mphase := Testing\<rparr>))
           | Comes \<Rightarrow>
               (case lowest_fd (fds p) of
                  None \<Rightarrow> Some (Done (s\<lparr>mphase := Testing\<rparr>))
                | Some client_fd \<Rightarrow> Some (Done
                    ((with_proc (p\<lparr>fds := (fds p)(client_fd \<mapsto> Sock)\<rparr>) s)\<lparr>mphase := Allocating client_fd\<rparr>))))
      | Allocating client_fd \<Rightarrow>
          let (t_args, h) = malloc (uheap p) (arg_addr env) sizeof_thread_arg in
          if t_args = 0 then Some (Done ((with_proc (sys_close (int client_fd) p) s)\<lparr>mphase := Testing\<rparr>))
          else Some (Done ((with_proc (p\<lparr>uheap := h\<rparr>) s)\<lparr>mphase := Creating client_fd t_args\<rparr>))
      | Creating client_fd t_args \<Rightarrow>
          if thread_created env then Some (Done ((spawn t_args client_fd s)\<lparr>mphase := Listing (next_id s)\<rparr>))
          else do {
            h \<leftarrow> free (uheap p) t_args;
            Some (Done ((with_proc (sys_close (int client_fd) (p\<lparr>uheap := h\<rparr>)) s)\<lparr>mphase := Testing\<rparr>))
          }
      | Listing tid \<Rightarrow>
          let (node, h) = malloc (uheap p) (node_addr env) sizeof_thread_node;
              s1 = (if node = 0 then s else (with_proc (p\<lparr>uheap := h\<rparr>) s)\<lparr>listed := (tid, node) # listed s\<rparr>) in
          Some (Done (s1\<lparr>mphase := Joining False (listed s1)\<rparr>))
      | Joining final current \<Rightarrow>
          (case current of
             [] \<Rightarrow> Some (Done (s\<lparr>mphase := if final then Cleaning else Testing\<rparr>))
           | (tid, node) # next \<Rightarrow>
               if \<not> has_ended (workers (crew s) tid) then Some Blocked
               else do {
                 h \<leftarrow> free (uheap p) node;
                 Some (Done ((with_proc (p\<lparr>uheap := h\<rparr>) s)
                   \<lparr>listed := remove1 (tid, node) (listed s), mphase := Joining final next\<rparr>))
               })
      | Cleaning \<Rightarrow> do {
          h \<leftarrow> freeaddrinfo (uheap p) serverInfo;
          let (status, p') = clean sockfd (p\<lparr>uheap := h\<rparr>);
          Some (Done ((with_proc p' s)\<lparr>mphase := Exited status\<rparr>))
        }
      | Exited status \<Rightarrow> Some (Done s)
      | Died signo \<Rightarrow> Some (Done s))"

section \<open>Runs\<close>

text \<open>The contracts of the environment in a step of the main thread; \<open>nodes\<close> demands memory for the list.\<close>

definition main_env_ok :: "bool \<Rightarrow> main_env \<Rightarrow> ('d, 'f) host \<Rightarrow> bool" where
  "main_env_ok nodes env s \<longleftrightarrow>
     (case mphase s of
        Allocating c \<Rightarrow> malloc_contract (uheap (proc_of s)) (arg_addr env) sizeof_thread_arg
      | Listing tid \<Rightarrow> malloc_contract (uheap (proc_of s)) (node_addr env) sizeof_thread_node \<and>
          (nodes \<longrightarrow> node_addr env \<noteq> 0)
      | _ \<Rightarrow> True)"

fun running_phase :: "main_phase \<Rightarrow> bool" where
  "running_phase (Exited status) = False"
| "running_phase (Died signo) = False"
| "running_phase _ = True"

text \<open>
  \<^verbatim>\<open>signal_handler\<close> sets the flag; as it is installed without \<^verbatim>\<open>SA_RESTART\<close>, a waiting \<^verbatim>\<open>accept\<close> then
  fails with \<^verbatim>\<open>EINTR\<close>.  At any other moment nothing else happens: \<^verbatim>\<open>pthread_join\<close> goes on waiting.
\<close>

definition signal_step :: "('d, 'f) host \<Rightarrow> ('d, 'f) host" where
  "signal_step s = s\<lparr>quit := True, mphase := if mphase s = In_accept then Testing else mphase s\<rparr>"

text \<open>
  A step: a turn of a thread, a step of the main thread, one of the two signals, or another signal,
  which is fatal.  \<^verbatim>\<open>send\<close> raises \<^verbatim>\<open>SIGPIPE\<close> when the client has closed its connection
  (\<^verbatim>\<open>MSG_NOSIGNAL\<close> is not given): the end of the process in the middle of a reply is a \<open>Fatal\<close> step
  while a thread is in \<open>Sending\<close>.
\<close>

inductive host_step ::
  "('d, 'f, 'e) dev_ops \<Rightarrow> ('e \<Rightarrow> 'd \<Rightarrow> byte list \<Rightarrow> bool) \<Rightarrow> bool \<Rightarrow> int \<Rightarrow> addr \<Rightarrow>
   ('d, 'f) host \<Rightarrow> byte list list \<Rightarrow> ('d, 'f) host \<Rightarrow> bool"
  for ops eok nodes sockfd serverInfo where
  Thread_turn: "running_phase (mphase s) \<Longrightarrow> pool_step ops eok (crew s) ws q \<Longrightarrow>
    host_step ops eok nodes sockfd serverInfo s ws (s\<lparr>crew := q\<rparr>)"
| Main_turn: "running_phase (mphase s) \<Longrightarrow> main_env_ok nodes env s \<Longrightarrow>
    main_step sockfd serverInfo env s = Some (Done s') \<Longrightarrow>
    host_step ops eok nodes sockfd serverInfo s [] s'"
| Signal: "running_phase (mphase s) \<Longrightarrow>
    host_step ops eok nodes sockfd serverInfo s [] (signal_step s)"
| Fatal: "running_phase (mphase s) \<Longrightarrow> signo \<noteq> SIGINT \<Longrightarrow> signo \<noteq> SIGTERM \<Longrightarrow>
    host_step ops eok nodes sockfd serverInfo s [] (s\<lparr>mphase := Died signo\<rparr>)"

inductive host_run ::
  "('d, 'f, 'e) dev_ops \<Rightarrow> ('e \<Rightarrow> 'd \<Rightarrow> byte list \<Rightarrow> bool) \<Rightarrow> bool \<Rightarrow> int \<Rightarrow> addr \<Rightarrow>
   ('d, 'f) host \<Rightarrow> byte list list \<Rightarrow> ('d, 'f) host \<Rightarrow> bool"
  for ops eok nodes sockfd serverInfo s0 where
  Host_none: "host_run ops eok nodes sockfd serverInfo s0 [] s0"
| Host_step: "host_run ops eok nodes sockfd serverInfo s0 ws s \<Longrightarrow>
    host_step ops eok nodes sockfd serverInfo s w s' \<Longrightarrow>
    host_run ops eok nodes sockfd serverInfo s0 (ws @ w) s'"

text \<open>The process at the beginning of the loop.\<close>

definition host_start :: "('d \<Rightarrow> bool) \<Rightarrow> ('f \<Rightarrow> bool) \<Rightarrow> int \<Rightarrow> addr \<Rightarrow> ('d, 'f) host \<Rightarrow> bool" where
  "host_start dok fok sockfd serverInfo s \<longleftrightarrow> proc_ok dok fok (proc_of s) \<and> workers (crew s) = Map.empty \<and>
     mphase s = Testing \<and> listed s = [] \<and> \<not> quit s \<and> fd_entry (proc_of s) sockfd = Some Sock \<and>
     serverInfo \<noteq> 0 \<and> uheap (proc_of s) serverInfo \<noteq> None"

section \<open>One thread at a time\<close>

text \<open>
  With memory for the nodes every thread is listed, so \<^verbatim>\<open>main\<close> joins it before it accepts the
  next client.  The invariant follows the descriptors and the heap of the process exactly: \<open>fb\<close>
  and \<open>hb\<close> are those of the moment when no client is there.
\<close>

definition quiet :: "('d, 'f) host \<Rightarrow> bool" where
  "quiet s \<longleftrightarrow> (\<forall>t args c ph. workers (crew s) t = Some (args, c, ph) \<longrightarrow> \<not> live ph)"

text \<open>
  The process while one thread is at work: outside its blocks and descriptors it is what it was,
  and its file has the lowest number that is free beside its client.
\<close>

definition solo :: "(nat \<rightharpoonup> 'f fdesc) \<Rightarrow> heap \<Rightarrow> addr \<Rightarrow> nat \<Rightarrow> phase \<Rightarrow> ('d, 'f) proc \<Rightarrow> bool" where
  "solo fb hb args c ph p \<longleftrightarrow>
     (\<forall>a. a \<notin> blocks args ph \<longrightarrow> uheap p a = hb a) \<and> (\<forall>a \<in> blocks args ph. hb a = None) \<and> fb c = None \<and>
     (live ph \<longrightarrow> fds p c = Some Sock) \<and> (\<not> live ph \<longrightarrow> fds p = fb) \<and>
     (\<forall>fd \<in> phase_fds ph. 0 \<le> fd \<and> lowest_fd (fb(c \<mapsto> Sock)) = Some (nat fd)) \<and>
     (\<forall>fd. fd \<noteq> c \<longrightarrow> int fd \<notin> phase_fds ph \<longrightarrow> fds p fd = fb fd) \<and>
     (\<forall>fd b. ph = Reopening fd b \<longrightarrow> fds p (nat fd) = None)"

definition working :: "(nat \<rightharpoonup> 'f fdesc) \<Rightarrow> heap \<Rightarrow> nat \<Rightarrow> ('d, 'f) host \<Rightarrow> bool" where
  "working fb hb tid s \<longleftrightarrow>
     (\<exists>args c ph. workers (crew s) tid = Some (args, c, ph) \<and> solo fb hb args c ph (proc_of s)) \<and>
     (\<forall>t args c ph. t \<noteq> tid \<longrightarrow> workers (crew s) t = Some (args, c, ph) \<longrightarrow> \<not> live ph)"

definition idle :: "(nat \<rightharpoonup> 'f fdesc) \<Rightarrow> heap \<Rightarrow> ('d, 'f) host \<Rightarrow> bool" where
  "idle fb hb s \<longleftrightarrow> quiet s \<and> fds (proc_of s) = fb \<and> uheap (proc_of s) = hb"

definition serves ::
  "(nat \<rightharpoonup> 'f fdesc) \<Rightarrow> heap \<Rightarrow> int \<Rightarrow> addr \<Rightarrow> ('d, 'f) host \<Rightarrow> bool" where
  "serves fb hb sockfd serverInfo s \<longleftrightarrow>
     (case mphase s of
        Allocating c \<Rightarrow> listed s = [] \<and> lowest_fd fb = Some c \<and> idle (fb(c \<mapsto> Sock)) hb s
      | Creating c a \<Rightarrow> listed s = [] \<and> lowest_fd fb = Some c \<and> a \<noteq> 0 \<and> hb a = None \<and>
          (\<exists>blk. idle (fb(c \<mapsto> Sock)) (hb(a \<mapsto> blk)) s)
      | Listing tid \<Rightarrow> listed s = [] \<and> working fb hb tid s
      | Joining final current \<Rightarrow> listed s = current \<and>
          (current = [] \<and> idle fb hb s \<or>
           (\<exists>tid node blk. current = [(tid, node)] \<and> node \<noteq> 0 \<and> hb node = None \<and> working fb (hb(node \<mapsto> blk)) tid s))
      | Exited status \<Rightarrow> status = 0 \<and> idle (fb(nat sockfd := None)) (hb(serverInfo := None)) s
      | Died signo \<Rightarrow> signo \<noteq> SIGINT \<and> signo \<noteq> SIGTERM \<and>
          ((\<exists>fb hb. idle fb hb s) \<or> (\<exists>fb hb tid. working fb hb tid s))
      | _ \<Rightarrow> listed s = [] \<and> idle fb hb s)"

definition host_inv ::
  "('d \<Rightarrow> bool) \<Rightarrow> ('f \<Rightarrow> bool) \<Rightarrow> (nat \<rightharpoonup> 'f fdesc) \<Rightarrow> heap \<Rightarrow> int \<Rightarrow> addr \<Rightarrow> ('d, 'f) host \<Rightarrow> bool" where
  "host_inv dok fok fb hb sockfd serverInfo s \<longleftrightarrow> pool_inv dok fok (crew s) \<and>
     (\<forall>t \<ge> next_id s. workers (crew s) t = None) \<and> serves fb hb sockfd serverInfo s"

text \<open>The one thread at work takes a turn.\<close>

lemma lowest_beside: "lowest_fd (fb(c \<mapsto> Sock)) = Some fd \<Longrightarrow> fd \<noteq> c \<and> fb fd = None"
  using lowest_fd_free [of "fb(c \<mapsto> Sock)" fd] by (auto split: if_splits)

lemma soloD:
  assumes "solo fb hb args c ph p"
  shows "a \<notin> blocks args ph \<Longrightarrow> uheap p a = hb a" "a \<in> blocks args ph \<Longrightarrow> hb a = None" "fb c = None"
    "live ph \<Longrightarrow> fds p c = Some Sock" "\<not> live ph \<Longrightarrow> fds p = fb"
    "fd \<in> phase_fds ph \<Longrightarrow> 0 \<le> fd \<and> lowest_fd (fb(c \<mapsto> Sock)) = Some (nat fd)"
    "i \<noteq> c \<Longrightarrow> int i \<notin> phase_fds ph \<Longrightarrow> fds p i = fb i" "ph = Reopening fd b \<Longrightarrow> fds p (nat fd) = None"
  using assms unfolding solo_def by blast+

lemma turn_exactD:
  assumes "turn_exact args c ph p ph' p'"
  shows "a \<in> blocks args ph \<Longrightarrow> a \<notin> blocks args ph' \<Longrightarrow> uheap p' a = None"
    "i \<noteq> c \<Longrightarrow> int i \<notin> phase_fds ph \<Longrightarrow> int i \<notin> phase_fds ph' \<Longrightarrow> fds p' i = fds p i"
    "fd \<in> phase_fds ph' \<Longrightarrow> fd \<notin> phase_fds ph \<Longrightarrow> opens_file ph \<and> lowest_fd (fds p) = Some (nat fd)"
    "live ph' \<Longrightarrow> phase_fds ph' \<noteq> {}"
    "live ph \<Longrightarrow> \<not> live ph' \<Longrightarrow> fds p' c = None" "live ph \<Longrightarrow> \<not> live ph' \<Longrightarrow> fd \<in> phase_fds ph \<Longrightarrow> fds p' (nat fd) = None"
    "ph' = Reopening fd b \<Longrightarrow> fds p' (nat fd) = None"
  using assms unfolding turn_exact_def by blast+

text \<open>A thread that opens its file finds the descriptors as they are beside its client alone.\<close>

lemma solo_opens:
  assumes s: "solo fb hb args c ph p" and op: "opens_file ph" and lv: "live ph"
  shows "lowest_fd (fds p) = lowest_fd (fb(c \<mapsto> Sock))"
proof (rule lowest_fd_cong)
  fix i
  note d = soloD [OF s]
  show "(fds p i = None) = ((fb(c \<mapsto> Sock)) i = None)"
  proof (cases "i = c \<or> int i \<notin> phase_fds ph")
    case True
    then show ?thesis using d(4) [OF lv] d(7) [of i] by auto
  next
    case False
    then obtain b where ph: "ph = Reopening (int i) b" using op by (cases ph) auto
    then show ?thesis using d(8) [OF ph] d(6) [of "int i"] lowest_fd_free [of "fb(c \<mapsto> Sock)" i] False by auto
  qed
qed

lemma solo_turn:
  assumes s: "solo fb hb args c ph p" and lv: "live ph"
    and fr: "turn_frame args c ph p ph' p'" and ex: "turn_exact args c ph p ph' p'" and ok: "thread_ok p' args c ph'"
  shows "solo fb hb args c ph' p'"
proof -
  note d = soloD [OF s] and f = turn_frameD [OF fr] and e = turn_exactD [OF ex]
  have one: "0 \<le> fd \<and> lowest_fd (fb(c \<mapsto> Sock)) = Some (nat fd)" if "fd \<in> phase_fds ph'" for fd
  proof (cases "fd \<in> phase_fds ph")
    case False
    have "live ph'" using that by (cases ph') auto
    then have "0 \<le> fd" using ok that by (auto simp: thread_ok_def)
    then show ?thesis using e(3) [OF that False] solo_opens [OF s _ lv] by simp
  qed (use d(6) in blast)
  have other: "fds p' i = fb i" if i: "i \<noteq> c" "int i \<notin> phase_fds ph'" for i
  proof (cases "int i \<in> phase_fds ph")
    case False
    then show ?thesis using e(2) d(7) i by simp
  next
    case True
    note low = d(6) [OF True]
    have "\<not> live ph'"
    proof
      assume "live ph'"
      then obtain fd where "fd \<in> phase_fds ph'" using e(4) by blast
      then have "fd = int i" using one [of fd] low by auto
      then show False using \<open>fd \<in> phase_fds ph'\<close> i(2) by simp
    qed
    then show ?thesis using e(6) [OF lv _ True] low lowest_beside [of fb c i] by simp
  qed
  have ended: "fds p' = fb" if "\<not> live ph'"
  proof
    fix i
    have "phase_fds ph' = {}" using that by (cases ph') auto
    then show "fds p' i = fb i" using other [of i] e(5) [OF lv that] d(3) by (cases "i = c") auto
  qed
  have heap: "uheap p' a = hb a" if "a \<notin> blocks args ph'" for a
    using that e(1) [of a] f(1) [of a] d(1,2) [of a] by (cases "a \<in> blocks args ph") auto
  moreover have "hb a = None" if "a \<in> blocks args ph'" for a
    using f(2) [OF that] d(1,2) [of a] by (cases "a \<in> blocks args ph") auto
  moreover have "live ph' \<longrightarrow> fds p' c = Some Sock" using ok by (simp add: thread_ok_def)
  ultimately show ?thesis unfolding solo_def using d(3) ended one other e(7) by blast
qed

section \<open>The invariant of the threads\<close>

lemma host_sel [simp]:
  "crew (with_proc p s) = (crew s)\<lparr>shared := p\<rparr>" "mphase (with_proc p s) = mphase s"
  "listed (with_proc p s) = listed s" "next_id (with_proc p s) = next_id s" "quit (with_proc p s) = quit s"
  by (simp_all add: with_proc_def)

text \<open>With no thread at work the threads demand nothing of the process.\<close>

lemma pool_inv_quiet:
  assumes "\<And>t args c ph. workers q t = Some (args, c, ph) \<Longrightarrow> \<not> live ph"
  shows "pool_inv dok fok q \<longleftrightarrow> shared_ok dok fok (shared q) \<and> \<not> rw_held (shared q)"
proof -
  have "\<not> in_reply ph" if "workers q t = Some (args, c, ph)" for t args c ph
    using assms [OF that] by (cases ph) auto
  moreover have "apart w1 w2" if "workers q t1 = Some w1" for t1 w1 w2
    using assms that by (cases w1; cases w2) (auto simp: apart_def)
  ultimately show ?thesis
    using assms unfolding pool_inv_def by (auto simp: thread_ok_def)
qed

lemma pool_inv_spawn:
  assumes inv: "pool_inv dok fok q" and quiet: "\<And>t args c ph. workers q t = Some (args, c, ph) \<Longrightarrow> \<not> live ph"
    and new: "a \<noteq> 0" "uheap (shared q) a \<noteq> None" "fds (shared q) c = Some Sock"
  shows "pool_inv dok fok (q\<lparr>workers := (workers q)(t \<mapsto> (a, c, Opening))\<rparr>)"
proof -
  have "\<not> in_reply ph" if "workers q t = Some (args, c, ph)" for t args c ph
    using quiet [OF that] by (cases ph) auto
  moreover have "shared_ok dok fok (shared q)" "\<not> rw_held (shared q)"
    using inv pool_inv_quiet [of q] quiet by blast+
  moreover have "thread_ok (shared q) a c Opening" using new by (simp add: thread_ok_def)
  moreover have "apart w1 w2" if "((workers q)(t \<mapsto> (a, c, Opening))) t1 = Some w1" "((workers q)(t \<mapsto> (a, c, Opening))) t2 = Some w2"
    "t1 \<noteq> t2" for t1 t2 w1 w2
    using that quiet by (cases w1; cases w2) (auto simp: apart_def split: if_splits)
  ultimately show ?thesis
    using quiet unfolding pool_inv_def by (auto simp: thread_ok_def split: if_splits)
qed

text \<open>A block that no thread knows may be allocated beside them.\<close>

lemma pool_inv_malloc:
  assumes inv: "pool_inv dok fok q" and a: "uheap (shared q) a = None"
  shows "pool_inv dok fok (q\<lparr>shared := (shared q)\<lparr>uheap := (uheap (shared q))(a \<mapsto> blk)\<rparr>\<rparr>)"
proof -
  have "thread_ok ((shared q)\<lparr>uheap := (uheap (shared q))(a \<mapsto> blk)\<rparr>) args c ph"
    if "workers q t = Some (args, c, ph)" for t args c ph
  proof -
    note ok = pool_invD(2) [OF inv that]
    have fresh: "a \<notin> blocks args ph" using thread_ok_blocks [OF ok] a by blast
    have "phase_ok ((uheap (shared q))(a \<mapsto> blk)) ph" if lv: "live ph"
    proof (rule phase_ok_same)
      show "phase_ok (uheap (shared q)) ph" using ok lv by (simp add: thread_ok_def)
      show "((uheap (shared q))(a \<mapsto> blk)) b = uheap (shared q) b" if "b \<in> phase_block ph" for b
        using fresh that lv by (auto simp: blocks_def)
    qed
    then show ?thesis using ok by (auto simp: thread_ok_def)
  qed
  then show ?thesis using inv unfolding pool_inv_def shared_ok_def by auto
qed

section \<open>Steps\<close>

lemma solo_start:
  assumes "fb c = None" "hb a = None" "uheap p = hb(a \<mapsto> blk)" "fds p = fb(c \<mapsto> Sock)"
  shows "solo fb hb a c Opening p"
  using assms by (simp add: solo_def blocks_def)

lemma solo_ended: "solo fb hb args c (Ended out) p \<Longrightarrow> fds p = fb \<and> uheap p = hb"
  by (auto simp: solo_def blocks_def)

lemma solo_node:
  assumes "solo fb hb args c ph p" "uheap p node = None" "thread_ok p args c ph"
  shows "solo fb (hb(node \<mapsto> blk)) args c ph (p\<lparr>uheap := (uheap p)(node \<mapsto> blk)\<rparr>)" "hb node = None"
proof -
  have fresh: "node \<notin> blocks args ph" using thread_ok_blocks [OF assms(3)] assms(2) by blast
  then show "hb node = None" using soloD(1) [OF assms(1)] assms(2) by metis
  show "solo fb (hb(node \<mapsto> blk)) args c ph (p\<lparr>uheap := (uheap p)(node \<mapsto> blk)\<rparr>)"
    using assms(1) fresh unfolding solo_def by auto
qed

lemma has_endedD: "has_ended w \<Longrightarrow> \<exists>args c out. w = Some (args, c, Ended out)"
  by (cases w rule: has_ended.cases) auto

lemma host_invD:
  assumes "host_inv dok fok fb hb sockfd serverInfo s"
  shows "pool_inv dok fok (crew s)" "\<And>t. next_id s \<le> t \<Longrightarrow> workers (crew s) t = None" "serves fb hb sockfd serverInfo s"
  using assms unfolding host_inv_def by blast+

lemma idleD:
  assumes "idle fb hb s"
  shows "workers (crew s) t = Some (args, c, ph) \<Longrightarrow> \<not> live ph" "fds (proc_of s) = fb" "uheap (proc_of s) = hb"
  using assms unfolding idle_def quiet_def by blast+

text \<open>Changes of the process by the main thread while no other thread is at work.\<close>

lemma idle_change:
  assumes "pool_inv dok fok (crew s)" "idle fb hb s"
    and "p = (proc_of s)\<lparr>fds := m, uheap := h\<rparr>" "\<forall>fd f. m fd = Some (Dev f) \<longrightarrow> fb fd = Some (Dev f)"
  shows "pool_inv dok fok ((crew s)\<lparr>shared := p\<rparr>)" "idle m h (with_proc p s)"
proof -
  note d = idleD [OF assms(2)]
  have "shared_ok dok fok (proc_of s) \<and> \<not> rw_held (proc_of s)"
    using pool_inv_quiet [of "crew s"] assms(1) d(1) by blast
  then have "shared_ok dok fok p \<and> \<not> rw_held p" using assms(3,4) d(2) by (auto simp: shared_ok_def)
  then show "pool_inv dok fok ((crew s)\<lparr>shared := p\<rparr>)"
    using pool_inv_quiet [of "(crew s)\<lparr>shared := p\<rparr>"] d(1) by simp
  show "idle m h (with_proc p s)" using d(1) assms(3) by (auto simp: idle_def quiet_def)
qed

lemma idle_phase [simp]: "idle fb hb (s\<lparr>mphase := m\<rparr>) = idle fb hb s" "idle fb hb (s\<lparr>listed := l\<rparr>) = idle fb hb s"
  "idle fb hb (s\<lparr>quit := b\<rparr>) = idle fb hb s" "idle fb hb (s\<lparr>next_id := n\<rparr>) = idle fb hb s"
  by (simp_all add: idle_def quiet_def)

lemma working_phase [simp]: "working fb hb t (s\<lparr>mphase := m\<rparr>) = working fb hb t s"
  "working fb hb t (s\<lparr>listed := l\<rparr>) = working fb hb t s" "working fb hb t (s\<lparr>quit := b\<rparr>) = working fb hb t s"
  by (simp_all add: working_def)

text \<open>The end of the one thread at work.\<close>

lemma working_ended:
  assumes "working fb hb tid s" "has_ended (workers (crew s) tid)"
  shows "idle fb hb s"
proof -
  obtain args c out where w: "workers (crew s) tid = Some (args, c, Ended out)" using has_endedD [OF assms(2)] by blast
  then have "solo fb hb args c (Ended out) (proc_of s)" using assms(1) by (auto simp: working_def)
  moreover have "\<not> live ph" if "workers (crew s) t = Some (args', c', ph)" for t args' c' ph
    using assms(1) that w by (cases "t = tid") (auto simp: working_def)
  ultimately show ?thesis using solo_ended [of fb hb args c out "proc_of s"] by (auto simp: idle_def quiet_def)
qed

lemma working_turn:
  assumes wk: "working fb hb tid s" and w: "workers (crew s) t = Some (args, c, ph)" and lv: "live ph"
    and good: "turn_good dok fok cont args c ph (proc_of s) ph' p'"
  shows "working fb hb tid (s\<lparr>crew := (crew s)\<lparr>shared := p', workers := (workers (crew s))(t \<mapsto> (args, c, ph'))\<rparr>\<rparr>)"
proof -
  have "t = tid" using wk w lv by (auto simp: working_def)
  moreover have "solo fb hb args c ph (proc_of s)" using wk w calculation by (auto simp: working_def)
  then have "solo fb hb args c ph' p'" using solo_turn [OF _ lv] good by (auto simp: turn_good_def)
  ultimately show ?thesis using wk by (auto simp: working_def)
qed

lemma idle_no_turn: "idle fb hb s \<Longrightarrow> workers (crew s) t = Some (args, c, ph) \<Longrightarrow> live ph \<Longrightarrow> thesis"
  using idleD(1) by blast

context char_device begin

abbreviation good_host where
  "good_host \<equiv> host_inv inv fok"

lemma host_thread_turn:
  assumes h: "good_host fb hb sockfd serverInfo s" and rn: "running_phase (mphase s)"
    and st: "pool_step ops env_ok (crew s) ws q"
  shows "good_host fb hb sockfd serverInfo (s\<lparr>crew := q\<rparr>)"
  using st
proof cases
  case (Turn t args c ph env ph' p')
  note d = host_invD [OF h]
  have good: "good_turn args c ph (proc_of s) ph' p'" using pool_turn [OF d(1) Turn(3,5)] Turn(6) by fastforce
  have "pool_inv inv fok q" using pool_inv_turn [OF d(1) Turn(3,4) good] Turn(2) by simp
  moreover have "workers q u = None" if "next_id s \<le> u" for u
    using d(2) [OF that] Turn(2,3) by auto
  moreover have "serves fb hb sockfd serverInfo (s\<lparr>crew := q\<rparr>)"
  proof (cases "mphase s")
    case (Joining final current)
    have "current \<noteq> []" using d(3) idle_no_turn [OF _ Turn(3,4)] by (auto simp: serves_def Joining)
    then show ?thesis
      using d(3) working_turn [OF _ Turn(3,4) good] unfolding serves_def Turn(2) by (simp add: Joining) blast
  next
    case (Listing tid)
    then show ?thesis using d(3) working_turn [OF _ Turn(3,4) good] by (simp add: serves_def Turn(2))
  qed (use d(3) rn idle_no_turn [OF _ Turn(3,4)] in \<open>auto simp: serves_def\<close>)
  ultimately show ?thesis by (simp add: host_inv_def)
qed

text \<open>The main thread never touches the device.\<close>

lemma main_step_devst:
  "main_step sockfd serverInfo env s = Some (Done s') \<Longrightarrow> devst (proc_of s') = devst (proc_of s)"
  by (auto simp: main_step_def clean_def spawn_def sys_close_def Let_def
      split: main_phase.splits accept_result.splits option.splits list.splits prod.splits if_splits bind_splits)

text \<open>The steps of the main thread, phase by phase.\<close>

definition main_good ::
  "(nat \<rightharpoonup> 'f fdesc) \<Rightarrow> heap \<Rightarrow> int \<Rightarrow> addr \<Rightarrow> main_env \<Rightarrow> ('d, 'f) host \<Rightarrow> bool" where
  "main_good fb hb sockfd serverInfo env s \<longleftrightarrow>
     (\<exists>res. main_step sockfd serverInfo env s = Some res \<and>
       (case res of
          Blocked \<Rightarrow> mphase s = In_accept \<and> accepts env = Nobody \<or>
            (\<exists>final tid node next. mphase s = Joining final ((tid, node) # next) \<and> \<not> has_ended (workers (crew s) tid))
        | Done s' \<Rightarrow> good_host fb hb sockfd serverInfo s'))"

lemma main_goodI:
  assumes "main_step sockfd serverInfo env s = Some (Done s')" "pool_inv inv fok (crew s')"
    "\<And>t. next_id s' \<le> t \<Longrightarrow> workers (crew s') t = None" "serves fb hb sockfd serverInfo s'"
  shows "main_good fb hb sockfd serverInfo env s"
  using assms by (auto simp: main_good_def host_inv_def)

lemma waiting_step:
  assumes h: "good_host fb hb sockfd serverInfo s" and m: "mphase s = In_accept"
  shows "main_good fb hb sockfd serverInfo env s"
proof -
  note d = host_invD [OF h]
  have s: "listed s = []" "idle fb hb s" using d(3) m by (simp_all add: serves_def)
  note i = idleD [OF s(2)]
  show ?thesis
  proof (cases "accepts env = Comes \<and> lowest_fd fb \<noteq> None")
    case True
    then obtain c where c: "lowest_fd fb = Some c" by auto
    let ?p = "(proc_of s)\<lparr>fds := fb(c \<mapsto> Sock)\<rparr>"
    have "?p = (proc_of s)\<lparr>fds := fb(c \<mapsto> Sock), uheap := hb\<rparr>" using i(3) by simp
    note ch = idle_change [OF d(1) s(2) this]
    have "pool_inv inv fok ((crew s)\<lparr>shared := ?p\<rparr>)" "idle (fb(c \<mapsto> Sock)) hb (with_proc ?p s)"
      by (rule ch; simp)+
    moreover have "main_step sockfd serverInfo env s = Some (Done ((with_proc ?p s)\<lparr>mphase := Allocating c\<rparr>))"
      using True c i(2) by (simp add: main_step_def m)
    ultimately show ?thesis using c s(1) d(2) by (intro main_goodI) (auto simp: serves_def)
  next
    case False
    then have "main_step sockfd serverInfo env s = (if accepts env = Nobody then Some Blocked
        else Some (Done (s\<lparr>mphase := Testing\<rparr>)))"
      using i(2) by (cases "accepts env") (auto simp: main_step_def m)
    then show ?thesis
      using d s m by (cases "accepts env = Nobody") (auto simp: main_good_def host_inv_def serves_def)
  qed
qed

lemma allocating_step:
  assumes h: "good_host fb hb sockfd serverInfo s" and m: "mphase s = Allocating c" and env: "main_env_ok nodes env s"
  shows "main_good fb hb sockfd serverInfo env s"
proof -
  note d = host_invD [OF h]
  have s: "listed s = []" "lowest_fd fb = Some c" "idle (fb(c \<mapsto> Sock)) hb s" using d(3) m by (simp_all add: serves_def)
  note i = idleD [OF s(3)]
  have cn: "fb c = None" by (rule lowest_fd_free [OF s(2)])
  let ?a = "arg_addr env"
  show ?thesis
  proof (cases "?a = 0")
    case True
    let ?p = "sys_close (int c) (proc_of s)"
    have "?p = (proc_of s)\<lparr>fds := fb, uheap := hb\<rparr>" using i(2,3) cn by (simp add: sys_close_def fun_upd_idem)
    note ch = idle_change [OF d(1) s(3) this]
    have "pool_inv inv fok ((crew s)\<lparr>shared := ?p\<rparr>)" "idle fb hb (with_proc ?p s)"
      by (rule ch; use cn in simp)+
    moreover have "main_step sockfd serverInfo env s = Some (Done ((with_proc ?p s)\<lparr>mphase := Testing\<rparr>))"
      using True by (simp add: main_step_def m malloc_def)
    ultimately show ?thesis using s(1) d(2) by (intro main_goodI) (auto simp: serves_def)
  next
    case False
    let ?blk = "replicate (unat sizeof_thread_arg) None"
    let ?p = "(proc_of s)\<lparr>uheap := hb(?a \<mapsto> ?blk)\<rparr>"
    have "hb ?a = None" using env False i(3) by (simp add: main_env_ok_def m malloc_contract_def)
    moreover have "?p = (proc_of s)\<lparr>fds := fb(c \<mapsto> Sock), uheap := hb(?a \<mapsto> ?blk)\<rparr>" using i(2) by simp
    note ch = idle_change [OF d(1) s(3) this]
    have "pool_inv inv fok ((crew s)\<lparr>shared := ?p\<rparr>)" "idle (fb(c \<mapsto> Sock)) (hb(?a \<mapsto> ?blk)) (with_proc ?p s)"
      by (rule ch; simp)+
    moreover have "main_step sockfd serverInfo env s = Some (Done ((with_proc ?p s)\<lparr>mphase := Creating c ?a\<rparr>))"
      using False i(3) by (simp add: main_step_def m malloc_def)
    ultimately show ?thesis using False s d(2) by (intro main_goodI) (auto simp: serves_def)
  qed
qed

lemma creating_step:
  assumes h: "good_host fb hb sockfd serverInfo s" and m: "mphase s = Creating c a"
  shows "main_good fb hb sockfd serverInfo env s"
proof -
  note d = host_invD [OF h]
  obtain blk where s: "listed s = []" "lowest_fd fb = Some c" "a \<noteq> 0" "hb a = None" "idle (fb(c \<mapsto> Sock)) (hb(a \<mapsto> blk)) s"
    using d(3) m by (auto simp: serves_def)
  note i = idleD [OF s(5)]
  have cn: "fb c = None" by (rule lowest_fd_free [OF s(2)])
  show ?thesis
  proof (cases "thread_created env")
    case True
    let ?s = "(spawn a c s)\<lparr>mphase := Listing (next_id s)\<rparr>"
    have "pool_inv inv fok ((crew s)\<lparr>workers := (workers (crew s))(next_id s \<mapsto> (a, c, Opening))\<rparr>)"
      by (rule pool_inv_spawn [OF d(1)]) (use i s(3) in auto)
    moreover have "solo fb hb a c Opening (proc_of s)" by (rule solo_start) (use cn s(4) i(2,3) in auto)
    then have "working fb hb (next_id s) ?s" using i(1) by (auto simp: working_def spawn_def split: if_splits)
    moreover have "main_step sockfd serverInfo env s = Some (Done ?s)" using True by (simp add: main_step_def m)
    ultimately show ?thesis using s(1) d(2) by (intro main_goodI) (auto simp: serves_def spawn_def)
  next
    case False
    let ?p = "sys_close (int c) ((proc_of s)\<lparr>uheap := hb\<rparr>)"
    have "?p = (proc_of s)\<lparr>fds := fb, uheap := hb\<rparr>"
      using i(2) cn by (cases "proc_of s") (simp add: sys_close_def fd_entry_def fun_upd_idem)
    note ch = idle_change [OF d(1) s(5) this]
    have "pool_inv inv fok ((crew s)\<lparr>shared := ?p\<rparr>)" "idle fb hb (with_proc ?p s)"
      by (rule ch; use cn in simp)+
    moreover have "free (uheap (proc_of s)) a = Some hb" using i(3) s(3,4) by (simp add: fun_upd_idem)
    then have "main_step sockfd serverInfo env s = Some (Done ((with_proc ?p s)\<lparr>mphase := Testing\<rparr>))"
      using False by (simp add: main_step_def m)
    ultimately show ?thesis using s(1) d(2) by (intro main_goodI) (auto simp: serves_def)
  qed
qed

lemma listing_step:
  assumes h: "good_host fb hb sockfd serverInfo s" and m: "mphase s = Listing tid" and env: "main_env_ok True env s"
  shows "main_good fb hb sockfd serverInfo env s"
proof -
  note d = host_invD [OF h]
  have s: "listed s = []" "working fb hb tid s" using d(3) m by (simp_all add: serves_def)
  let ?n = "node_addr env" and ?blk = "replicate (unat sizeof_thread_node) None"
  have n: "?n \<noteq> 0" "uheap (proc_of s) ?n = None" using env by (simp_all add: main_env_ok_def m malloc_contract_def)
  let ?p = "(proc_of s)\<lparr>uheap := (uheap (proc_of s))(?n \<mapsto> ?blk)\<rparr>"
  let ?s = "(with_proc ?p s)\<lparr>listed := [(tid, ?n)], mphase := Joining False [(tid, ?n)]\<rparr>"
  obtain args c ph where w: "workers (crew s) tid = Some (args, c, ph)" "solo fb hb args c ph (proc_of s)"
    using s(2) by (auto simp: working_def)
  note node = solo_node [OF w(2) n(2) pool_invD(2) [OF d(1) w(1)]]
  have "working fb (hb(?n \<mapsto> ?blk)) tid ?s" using s(2) w node(1) by (auto simp: working_def)
  moreover have "pool_inv inv fok ((crew s)\<lparr>shared := ?p\<rparr>)" by (rule pool_inv_malloc [OF d(1) n(2)])
  moreover have "main_step sockfd serverInfo env s = Some (Done ?s)"
    using n s(1) by (simp add: main_step_def m malloc_def Let_def)
  ultimately show ?thesis using n(1) node(2) d(2) by (intro main_goodI) (auto simp: serves_def)
qed

lemma joining_step:
  assumes h: "good_host fb hb sockfd serverInfo s" and m: "mphase s = Joining final current"
  shows "main_good fb hb sockfd serverInfo env s"
proof -
  note d = host_invD [OF h]
  have s: "listed s = current" "current = [] \<and> idle fb hb s \<or>
      (\<exists>tid node blk. current = [(tid, node)] \<and> node \<noteq> 0 \<and> hb node = None \<and> working fb (hb(node \<mapsto> blk)) tid s)"
    using d(3) m by (simp_all add: serves_def)
  show ?thesis
  proof (cases current)
    case Nil
    then have "main_step sockfd serverInfo env s = Some (Done (s\<lparr>mphase := if final then Cleaning else Testing\<rparr>))"
      by (simp add: main_step_def m)
    moreover have "serves fb hb sockfd serverInfo (s\<lparr>mphase := if final then Cleaning else Testing\<rparr>)"
      using Nil s by (simp add: serves_def)
    ultimately show ?thesis using d(1,2) by (intro main_goodI) auto
  next
    case Cons
    then obtain tid node blk where c: "current = [(tid, node)]" "node \<noteq> 0" "hb node = None"
      "working fb (hb(node \<mapsto> blk)) tid s" using s(2) by auto
    show ?thesis
    proof (cases "has_ended (workers (crew s) tid)")
      case False
      then show ?thesis by (simp add: main_good_def main_step_def m c(1))
    next
      case True
      note id = working_ended [OF c(4) True]
      let ?p = "(proc_of s)\<lparr>uheap := hb\<rparr>"
      have "?p = (proc_of s)\<lparr>fds := fb, uheap := hb\<rparr>" using idleD(2) [OF id] by simp
      note ch = idle_change [OF d(1) id this]
      have "pool_inv inv fok ((crew s)\<lparr>shared := ?p\<rparr>)" "idle fb hb (with_proc ?p s)" by (rule ch; simp)+
      moreover have "free (uheap (proc_of s)) node = Some hb"
        using idleD(3) [OF id] c(2,3) by (simp add: fun_upd_idem)
      then have "main_step sockfd serverInfo env s =
          Some (Done ((with_proc ?p s)\<lparr>listed := [], mphase := Joining final []\<rparr>))"
        using True s(1) by (simp add: main_step_def m c(1))
      ultimately show ?thesis using d(2) by (intro main_goodI) (auto simp: serves_def)
    qed
  qed
qed

lemma cleaning_step:
  assumes h: "good_host fb hb sockfd serverInfo s" and m: "mphase s = Cleaning"
    and b: "0 \<le> sockfd" "fb (nat sockfd) = Some Sock" "serverInfo \<noteq> 0" "hb serverInfo \<noteq> None"
  shows "main_good fb hb sockfd serverInfo env s"
proof -
  note d = host_invD [OF h]
  have id: "idle fb hb s" using d(3) m by (simp add: serves_def)
  note i = idleD [OF id]
  let ?p = "(proc_of s)\<lparr>uheap := hb(serverInfo := None), fds := fb(nat sockfd := None)\<rparr>"
  have "?p = (proc_of s)\<lparr>fds := fb(nat sockfd := None), uheap := hb(serverInfo := None)\<rparr>" by (cases "proc_of s") simp
  note ch = idle_change [OF d(1) id this]
  have "pool_inv inv fok ((crew s)\<lparr>shared := ?p\<rparr>)" "idle (fb(nat sockfd := None)) (hb(serverInfo := None)) (with_proc ?p s)"
    by (rule ch; simp)+
  moreover have "main_step sockfd serverInfo env s = Some (Done ((with_proc ?p s)\<lparr>mphase := Exited 0\<rparr>))"
    using i(2,3) b by (auto simp: main_step_def m freeaddrinfo_def free_def clean_def sys_close_def fd_entry_def Let_def)
  ultimately show ?thesis using d(2) by (intro main_goodI) (auto simp: serves_def)
qed

lemma host_main_turn:
  assumes h: "good_host fb hb sockfd serverInfo s" and env: "main_env_ok True env s"
    and b: "0 \<le> sockfd" "fb (nat sockfd) = Some Sock" "serverInfo \<noteq> 0" "hb serverInfo \<noteq> None"
  shows "main_good fb hb sockfd serverInfo env s"
proof (cases "mphase s")
  case Testing
  then show ?thesis
    using host_invD [OF h]
    by (intro main_goodI [where s' = "s\<lparr>mphase := if quit s then Joining True (listed s) else Calling\<rparr>"])
      (auto simp: main_step_def serves_def)
next
  case Calling
  then show ?thesis
    using host_invD [OF h] by (intro main_goodI [where s' = "s\<lparr>mphase := In_accept\<rparr>"]) (auto simp: main_step_def serves_def)
next
  case (Exited status)
  then show ?thesis using host_invD [OF h] by (intro main_goodI [where s' = s]) (auto simp: main_step_def)
next
  case (Died signo)
  then show ?thesis using host_invD [OF h] by (intro main_goodI [where s' = s]) (auto simp: main_step_def)
qed (use waiting_step [OF h] allocating_step [OF h _ env] creating_step [OF h] listing_step [OF h _ env]
    joining_step [OF h] cleaning_step [OF h _ b] in blast)+

lemma host_step_inv:
  assumes "host_step ops env_ok True sockfd serverInfo s w s'" and h: "good_host fb hb sockfd serverInfo s"
    and b: "0 \<le> sockfd" "fb (nat sockfd) = Some Sock" "serverInfo \<noteq> 0" "hb serverInfo \<noteq> None"
  shows "good_host fb hb sockfd serverInfo s' \<and> (\<forall>l \<in> set w. newline \<in> set l \<and> \<not> seek_request l) \<and>
    content (devst (proc_of s')) = fold spec_write w (content (devst (proc_of s)))"
  using assms(1)
proof cases
  case (Thread_turn q)
  then show ?thesis
    using host_thread_turn [OF h] pool_step_inv [OF Thread_turn(3) host_invD(1) [OF h]] by auto
next
  case (Main_turn env)
  have "good_host fb hb sockfd serverInfo s'"
    using host_main_turn [OF h Main_turn(3) b] Main_turn(4) by (auto simp: main_good_def)
  moreover have "devst (proc_of s') = devst (proc_of s)"
    by (rule main_step_devst [OF Main_turn(4)])
  ultimately show ?thesis using Main_turn by simp
next
  case Signal
  then show ?thesis using h by (auto simp: signal_step_def host_inv_def serves_def split: main_phase.splits)
next
  case (Fatal signo)
  have "(\<exists>fb hb. idle fb hb s) \<or> (\<exists>fb hb tid. working fb hb tid s)"
    using host_invD(3) [OF h] by (auto simp: serves_def split: main_phase.splits)
  then show ?thesis using h Fatal by (auto simp: host_inv_def serves_def)
qed

end

end
