(* ===== verification/Socket_Concurrent.thy ===== *)
theory Socket_Concurrent
  imports Socket_Host
begin

text \<open>
  Runs of the whole process of the server: what holds when every thread can be listed, where a signal
  finds the main thread, and the race of a thread that could not be listed with the client accepted
  next.
\<close>

section \<open>Runs\<close>

definition alive :: "('d, 'f) host \<Rightarrow> nat \<Rightarrow> bool" where
  "alive s t \<longleftrightarrow> (\<exists>args c ph. workers (crew s) t = Some (args, c, ph) \<and> live ph)"

lemma idle_alive: "idle fb hb s \<Longrightarrow> \<not> alive s t"
  unfolding alive_def using idleD(1) by blast

lemma working_alive: "working fb hb tid s \<Longrightarrow> alive s t \<Longrightarrow> t = tid"
  unfolding working_def alive_def by blast

lemma one_alive:
  assumes "host_inv dok fok fb hb sockfd serverInfo s" "alive s t" "alive s u"
  shows "t = u"
proof (cases "\<exists>fb hb. idle fb hb s")
  case True
  then show ?thesis using idle_alive assms(2) by blast
next
  case False
  then obtain fb hb' tid where "working fb hb' tid s"
    using host_invD(3) [OF assms(1)] by (auto simp: serves_def split: main_phase.splits)
  then show ?thesis using working_alive assms(2,3) by blast
qed

lemma host_start_inv:
  assumes "host_start dok fok sockfd serverInfo s"
  shows "host_inv dok fok (fds (proc_of s)) (uheap (proc_of s)) sockfd serverInfo s"
    "0 \<le> sockfd" "fds (proc_of s) (nat sockfd) = Some Sock" "serverInfo \<noteq> 0" "uheap (proc_of s) serverInfo \<noteq> None"
proof -
  have "pool_inv dok fok (crew s)"
    using assms pool_inv_quiet [of "crew s"] by (auto simp: host_start_def proc_ok_def shared_ok_def)
  then show "host_inv dok fok (fds (proc_of s)) (uheap (proc_of s)) sockfd serverInfo s"
    using assms by (auto simp: host_inv_def host_start_def serves_def idle_def quiet_def)
qed (use assms in \<open>auto simp: host_start_def fd_entry_def split: if_splits\<close>)

text \<open>A thread at work whose next turn is defined, and waits only for a client that sends no newline.\<close>

definition goes_on :: "('d, 'f, 'e) dev_ops \<Rightarrow> ('e \<Rightarrow> 'd \<Rightarrow> byte list \<Rightarrow> bool) \<Rightarrow> ('d, 'f) host \<Rightarrow> nat \<Rightarrow> bool" where
  "goes_on ops eok s tid \<longleftrightarrow>
     (\<exists>args c ph. workers (crew s) tid = Some (args, c, ph) \<and> live ph \<and>
        (\<forall>tenv. turn_env eok tenv ph (proc_of s) \<longrightarrow>
           (\<exists>r. thread_turn ops tenv args (int c) ph (proc_of s) = Some r \<and>
              (r = Blocked \<longrightarrow> (\<exists>fd. ph = Receiving fd) \<and> newline \<notin> set (arriving (client_events tenv))))))"

context char_device begin

lemma host_run_inv:
  assumes "host_run ops env_ok True sockfd serverInfo s0 ws s" "host_start inv fok sockfd serverInfo s0"
  shows "good_host (fds (proc_of s0)) (uheap (proc_of s0)) sockfd serverInfo s \<and>
    (\<forall>l \<in> set ws. newline \<in> set l \<and> \<not> seek_request l) \<and>
    content (devst (proc_of s)) = fold spec_write ws (content (devst (proc_of s0)))"
  using assms
proof (induction rule: host_run.induct)
  case Host_none
  then show ?case using host_start_inv(1) by simp
next
  case (Host_step ws s w s')
  note b = host_start_inv(2-5) [OF Host_step(4)]
  show ?case using host_step_inv [OF Host_step(2) conjunct1 [OF Host_step(3) [OF Host_step(4)]] b] Host_step(3,4) by auto
qed

text \<open>The thread the main thread waits for goes on as long as its client does.\<close>

lemma joined_goes_on:
  assumes h: "good_host fb hb sockfd serverInfo s" and m: "mphase s = Joining final ((tid, node) # next)"
    and e: "\<not> has_ended (workers (crew s) tid)"
  shows "goes_on ops env_ok s tid"
proof -
  note d = host_invD [OF h]
  obtain hb' where wk: "working fb hb' tid s" using d(3) m by (auto simp: serves_def)
  then obtain args c ph where w: "workers (crew s) tid = Some (args, c, ph)" by (auto simp: working_def)
  have lv: "live ph" using e w by (cases ph) auto
  have "\<exists>r. thread_turn ops tenv args (int c) ph (proc_of s) = Some r \<and>
      (r = Blocked \<longrightarrow> (\<exists>fd. ph = Receiving fd) \<and> newline \<notin> set (arriving (client_events tenv)))"
    if env: "turn_env env_ok tenv ph (proc_of s)" for tenv
  proof -
    have "in_reply ph" if held: "rw_held (proc_of s)"
    proof -
      obtain u a2 c2 ph2 where u: "workers (crew s) u = Some (a2, c2, ph2)" "in_reply ph2"
        using pool_invD(5) [OF d(1) held] by blast
      then have "live ph2" by (cases ph2) auto
      then have "u = tid" using u(1) working_alive [OF wk] by (auto simp: alive_def)
      then show ?thesis using u w by simp
    qed
    then show ?thesis
      using pool_turn [OF d(1) w env] by (cases ph) (auto simp: waits_for_def)
  qed
  with w lv show ?thesis unfolding goes_on_def by blast
qed

end

section \<open>Runs put together\<close>

lemma host_main:
  "host_run ops eok nodes sockfd info s0 ws s \<Longrightarrow> running_phase (mphase s) \<Longrightarrow> main_env_ok nodes env s \<Longrightarrow>
   main_step sockfd info env s = Some (Done s') \<Longrightarrow> host_run ops eok nodes sockfd info s0 ws s'"
  using Host_step [OF _ Main_turn] by fastforce

lemma host_signal:
  "host_run ops eok nodes sockfd info s0 ws s \<Longrightarrow> running_phase (mphase s) \<Longrightarrow>
   host_run ops eok nodes sockfd info s0 ws (signal_step s)"
  using Host_step [OF _ Signal] by fastforce

lemma host_threads:
  "pool_run ops eok q ws q' \<Longrightarrow> host_run ops eok nodes sockfd info s0 vs s \<Longrightarrow> crew s = q \<Longrightarrow>
   running_phase (mphase s) \<Longrightarrow> host_run ops eok nodes sockfd info s0 (vs @ ws) (s\<lparr>crew := q'\<rparr>)"
proof (induction rule: pool_run.induct)
  case (Run_turn ws q1 w q2)
  have "host_step ops eok nodes sockfd info (s\<lparr>crew := q1\<rparr>) w ((s\<lparr>crew := q1\<rparr>)\<lparr>crew := q2\<rparr>)"
    using Thread_turn [of "s\<lparr>crew := q1\<rparr>" ops eok w q2] Run_turn by simp
  from Host_step [OF Run_turn(3) [OF Run_turn(4-6)] this] show ?case by simp
next
  case Run_none
  then have eq: "s\<lparr>crew := q\<rparr> = s" by (cases s) simp
  show ?case unfolding eq append_Nil2 by (rule Run_none(1))
qed

text \<open>The main thread on its way: from the test of the flag into \<^verbatim>\<open>accept\<close>, and with the flag to the end.\<close>

lemma host_into_accept:
  assumes "host_run ops eok nodes sockfd info s0 ws s" "mphase s = Testing" "\<not> quit s"
  shows "host_run ops eok nodes sockfd info s0 ws (s\<lparr>mphase := Calling\<rparr>)"
    "host_run ops eok nodes sockfd info s0 ws (s\<lparr>mphase := In_accept\<rparr>)"
    "host_run ops eok nodes sockfd info s0 ws (s\<lparr>quit := True, mphase := In_accept\<rparr>)"
proof -
  show c: "host_run ops eok nodes sockfd info s0 ws (s\<lparr>mphase := Calling\<rparr>)"
    by (rule host_main [OF assms(1), where env = undefined]) (use assms in \<open>simp_all add: main_env_ok_def main_step_def\<close>)
  show "host_run ops eok nodes sockfd info s0 ws (s\<lparr>mphase := In_accept\<rparr>)"
    by (rule host_main [OF c, where env = undefined]) (simp_all add: main_env_ok_def main_step_def)
  from host_signal [OF c]
  have q: "host_run ops eok nodes sockfd info s0 ws (s\<lparr>quit := True, mphase := Calling\<rparr>)" by (simp add: signal_step_def)
  show "host_run ops eok nodes sockfd info s0 ws (s\<lparr>quit := True, mphase := In_accept\<rparr>)"
    by (rule host_main [OF q, where env = undefined]) (simp_all add: main_env_ok_def main_step_def)
qed

lemma host_to_cleaning:
  assumes "host_run ops eok nodes sockfd info s0 ws s" "mphase s = Testing" "quit s" "listed s = []"
  shows "host_run ops eok nodes sockfd info s0 ws (s\<lparr>mphase := Cleaning\<rparr>)"
proof -
  have "host_run ops eok nodes sockfd info s0 ws (s\<lparr>mphase := Joining True []\<rparr>)"
    by (rule host_main [OF assms(1), where env = undefined]) (use assms in \<open>simp_all add: main_env_ok_def main_step_def\<close>)
  from host_main [OF this, where env = undefined] show ?thesis
    by (simp add: main_env_ok_def main_step_def)
qed

section \<open>A race of the descriptors\<close>

context char_device begin

lemma accept_race:
  fixes env :: "'e thread_env"
  assumes inv: "pool_inv inv fok (crew s)" and m: "mphase s = In_accept"
    and w: "workers (crew s) t = Some (args, c, Reopening (int fd) b)"
    and fd: "lowest_fd (fds (proc_of s)) = Some fd" "lowest_fd ((fds (proc_of s))(fd \<mapsto> Sock)) = Some fd2"
    and env: "reopen_succeeds env"
  shows "\<exists>s' out. host_run ops env_ok False sockfd info s [] s' \<and> mphase s' = Allocating fd \<and>
    workers (crew s') t = Some (args, c, Ended out) \<and> fds (proc_of s') fd = None"
proof -
  let ?p = "proc_of s"
  define p1 where "p1 = ?p\<lparr>fds := (fds ?p)(fd \<mapsto> Sock)\<rparr>"
  define s1 where "s1 = (with_proc p1 s)\<lparr>mphase := Allocating fd\<rparr>"
  let ?env = "\<lparr>accepts = Comes, arg_addr = 0, thread_created = False, node_addr = 0\<rparr>"
  have "main_step sockfd info ?env s = Some (Done s1)" using fd(1) by (simp add: main_step_def m p1_def s1_def Let_def)
  from host_main [OF Host_none _ _ this]
  have r1: "host_run ops env_ok False sockfd info s [] s1" by (simp add: m main_env_ok_def)
  note t = pool_invD(2) [OF inv w, unfolded thread_ok_def, simplified]
  obtain blk where blk: "uheap ?p b = Some blk" "length blk = 1024" using t by auto
  obtain f where f: "dev_open ops (devst ?p) = (f, devst ?p)" "fok f"
    using open_spec [of "devst ?p"] pool_invD(1) [OF inv] unfolding shared_ok_def by blast
  define p2 where "p2 = p1\<lparr>fds := (fds p1)(fd2 \<mapsto> Dev f), ioctl_just_performed := False\<rparr>"
  define q2 where "q2 = (crew s1)\<lparr>shared := p2, workers := (workers (crew s1))(t \<mapsto> (args, c, Sending (int fd) (int fd2) b))\<rparr>"
  have low: "lowest_fd (fds p1) = Some fd2" using fd(2) by (simp add: p1_def)
  have w1: "workers (crew s1) t = Some (args, c, Reopening (int fd) b)" "proc_of s1 = p1" "devst p1 = devst ?p"
    using w by (simp_all add: s1_def p1_def)
  have "thread_turn ops env args (int c) (Reopening (int fd) b) p1 = Some (Done (Sending (int fd) (int fd2) b, p2))"
    using low env f(1) w1(3) by (cases p1) (simp add: thread_turn_def reopen_turn_def sys_open_def p2_def)
  from silent_turn [OF w1(1) _ _ this [folded w1(2)]]
  have t2: "pool_run ops env_ok (crew s1) [] q2" by (simp add: q2_def turn_env_def stored_line_def)
  have free: "fds ?p fd = None" "((fds ?p)(fd \<mapsto> Sock)) fd2 = None" by (rule lowest_fd_free [OF fd(1)], rule lowest_fd_free [OF fd(2)])
  then have ne: "fd2 \<noteq> fd" "c \<noteq> fd" "c \<noteq> fd2" using t by (auto split: if_splits)
  have sh: "shared q2 = p2" "workers q2 t = Some (args, c, Sending (int fd) (int fd2) b)" by (simp_all add: q2_def)
  have "\<exists>q3 out f'. pool_run ops env_ok q2 [] q3 \<and> workers q3 = (workers q2)(t \<mapsto> (args, c, Ended out)) \<and>
      fds (shared q3) = (fds (shared q2))(fd2 \<mapsto> Dev f', fd := None, c := None)"
    by (rule finishing_turns [OF sh(2)])
      (use t blk f ne pool_invD(1) [OF inv] in \<open>auto simp: sh(1) p2_def p1_def shared_ok_def\<close>)
  then obtain q3 out f' where q3: "pool_run ops env_ok q2 [] q3" "workers q3 t = Some (args, c, Ended out)"
    "fds (shared q3) = (fds p2)(fd2 \<mapsto> Dev f', fd := None, c := None)" using sh(1) by auto
  have "host_run ops env_ok False sockfd info s ([] @ []) (s1\<lparr>crew := q3\<rparr>)"
    by (rule host_threads [OF silent_runs [OF q3(1) t2] r1 refl]) (simp add: s1_def)
  moreover have "mphase (s1\<lparr>crew := q3\<rparr>) = Allocating fd" by (simp add: s1_def)
  ultimately show ?thesis using q3(2,3) ne by - (rule exI [of _ "s1\<lparr>crew := q3\<rparr>"], rule exI [of _ out], simp)
qed

end

section \<open>The main thread alone\<close>

text \<open>
  The schedule of \<open>Socket_Main\<close>: the main thread accepts a client and goes on to joining its
  thread, the thread takes its turns, and the main thread goes back to its loop.
\<close>

fun main_steps :: "nat \<Rightarrow> int \<Rightarrow> addr \<Rightarrow> main_env \<Rightarrow> ('d, 'f) host \<Rightarrow> ('d, 'f) host outcome option" where
  "main_steps 0 sockfd info env s = Some (Done s)"
| "main_steps (Suc n) sockfd info env s = do {
     res \<leftarrow> main_step sockfd info env s;
     (case res of Blocked \<Rightarrow> Some Blocked | Done s' \<Rightarrow> main_steps n sockfd info env s')
   }"

definition thread_turns ::
  "('d, 'f, 'e) dev_ops \<Rightarrow> 'e thread_env \<Rightarrow> nat \<Rightarrow> ('d, 'f) host \<Rightarrow> ('d, 'f) host outcome option" where
  "thread_turns ops tenv tid s =
     (case workers (crew s) tid of
        None \<Rightarrow> Some (Done s)
      | Some (args, c, ph) \<Rightarrow> do {
          res \<leftarrow> turns ops tenv args (int c) 7 ph (proc_of s);
          Some (case res of
                  Blocked \<Rightarrow> Blocked
                | Done (ph', p) \<Rightarrow> Done
                    (s\<lparr>crew := \<lparr>shared = p, workers = (workers (crew s))(tid \<mapsto> (args, c, ph'))\<rparr>\<rparr>))
        })"

definition serve_client ::
  "('d, 'f, 'e) dev_ops \<Rightarrow> int \<Rightarrow> addr \<Rightarrow> main_env \<Rightarrow> 'e thread_env \<Rightarrow> ('d, 'f) host \<Rightarrow> ('d, 'f) host outcome option" where
  "serve_client ops sockfd info env tenv s = do {
     r1 \<leftarrow> main_steps 4 sockfd info env s;
     (case r1 of
        Blocked \<Rightarrow> Some Blocked
      | Done s1 \<Rightarrow> do {
          r2 \<leftarrow> thread_turns ops tenv (next_id s) s1;
          (case r2 of Blocked \<Rightarrow> Some Blocked | Done s2 \<Rightarrow> main_steps 2 sockfd info env s2)
        })
   }"

lemma opt_outcome_cases:
  obtains "r = None" | "r = Some Blocked" | x y where "r = Some (Done (x, y))"
  by (cases r; simp) (metis outcome.exhaust surj_pair)

text \<open>The state of the main thread in \<open>Socket_Main\<close> and here.\<close>

definition matches :: "('d, 'f, 'e) server \<Rightarrow> ('d, 'f) host \<Rightarrow> bool" where
  "matches v s \<longleftrightarrow> sproc v = proc_of s \<and> head v = listed s \<and> next_tid v = next_id s \<and> exit_flag v = quit s"

text \<open>
  The accept loop as one function does what the process does when its threads take their turns
  in the order of the joins: a client that is accepted and gets its thread and its node is served
  with the same result for the process, the list, and the bytes the client receives; and it waits
  or is undefined in the same cases.
\<close>

lemma main_turn_is_a_schedule:
  assumes "matches v s" "mphase s = In_accept" "listed s = []" "running v (next_tid v) = None"
    and "accepts env = Comes" "thread_created env" "arg_addr env \<noteq> 0" "node_addr env \<noteq> 0"
    and "lowest_fd (fds (proc_of s)) = Some c"
  shows "case main_turn ops (Client (arg_addr env) True (node_addr env) tenv) v of
      None \<Rightarrow> serve_client ops sockfd info env tenv s = None
    | Some Blocked \<Rightarrow> serve_client ops sockfd info env tenv s = Some Blocked
    | Some (Done v') \<Rightarrow> \<exists>s' out. serve_client ops sockfd info env tenv s = Some (Done s') \<and> mphase s' = Testing \<and>
        matches v' s' \<and> workers (crew s') (next_id s) = Some (arg_addr env, c, Ended out) \<and> replies v' = replies v @ [out]"
proof -
  let ?tid = "next_id s" and ?a = "arg_addr env" and ?n = "node_addr env"
  obtain h1 where h1: "malloc (uheap (proc_of s)) ?a sizeof_thread_arg = (?a, h1)" using assms(7) by (simp add: malloc_def)
  obtain h2 where h2: "malloc h1 ?n sizeof_thread_node = (?n, h2)" using assms(8) by (simp add: malloc_def)
  define q where "q = (proc_of s)\<lparr>fds := (fds (proc_of s))(c \<mapsto> Sock), uheap := h2\<rparr>"
  define s4 where "s4 = s\<lparr>crew := \<lparr>shared = q, workers = (workers (crew s))(?tid \<mapsto> (?a, c, Opening))\<rparr>,
    mphase := Joining False [(?tid, ?n)], listed := [(?tid, ?n)], next_id := Suc ?tid\<rparr>"
  have four: "4 = Suc (Suc (Suc (Suc 0)))" by simp
  have acc: "main_steps 4 sockfd info env s = Some (Done s4)"
    using assms h1 h2 unfolding four
    by (cases s; cases "crew s") (simp add: main_step_def with_proc_def spawn_def s4_def q_def Let_def)
  have v: "sproc v = proc_of s" "head v = []" "next_tid v = ?tid" using assms(1,3) by (simp_all add: matches_def)
  let ?v = "v\<lparr>sproc := q, head := [(?tid, ?n)], running := (running v)(?tid \<mapsto> (?a, c, tenv)), next_tid := Suc ?tid\<rparr>"
  have main: "main_turn ops (Client ?a True ?n tenv) v = join_loop ops [(?tid, ?n)] ?v"
    using assms(7-9) h1 h2 v by (cases v) (simp add: main_turn_def thread_node_add_def thread_join_def q_def Let_def)
  have thr: "thread_turns ops tenv ?tid s4 = map_option (map_outcome (\<lambda>(out, p). s4\<lparr>crew := \<lparr>shared = p,
      workers = (workers (crew s))(?tid \<mapsto> (?a, c, Ended out))\<rparr>\<rparr>)) (thread_operation ops tenv q ?a (int c))"
    using turns_compose [of ops tenv ?a "int c" q]
    by (cases "thread_operation ops tenv q ?a (int c)" rule: opt_outcome_cases) (simp_all add: thread_turns_def s4_def)
  show ?thesis
  proof (cases "thread_operation ops tenv q ?a (int c)" rule: opt_outcome_cases)
    case (3 out p)
    let ?s5 = "s4\<lparr>crew := \<lparr>shared = p, workers = (workers (crew s))(?tid \<mapsto> (?a, c, Ended out))\<rparr>\<rparr>"
    have "serve_client ops sockfd info env tenv s = main_steps (Suc (Suc 0)) sockfd info env ?s5"
      using acc thr 3 by (simp add: serve_client_def numeral_2_eq_2)
    then show ?thesis
      using main 3 v assms(1,4)
      by (cases "free (uheap p) ?n")
        (auto simp: run_thread_def main_step_def s4_def with_proc_def matches_def Let_def)
  qed (use main acc thr in \<open>simp_all add: serve_client_def run_thread_def\<close>)
qed

section \<open>A client comes\<close>

definition demo_host :: "(kst, file_t) host" where
  "demo_host = \<lparr>crew = \<lparr>shared = (sproc demo_server)\<lparr>uheap := [40 \<mapsto> replicate 64 None]\<rparr>, workers = Map.empty\<rparr>,
     mphase = Testing, listed = [], next_id = 7, quit = False\<rparr>"

definition demo_main :: main_env where
  "demo_main = \<lparr>accepts = Comes, arg_addr = 50, thread_created = True, node_addr = 51\<rparr>"

lemma demo_host_start: "host_start dev_inv file_ok 3 40 demo_host"
  using main_okD(1) [OF demo_server_ok]
  by (auto simp: host_start_def demo_host_def proc_ok_def fd_entry_def)

text \<open>Thread 7 has been created for client 4, and the main thread has listed it and waits for it.\<close>

definition demo_joining :: "(kst, file_t) host" where
  "demo_joining = \<lparr>crew = \<lparr>shared = (sproc demo_server)\<lparr>fds := (fds (sproc demo_server))(4 \<mapsto> Sock),
       uheap := [40 \<mapsto> replicate 64 None, 50 \<mapsto> replicate 136 None, 51 \<mapsto> replicate 16 None]\<rparr>, workers = [7 \<mapsto> (50, 4, Opening)]\<rparr>,
     mphase = Joining False [(7, 51)], listed = [(7, 51)], next_id = 8, quit = False\<rparr>"

lemma demo_joins: "host_run aesd_ops aesd_env_ok True 3 40 demo_host [] demo_joining"
proof -
  let ?run = "host_run aesd_ops aesd_env_ok True 3 40 demo_host []"
  note defs = main_step_def main_env_ok_def demo_main_def demo_host_def demo_joining_def with_proc_def spawn_def Let_def
    malloc_def malloc_contract_def sizeof_thread_arg_def sizeof_thread_node_def
  have low: "lowest_fd (fds (sproc demo_server)) = Some 4" by simp
  let ?s1 = "demo_host\<lparr>mphase := In_accept\<rparr>"
  have r1: "?run ?s1" by (rule host_into_accept(2) [OF Host_none]) (simp_all add: demo_host_def)
  let ?q = "(sproc demo_server)\<lparr>uheap := [40 \<mapsto> replicate 64 None], fds := (fds (sproc demo_server))(4 \<mapsto> Sock)\<rparr>"
  let ?s2 = "(with_proc ?q ?s1)\<lparr>mphase := Allocating 4\<rparr>"
  have r2: "?run ?s2" by (rule host_main [OF r1, of demo_main]) (simp_all add: defs low)
  let ?s3 = "(with_proc (?q\<lparr>uheap := [40 \<mapsto> replicate 64 None, 50 \<mapsto> replicate 136 None]\<rparr>) ?s1)\<lparr>mphase := Creating 4 50\<rparr>"
  have r3: "?run ?s3" by (rule host_main [OF r2, of demo_main]) (simp_all add: defs)
  let ?s4 = "(spawn 50 4 ?s3)\<lparr>mphase := Listing 7\<rparr>"
  have r4: "?run ?s4" by (rule host_main [OF r3, of demo_main]) (simp_all add: defs)
  show ?thesis by (rule host_main [OF r4, of demo_main]) (simp_all add: defs)
qed

section \<open>Properties\<close>

text \<open>
  C28.  With memory for the nodes of the list, whatever the order of the turns of all threads and of
  the signals: at most one client's thread is ever at work; whenever the main thread is back at
  its loop no thread is, and the process has exactly the descriptors and the heap it started with;
  when it has ended by itself, the status is 0 and the listening socket and the address information are gone
  too.  The device holds the lines of the clients, whole and in the order in which they were served.
\<close>

theorem one_client_at_a_time:
  assumes "host_start dev_inv file_ok sockfd info s0" "host_run aesd_ops aesd_env_ok True sockfd info s0 ws s"
  shows "(\<forall>t u. alive s t \<longrightarrow> alive s u \<longrightarrow> t = u) \<and>
    (mphase s \<in> {Testing, Calling, In_accept} \<longrightarrow> (\<forall>t. \<not> alive s t) \<and>
       fds (proc_of s) = fds (proc_of s0) \<and> uheap (proc_of s) = uheap (proc_of s0)) \<and>
    (\<forall>status. mphase s = Exited status \<longrightarrow> status = 0 \<and> (\<forall>t. \<not> alive s t) \<and>
       fds (proc_of s) = (fds (proc_of s0))(nat sockfd := None) \<and>
       uheap (proc_of s) = (uheap (proc_of s0))(info := None)) \<and>
    (\<forall>w \<in> set ws. newline \<in> set w) \<and>
    abs_dev (devst (proc_of s)) = fold spec_write ws (abs_dev (devst (proc_of s0)))"
proof -
  have run: "host_inv dev_inv file_ok (fds (proc_of s0)) (uheap (proc_of s0)) sockfd info s"
    "\<forall>w \<in> set ws. newline \<in> set w"
    "abs_dev (devst (proc_of s)) = fold spec_write ws (abs_dev (devst (proc_of s0)))"
    using aesdchar.host_run_inv [OF assms(2,1)] by auto
  have srv: "serves (fds (proc_of s0)) (uheap (proc_of s0)) sockfd info s" by (rule host_invD(3) [OF run(1)])
  have "idle (fds (proc_of s0)) (uheap (proc_of s0)) s" if "mphase s \<in> {Testing, Calling, In_accept}"
    using srv that by (auto simp: serves_def)
  moreover have "status = 0 \<and> idle ((fds (proc_of s0))(nat sockfd := None)) ((uheap (proc_of s0))(info := None)) s"
    if "mphase s = Exited status" for status
    using srv that by (simp add: serves_def)
  ultimately show ?thesis
    using one_alive [OF run(1)] run(2,3) idle_alive idleD(2,3) by (intro conjI allI impI; blast)
qed

theorem one_client_at_a_time_witness:
  "\<exists>s :: (kst, file_t) host. mphase s = Joining False [(7, 51)] \<and> alive s 7 \<and> (\<forall>t. alive s t \<longrightarrow> t = 7)"
proof -
  have "alive demo_joining 7" by (simp add: alive_def demo_joining_def)
  with one_client_at_a_time [OF demo_host_start demo_joins] show ?thesis
    by (intro exI [of _ demo_joining]) (auto simp: demo_joining_def)
qed



text \<open>
  C31.  Where a signal finds the main thread.  While it waits in \<^verbatim>\<open>accept\<close>, the signal ends the program:
  \<^verbatim>\<open>accept\<close> returns, and whatever happens around it the main thread reaches the end with status 0 in
  its next three steps, without another client.  But if the same signal comes between the test of
  the flag and the call, it is lost to the loop: the main thread goes into \<^verbatim>\<open>accept\<close> with the flag
  set, and waits there as long as no client comes; one that comes is accepted and served.
\<close>

theorem signal_before_accept_waits:
  assumes "host_start dev_inv file_ok sockfd info s0" "host_run aesd_ops aesd_env_ok True sockfd info s0 ws s"
  shows "(mphase s = In_accept \<longrightarrow>
       (\<forall>env. \<exists>s'. main_steps 3 sockfd info env (signal_step s) = Some (Done s') \<and> mphase s' = Exited 0)) \<and>
    (mphase s = Calling \<longrightarrow>
       (\<forall>env. main_steps 1 sockfd info env (signal_step s) = Some (Done (s\<lparr>quit := True, mphase := In_accept\<rparr>)) \<and>
          (accepts env = Nobody \<longrightarrow> main_steps 2 sockfd info env (signal_step s) = Some Blocked) \<and>
          (\<forall>c. accepts env = Comes \<longrightarrow> lowest_fd (fds (proc_of s)) = Some c \<longrightarrow>
             (\<exists>s'. main_steps 2 sockfd info env (signal_step s) = Some (Done s') \<and> mphase s' = Allocating c))))"
proof -
  have srv: "serves (fds (proc_of s0)) (uheap (proc_of s0)) sockfd info s"
    using host_invD(3) aesdchar.host_run_inv [OF assms(2,1)] by blast
  have one: "1 = Suc 0" and two: "2 = Suc (Suc 0)" and three: "3 = Suc (Suc (Suc 0))" by simp_all
  have "\<exists>s'. main_steps 3 sockfd info env (signal_step s) = Some (Done s') \<and> mphase s' = Exited 0"
    if "mphase s = In_accept" for env
  proof -
    have "listed s = []" "uheap (proc_of s) info \<noteq> None"
      using srv that host_start_inv(5) [OF assms(1)] idleD(3) by (fastforce simp: serves_def)+
    then show ?thesis
      using that host_start_inv(4) [OF assms(1)] unfolding three
      by (auto simp: main_step_def signal_step_def freeaddrinfo_def free_def clean_def Let_def)
  qed
  moreover have "main_steps 1 sockfd info env (signal_step s) = Some (Done (s\<lparr>quit := True, mphase := In_accept\<rparr>)) \<and>
      (accepts env = Nobody \<longrightarrow> main_steps 2 sockfd info env (signal_step s) = Some Blocked) \<and>
      (\<forall>c. accepts env = Comes \<longrightarrow> lowest_fd (fds (proc_of s)) = Some c \<longrightarrow>
         (\<exists>s'. main_steps 2 sockfd info env (signal_step s) = Some (Done s') \<and> mphase s' = Allocating c))"
    if "mphase s = Calling" for env
    using that unfolding one two by (simp add: main_step_def signal_step_def Let_def)
  ultimately show ?thesis by blast
qed

theorem signal_before_accept_waits_witness:
  "(\<exists>s'. main_steps 3 3 40 (demo_main\<lparr>accepts := Nobody\<rparr>) (signal_step (demo_host\<lparr>mphase := In_accept\<rparr>)) = Some (Done s') \<and>
      mphase s' = Exited 0) \<and>
   main_steps 2 3 40 (demo_main\<lparr>accepts := Nobody\<rparr>) (signal_step (demo_host\<lparr>mphase := Calling\<rparr>)) = Some Blocked"
proof -
  have "mphase demo_host = Testing" "\<not> quit demo_host" by (simp_all add: demo_host_def)
  note runs = host_into_accept(1,2) [OF Host_none this]
  show ?thesis
    using signal_before_accept_waits [OF demo_host_start runs(1)] signal_before_accept_waits [OF demo_host_start runs(2)]
    by simp
qed

text \<open>
  C32.  A thread whose node could not be allocated is not joined, so a client can be accepted while
  it works.  If that happens between its closing the file and opening it again, the client gets
  the number of the file, and the thread closes the client's socket at its end, before the client
  has a thread of its own.
\<close>

theorem unlisted_thread_closes_client:
  assumes "pool_inv dev_inv file_ok (crew s)" "mphase s = In_accept"
    and "workers (crew s) t = Some (args, c, Reopening (int fd) b)"
    and "lowest_fd (fds (proc_of s)) = Some fd" "lowest_fd ((fds (proc_of s))(fd \<mapsto> Sock)) = Some fd2"
  shows "\<exists>s' out. host_run aesd_ops aesd_env_ok False sockfd info s [] s' \<and> mphase s' = Allocating fd \<and>
    workers (crew s') t = Some (args, c, Ended out) \<and> fds (proc_of s') fd = None"
  by (rule aesdchar.accept_race [OF assms, of "demo_env []"]) simp

theorem unlisted_thread_closes_client_witness:
  "\<exists>(s :: (kst, file_t) host) out. mphase s = Allocating 5 \<and> workers (crew s) 7 = Some (50, 4, Ended out) \<and>
     fds (proc_of s) 5 = None"
proof -
  let ?q = "pair_pool Map.empty [60 \<mapsto> replicate 1024 None] True False (Reopening (int 5) 60) Opening"
  let ?s = "\<lparr>crew = ?q, mphase = In_accept, listed = [], next_id = 9, quit = False\<rparr>"
  have "pool_inv dev_inv file_ok (crew ?s)"
    by (auto simp: pool_inv_def shared_ok_def thread_ok_def apart_def blocks_def demo_fds split: if_splits)
  moreover have "lowest_fd (fds (proc_of ?s)) = Some 5" by simp
  moreover have "lowest_fd ((fds (proc_of ?s))(5 \<mapsto> Sock)) = Some 6"
    by (simp add: demo_fds) (rule lowest_fdI; auto)
  ultimately obtain s' :: "(kst, file_t) host" and out where "mphase s' = Allocating 5" "workers (crew s') 7 = Some (50, 4, Ended out)"
    "fds (proc_of s') 5 = None"
    using unlisted_thread_closes_client [of ?s 7 50 4 5 60 6 3 40] by auto
  then show ?thesis by blast
qed

end
