(* ===== verification/Socket_Answers.thy ===== *)
theory Socket_Answers
  imports Socket_Concurrent
begin

text \<open>
  What the clients of the whole process get: however the turns of the threads, the steps of the
  main thread and the signals are ordered, a thread answers from the position its own request asks
  for, out of the contents its own request has left in the device.
\<close>

section \<open>The position of an answer\<close>

text \<open>
  \<open>ws\<close> are the lines stored since the thread started and \<open>cs\<close> the commands in the device: a thread
  that has stored its line answers from the start, one that has stored nothing from the position
  of a seek command.
\<close>

definition answers_from :: "byte list list \<Rightarrow> byte list list \<Rightarrow> nat \<Rightarrow> bool" where
  "answers_from ws cs pos \<longleftrightarrow>
     (\<exists>bs. ws = [bs]) \<and> pos = 0 \<or> ws = [] \<and> (\<exists>bs. seek_request bs \<and> request_pos bs cs = Some pos)"

definition file_at :: "('f \<Rightarrow> nat) \<Rightarrow> ('d, 'f) proc \<Rightarrow> int \<Rightarrow> nat \<Rightarrow> bool" where
  "file_at fpos p fd pos \<longleftrightarrow> (\<exists>f. fds p (nat fd) = Some (Dev f) \<and> fpos f = pos)"

fun answering :: "('f \<Rightarrow> nat) \<Rightarrow> byte list list \<Rightarrow> byte list list \<Rightarrow> ('d, 'f) proc \<Rightarrow> phase \<Rightarrow> bool" where
  "answering fpos ws cs p Opening \<longleftrightarrow> ws = []"
| "answering fpos ws cs p (Receiving fd) \<longleftrightarrow> ws = []"
| "answering fpos ws cs p (Storing fd b n) \<longleftrightarrow> ws = []"
| "answering fpos ws cs p (Replying fd) \<longleftrightarrow>
     (if ioctl_just_performed p then \<exists>pos. answers_from ws cs pos \<and> file_at fpos p fd pos else answers_from ws cs 0)"
| "answering fpos ws cs p (Reopening fd b) \<longleftrightarrow> answers_from ws cs 0"
| "answering fpos ws cs p (Sending old fd b) \<longleftrightarrow> (\<exists>pos. answers_from ws cs pos \<and> file_at fpos p fd pos)"
| "answering fpos ws cs p (Closing fd out) \<longleftrightarrow> True"
| "answering fpos ws cs p (Ended out) \<longleftrightarrow> True"

text \<open>Only the descriptors and the flag of the process matter.\<close>

lemma answering_cong:
  assumes "fds p' = fds p" "ioctl_just_performed p' = ioctl_just_performed p"
  shows "answering fpos ws cs p' ph = answering fpos ws cs p ph"
  using assms by (cases ph) (simp_all add: file_at_def)

section \<open>Turns\<close>

context char_device begin

abbreviation cmds :: "('d, 'f) proc \<Rightarrow> byte list list" where
  "cmds p \<equiv> fst (content (devst p))"

text \<open>The critical section: a line has been stored, or the file is at the position sought.\<close>

lemma storing_answer:
  assumes sh: "shared_ok inv fok p" and ok: "thread_ok p args c (Storing fd b n)"
    and env: "turn_env env_ok env (Storing fd b n) p"
    and run: "thread_turn ops env args (int c) (Storing fd b n) p = Some (Done (ph', p'))"
  shows "answering fpos (stored_line (uheap p) (Storing fd b n) ph') (cmds p') p' ph'"
proof -
  note t = ok [unfolded thread_ok_def, simplified]
  have free: "\<not> rw_held p" using run by (auto simp: thread_turn_def store_request_def)
  have ifd: "int (nat fd) = fd" using t by simp
  obtain bs rest where bs: "uheap p b = Some (map Some bs @ Some (CHR 0x00) # rest)" "unat n = length bs"
    "newline \<in> set bs" "length bs \<le> max_rw_count" using t by (auto simp: request_in_def)
  define h0 where "h0 = (uheap p)(b := None)"
  have up: "uheap p = h0(b \<mapsto> map Some bs @ Some (CHR 0x00) # rest)" "h0 b = None" using bs(1) by (auto simp: h0_def)
  have rd: "mem_read (uheap p) b 0 (unat n) = Some bs" unfolding bs(2) up(1) by (rule mem_read_prefix)
  obtain r where st: "store_request ops (write_envs env) p fd b n = Some (Done (r, p'))"
    and ph': "ph' = (if 0 < r then Replying fd else Closing fd [])"
    using run by (auto simp: thread_turn_def split: bind_splits outcome.splits)
  show ?thesis
  proof (cases "fds p (nat fd)")
    case None
    then have "r = - 1"
      using store_request_closed [of p "nat fd" n bs h0 b rest "write_envs env"] free bs(2) up t st ifd by simp
    then show ?thesis by (simp add: ph')
  next
    case (Some x)
    then obtain f where f: "fds p (nat fd) = Some (Dev f)" using t by (cases x) auto
    have "bs \<noteq> []" using bs(3) by auto
    moreover have "env_ok (write_envs env bs) (devst p) bs" using env by (simp add: turn_env_def)
    ultimately obtain f' where h: "fds p' = (fds p)(nat fd \<mapsto> Dev f')"
      "handled (write_envs env) bs (devst p) (ioctl_just_performed p) f' (devst p') (ioctl_just_performed p') r"
      using store_request_run [of p "nat fd" f "write_envs env" bs h0 b rest n, unfolded ifd] f sh free up t bs(2) st
      by (auto simp: shared_ok_def)
    show ?thesis
      using h rd by (auto simp: ph' handled_def seek_done_def write_done_def stored_line_def answers_from_def file_at_def
          split: option.splits if_splits)
  qed
qed

text \<open>The sending loop delivers the contents from the position of its file.\<close>

lemma sending_answer:
  assumes sh: "shared_ok inv fok p" and ok: "thread_ok p args c (Sending old fd b)" and at: "file_at fpos p fd pos"
  shows "\<exists>p'. thread_turn ops env args (int c) (Sending old fd b) p = Some (Done
    (Closing old (client_gets (read_signals env) (send_results env) 0 (drop pos (device_bytes (devst p)))), p'))"
proof -
  note t = ok [unfolded thread_ok_def, simplified]
  obtain blk where blk: "uheap p b = Some blk" "length blk = 1024" using t by auto
  obtain f where f: "fds p (nat fd) = Some (Dev f)" "fpos f = pos" using at by (auto simp: file_at_def)
  have ifd: "int (nat fd) = fd" using t by simp
  define h0 where "h0 = (uheap p)(b := None)"
  have up: "uheap p = h0(b \<mapsto> blk)" using blk(1) by (auto simp: h0_def)
  obtain r f' blk' where "reply_loop ops (read_signals env) (send_results env) 0 p (int c) fd b [] =
      Some (r, client_gets (read_signals env) (send_results env) 0 (drop pos (device_bytes (devst p))),
        reading p h0 b blk' (nat fd) f')"
    using reply_loop_run [OF _ f(1) _ _ up blk(2), of "int c" "read_signals env" "send_results env" 0 "[]"]
      sh f t unfolding ifd by (auto simp: shared_ok_def)
  moreover have "free (h0(b \<mapsto> blk')) b = Some h0" using t by (simp add: h0_def)
  ultimately show ?thesis by (simp add: thread_turn_def)
qed

lemma opened_at:
  assumes "inv (devst p)" "sys_open ops ok p = (fd, p1)" "fd \<noteq> - 1"
  shows "devst p1 = devst p \<and> file_at fpos p1 fd 0"
  using assms open_spec [OF assms(1)]
  by (auto simp: sys_open_def file_at_def split: option.splits if_splits)

lemma answering_turn:
  assumes sh: "shared_ok inv fok p" and ok: "thread_ok p args c ph" and env: "turn_env env_ok env ph p"
    and an: "answering fpos ws (cmds p) p ph" and run: "thread_turn ops env args (int c) ph p = Some (Done (ph', p'))"
  shows "answering fpos (ws @ stored_line (uheap p) ph ph') (cmds p') p' ph'"
proof (cases ph)
  case Opening
  then show ?thesis using an run by (auto simp: thread_turn_def stored_line_def Let_def split: if_splits bind_splits prod.splits)
next
  case (Receiving fd)
  then show ?thesis
    using an run
    by (auto simp: thread_turn_def receive_turn_def stored_line_def Let_def
        split: if_splits bind_splits prod.splits recv_exit.splits)
next
  case (Storing fd b n)
  then show ?thesis using storing_answer [of p args c fd b n env ph' p'] sh ok env an run by simp
next
  case (Replying fd)
  then show ?thesis
    using an run
    by (auto simp: thread_turn_def reply_turn_def stored_line_def Let_def file_at_def sys_close_def
        split: if_splits prod.splits)
next
  case (Reopening fd b)
  have dv: "inv (devst p)" using sh by (simp add: shared_ok_def)
  show ?thesis
    using an run opened_at [OF dv, of "reopen_succeeds env"]
    by (auto simp: Reopening thread_turn_def reopen_turn_def stored_line_def file_at_def
        split: if_splits bind_splits prod.splits)
next
  case (Sending old fd b)
  then show ?thesis using run by (auto simp: thread_turn_def split: bind_splits)
next
  case (Closing fd out)
  then show ?thesis using run by (auto simp: thread_turn_def Let_def split: bind_splits)
qed (use run in \<open>auto simp: thread_turn_def\<close>)

end

section \<open>Runs\<close>

lemma main_step_worker:
  assumes "main_step sockfd info env s = Some (Done s')" "workers (crew s) t = Some w" "t \<noteq> next_id s"
  shows "workers (crew s') t = Some w"
  using assms
  by (auto simp: main_step_def spawn_def Let_def
      split: main_phase.splits accept_result.splits option.splits list.splits prod.splits if_splits bind_splits)

text \<open>While a thread is at work the main thread leaves the descriptors and the flag alone.\<close>

lemma main_step_beside:
  assumes h: "host_inv dok fok fb hb sockfd info s" and al: "alive s t"
    and step: "main_step sockfd info env s = Some (Done s')"
  shows "fds (proc_of s') = fds (proc_of s) \<and> ioctl_just_performed (proc_of s') = ioctl_just_performed (proc_of s)"
proof -
  have "\<exists>fb hb tid. working fb hb tid s"
    using host_invD(3) [OF h] al idle_alive by (fastforce simp: serves_def split: main_phase.splits)
  then have "mphase s \<in> range Listing \<or> (\<exists>final cur. mphase s = Joining final cur) \<or> mphase s \<in> range Died"
    using host_invD(3) [OF h] al idle_alive by (fastforce simp: serves_def split: main_phase.splits)
  then show ?thesis
    using step by (auto simp: main_step_def Let_def split: list.splits prod.splits if_splits bind_splits)
qed

context char_device begin

definition answers :: "nat \<Rightarrow> byte list list \<Rightarrow> ('d, 'f) host \<Rightarrow> bool" where
  "answers t ws s \<longleftrightarrow> (\<forall>args c ph. workers (crew s) t = Some (args, c, ph) \<longrightarrow> live ph \<longrightarrow>
     answering fpos ws (cmds (proc_of s)) (proc_of s) ph)"

lemma answers_thread:
  assumes h: "good_host fb hb sockfd info s" and st: "pool_step ops env_ok (crew s) w q" and an: "answers t ws s"
  shows "answers t (ws @ w) (s\<lparr>crew := q\<rparr>)"
  using st
proof cases
  case (Turn u args c ph env ph' p')
  note d = host_invD [OF h]
  show ?thesis
  proof (cases "u = t")
    case True
    then have "answering fpos ws (cmds (proc_of s)) (proc_of s) ph" using an Turn(3,4) by (simp add: answers_def)
    from answering_turn [OF pool_invD(1,2) [OF d(1)] Turn(5) this Turn(6)] Turn(3)
    show ?thesis by (auto simp: answers_def Turn(1,2) True)
  next
    case False
    then have "\<not> alive s t" using one_alive [OF h, of t u] Turn(3,4) by (auto simp: alive_def)
    then show ?thesis using False by (auto simp: answers_def Turn(2) alive_def)
  qed
qed

lemma answers_main:
  assumes h: "good_host fb hb sockfd info s" and step: "main_step sockfd info env s = Some (Done s')"
    and an: "answers t ws s" and w: "workers (crew s) t = Some x"
  shows "answers t ws s'"
proof (cases "alive s t")
  case False
  have "t \<noteq> next_id s" using host_invD(2) [OF h, of t] w by auto
  then show ?thesis using main_step_worker [OF step w] False w by (auto simp: answers_def alive_def)
next
  case True
  have "t \<noteq> next_id s" using host_invD(2) [OF h, of t] w by auto
  note same = main_step_worker [OF step w this] main_step_beside [OF h True step] main_step_devst [OF step]
  have eq: "answering fpos ws (cmds (proc_of s')) (proc_of s') ph = answering fpos ws (cmds (proc_of s)) (proc_of s) ph" for ph
    unfolding same(3) by (rule answering_cong) (use same(2) in simp_all)
  show ?thesis using an w unfolding answers_def eq same(1) by blast
qed

lemma pool_step_worker: "pool_step ops env_ok q w q' \<Longrightarrow> workers q t \<noteq> None \<Longrightarrow> workers q' t \<noteq> None"
  by (auto elim!: pool_step.cases)

lemma host_step_answers:
  assumes h: "good_host fb hb sockfd info s" and st: "host_step ops env_ok True sockfd info s w s'"
    and an: "answers t ws s" and x: "workers (crew s) t = Some x"
  shows "answers t (ws @ w) s' \<and> workers (crew s') t \<noteq> None"
  using st
proof cases
  case (Thread_turn q)
  then show ?thesis using answers_thread [OF h Thread_turn(3) an] pool_step_worker [OF Thread_turn(3), of t] x by simp
next
  case (Main_turn env)
  moreover have "t \<noteq> next_id s" using host_invD(2) [OF h, of t] x by auto
  ultimately show ?thesis using answers_main [OF h Main_turn(4) an x] main_step_worker [OF Main_turn(4) x] by simp
next
  case Signal
  then show ?thesis using an x by (simp add: answers_def signal_step_def)
next
  case Fatal
  then show ?thesis using an x by (simp add: answers_def)
qed

lemma host_run_answers:
  assumes "host_run ops env_ok True sockfd info s1 ws s" "good_host fb hb sockfd info s1"
    and b: "0 \<le> sockfd" "fb (nat sockfd) = Some Sock" "info \<noteq> 0" "hb info \<noteq> None"
    and "workers (crew s1) t = Some (args, c, Opening)"
  shows "good_host fb hb sockfd info s \<and> answers t ws s \<and> workers (crew s) t \<noteq> None \<and> (\<forall>l \<in> set ws. newline \<in> set l) \<and>
    content (devst (proc_of s)) = fold spec_write ws (content (devst (proc_of s1)))"
  using assms
proof (induction rule: host_run.induct)
  case Host_none
  then show ?case by (simp add: answers_def)
next
  case (Host_step ws s w s')
  then have IH: "good_host fb hb sockfd info s" "answers t ws s" "workers (crew s) t \<noteq> None" "\<forall>l \<in> set ws. newline \<in> set l"
    "content (devst (proc_of s)) = fold spec_write ws (content (devst (proc_of s1)))" by blast+
  then obtain y where y: "workers (crew s) t = Some y" by blast
  show ?case
    using host_step_inv [OF Host_step(2) IH(1) b] host_step_answers [OF IH(1) Host_step(2) IH(2) y] IH(4,5) by auto
qed

text \<open>A line that has been received is stored, and the thread goes on to send its reply.\<close>

lemma line_to_sending:
  fixes env :: "'e thread_env"
  assumes inv: "pool_inv inv fok s" and w: "workers s t = Some (args, c, Storing (int fd) b n)"
    and line: "request_in (uheap (shared s)) b n bs" "\<not> seek_request bs" "fds (shared s) fd = Some (Dev f)" "\<not> rw_held (shared s)"
    and env: "env_good (write_envs env bs)" "turn_env env_ok env (Storing (int fd) b n) (shared s)" "malloc_addr env \<noteq> 0"
      "uheap (shared s) (malloc_addr env) = None" "reopen_succeeds env"
    and low: "lowest_fd ((fds (shared s))(fd := None)) = Some fd"
  shows "\<exists>s'. pool_run ops env_ok s [bs] s' \<and> workers s' t = Some (args, c, Sending (int fd) (int fd) (malloc_addr env))"
proof -
  let ?p = "shared s" and ?m = "malloc_addr env"
  let ?to = "\<lambda>q p ph. q\<lparr>shared := p, workers := (workers q)(t \<mapsto> (args, c, ph))\<rparr>"
  obtain p1 f' where p1: "thread_turn ops env args (int c) (Storing (int fd) b n) ?p = Some (Done (Replying (int fd), p1))"
    "stored_line (uheap ?p) (Storing (int fd) b n) (Replying (int fd)) = [bs]" "\<not> ioctl_just_performed p1" "\<not> rw_held p1"
    "uheap p1 = (uheap ?p)(b := None)" "fds p1 = (fds ?p)(fd \<mapsto> Dev f')"
    using storing_line [OF pool_invD(1) [OF inv] pool_invD(2) [OF inv w] env(2) line(4,1,2) _ env(1)] line(3) by auto
  define p2 where "p2 = sys_close (int fd) (p1\<lparr>uheap := (uheap p1)(?m \<mapsto> replicate 1024 None), rw_held := True\<rparr>)"
  have "inv (devst p1)"
    using pool_run_inv [OF Run_turn [OF Run_none Turn [OF w _ env(2) p1(1)]] inv] by (simp add: pool_inv_def shared_ok_def)
  moreover have "devst p2 = devst p1" by (simp add: p2_def sys_close_def)
  ultimately have dv: "inv (devst p1)" "devst p2 = devst p1" by blast+
  obtain g where g: "dev_open ops (devst p2) = (g, devst p2)"
    using open_spec [OF dv(1)] dv(2) by auto
  have "fds p2 = (fds ?p)(fd := None)" by (simp add: p2_def sys_close_def p1(6))
  then have o: "sys_open ops True p2 = (int fd, p2\<lparr>fds := (fds p2)(fd \<mapsto> Dev g)\<rparr>)"
    using low g by (cases p2) (simp add: sys_open_def)
  have "thread_turn ops env args (int c) (Replying (int fd)) p1 = Some (Done (Reopening (int fd) ?m, p2))"
    using env(3) p1(3,4) by (simp add: thread_turn_def reply_turn_def malloc_def p2_def Let_def)
  moreover have "turn_env env_ok env (Replying (int fd)) p1" using env(4) p1(5) by (simp add: turn_env_def malloc_contract_def)
  ultimately have r2: "pool_run ops env_ok (?to s p1 (Replying (int fd))) [] (?to (?to s p1 (Replying (int fd))) p2 (Reopening (int fd) ?m))"
    using silent_turn [of "?to s p1 (Replying (int fd))" t args c "Replying (int fd)" env_ok env ops "Reopening (int fd) ?m" p2]
    by (simp add: stored_line_def)
  let ?s2 = "?to (?to s p1 (Replying (int fd))) p2 (Reopening (int fd) ?m)"
  have "thread_turn ops env args (int c) (Reopening (int fd) ?m) p2 =
      Some (Done (Sending (int fd) (int fd) ?m, p2\<lparr>fds := (fds p2)(fd \<mapsto> Dev g), ioctl_just_performed := False\<rparr>))"
    using env(5) o by (simp add: thread_turn_def reopen_turn_def)
  then have "\<exists>s'. pool_run ops env_ok ?s2 [] s' \<and> workers s' t = Some (args, c, Sending (int fd) (int fd) ?m)"
    using silent_turn [of ?s2 t args c "Reopening (int fd) ?m" env_ok env ops] by (fastforce simp: turn_env_def stored_line_def)
  then obtain s' where s': "pool_run ops env_ok ?s2 [] s'" "workers s' t = Some (args, c, Sending (int fd) (int fd) ?m)" by blast
  have "pool_run ops env_ok s [bs] (?to s p1 (Replying (int fd)))"
    using Run_turn [OF Run_none Turn [OF w _ env(2) p1(1)]] p1(2) by simp
  from pool_run_trans [OF silent_runs [OF s'(1) r2] this] s'(2) show ?thesis by auto
qed

end

section \<open>A client comes and is answered\<close>

text \<open>Thread 7 of \<open>demo_joining\<close> opens the device and receives its line.\<close>

definition demo_storing :: "(kst, file_t) pool" where
  "demo_storing = (crew demo_joining)\<lparr>shared := (proc_of demo_joining)\<lparr>fds := (fds (proc_of demo_joining))(5 \<mapsto> Dev demo_open_file),
     uheap := (uheap (proc_of demo_joining))(60 \<mapsto> line_block)\<rparr>, workers := [7 \<mapsto> (50, 4, Storing 5 60 2)]\<rparr>"

lemma demo_joining_fds: "fds (proc_of demo_joining) = [0 \<mapsto> Sock, 1 \<mapsto> Sock, 2 \<mapsto> Sock, 3 \<mapsto> Sock, 4 \<mapsto> Sock]"
  by (simp add: demo_joining_def demo_server_def)

lemma demo_joining_sel [simp]:
  "uheap (proc_of demo_joining) = [40 \<mapsto> replicate 64 None, 50 \<mapsto> replicate 136 None, 51 \<mapsto> replicate 16 None]"
  "workers (crew demo_joining) = [7 \<mapsto> (50, 4, Opening)]" "\<not> rw_held (proc_of demo_joining)"
  "devst (proc_of demo_joining) = demo_st"
  by (simp_all add: demo_joining_def demo_server_def)

lemma demo_receives: "pool_run aesd_ops aesd_env_ok (crew demo_joining) [] demo_storing"
proof -
  let ?env = "demo_env [CHR ''z'', newline]" and ?q = "crew demo_joining"
  let ?p1 = "(proc_of demo_joining)\<lparr>fds := (fds (proc_of demo_joining))(5 \<mapsto> Dev demo_open_file)\<rparr>"
  let ?s1 = "?q\<lparr>shared := ?p1, workers := [7 \<mapsto> (50, 4, Receiving 5)]\<rparr>"
  have "lowest_fd (fds (proc_of demo_joining)) = Some 5" by (rule lowest_fdI) (auto simp: demo_joining_fds)
  then have "thread_turn aesd_ops ?env 50 (int 4) Opening (shared ?q) = Some (Done (Receiving 5, ?p1))"
    by (simp add: thread_turn_def sys_open_def aesd_ops_def aesd_open_def)
  from silent_turn [OF _ _ _ this, of 7 aesd_env_ok] have r1: "pool_run aesd_ops aesd_env_ok ?q [] ?s1"
    by (simp add: turn_env_def stored_line_def)
  let ?p2 = "?p1\<lparr>uheap := (uheap (proc_of demo_joining))(60 \<mapsto> line_block)\<rparr>"
  have "unat (CLIENT_BUFFER_LEN - 1) = 1023" by (simp add: CLIENT_BUFFER_LEN_def)
  then have "thread_turn aesd_ops ?env 50 (int 4) (Receiving 5) (shared ?s1) = Some (Done (Storing 5 60 2, ?p2))"
    by (simp add: thread_turn_def receive_turn_def calloc_def fd_entry_def demo_joining_fds recv_loop.simps
        mem_write_def mem_read_def Let_def line_block_def)
  moreover have "turn_env aesd_env_ok ?env (Receiving 5) (shared ?s1)"
    by (auto simp: turn_env_def malloc_contract_def realloc_contract_def demo_env_def max_rw_count_def)
  ultimately have "pool_run aesd_ops aesd_env_ok ?s1 [] (?s1\<lparr>shared := ?p2, workers := [7 \<mapsto> (50, 4, Storing 5 60 2)]\<rparr>)"
    using silent_turn [of ?s1 7 50 4 "Receiving 5" aesd_env_ok ?env aesd_ops "Storing 5 60 2" ?p2] by (simp add: stored_line_def)
  from silent_runs [OF this r1] show ?thesis by (simp add: demo_storing_def)
qed

lemma demo_sends:
  "\<exists>q. pool_run aesd_ops aesd_env_ok (crew demo_joining) [[CHR ''z'', newline]] q \<and> workers q 7 = Some (50, 4, Sending 5 5 61)"
proof -
  let ?env = "(demo_env [])\<lparr>malloc_addr := 61\<rparr>" and ?line = "[CHR ''z'', newline]"
  have "pool_inv dev_inv file_ok (crew demo_joining)"
    using host_start_inv(1) [OF demo_host_start] aesdchar.host_run_inv [OF demo_joins demo_host_start]
    by (simp add: host_inv_def)
  then have inv: "pool_inv dev_inv file_ok demo_storing" using aesdchar.pool_run_inv [OF demo_receives] by blast
  have st: "workers demo_storing 7 = Some (50, 4, Storing (int 5) 60 2)" "fds (shared demo_storing) 5 = Some (Dev demo_open_file)"
    "request_in (uheap (shared demo_storing)) 60 2 ?line" "\<not> rw_held (shared demo_storing)"
    "uheap (shared demo_storing) (malloc_addr ?env) = None" "devst (shared demo_storing) = devst demo_proc"
    by (simp_all add: demo_storing_def request_in_def line_block_def max_rw_count_def)
  have env: "turn_env aesd_env_ok ?env (Storing (int 5) 60 2) (shared demo_storing)"
    using demo_write_env [of "[]"] st(6) by (simp add: turn_env_def)
  have low: "lowest_fd ((fds (shared demo_storing))(5 := None)) = Some 5"
    by (rule lowest_fdI) (auto simp: demo_storing_def demo_joining_fds)
  have line: "\<not> seek_request ?line" "aesd_env_good (write_envs ?env ?line)" "malloc_addr ?env \<noteq> 0" "reopen_succeeds ?env"
    by (simp_all add: seek_request_def SEEK_COMMAND_def aesd_env_good_def)
  from aesdchar.line_to_sending [OF inv st(1,3) line(1) st(2,4) line(2) env line(3) st(5) line(4) low]
  obtain q where "pool_run aesd_ops aesd_env_ok demo_storing [?line] q" "workers q 7 = Some (50, 4, Sending 5 5 61)" by auto
  with pool_run_trans [OF this(1) demo_receives] show ?thesis by auto
qed

section \<open>Properties\<close>

text \<open>
  C29.  In the whole process with memory for the list nodes, whatever the order of turns, steps and
  signals, a thread that has come to send its reply has either stored exactly one line since it
  started, which completed the unfinished command as the newest one of the device, and answers from
  the start; or it has stored nothing, and answers from the position of a seek command.  Its reply
  is, chunk for chunk, what its sends transfer of the device's contents from there on: no line of
  another client comes between a client's line and its reply.
\<close>

theorem every_client_answered:
  assumes "host_start dev_inv file_ok sockfd info s0" "host_run aesd_ops aesd_env_ok True sockfd info s0 vs s1"
    and "workers (crew s1) t = Some (args, c, Opening)"
    and "host_run aesd_ops aesd_env_ok True sockfd info s1 ws s" "workers (crew s) t = Some (args', c', Sending old fd b)"
  shows "\<exists>pos.
    ((\<exists>line. newline \<in> set line \<and> ws = [line] \<and> pos = 0 \<and> abs_dev (devst (proc_of s)) =
        (push 10 (commands (devst (proc_of s1))) (pending (devst (proc_of s1)) @ line), [])) \<or>
     ws = [] \<and> abs_dev (devst (proc_of s)) = abs_dev (devst (proc_of s1)) \<and>
       (\<exists>bs. seek_request bs \<and> request_pos bs (commands (devst (proc_of s))) = Some pos)) \<and>
    (\<forall>env. \<exists>p'. thread_turn aesd_ops env args' (int c') (Sending old fd b) (proc_of s) =
       Some (Done (Closing old (client_gets (read_signals env) (send_results env) 0 (drop pos (stored (devst (proc_of s))))), p')))"
proof -
  note start = host_start_inv(2-5) [OF assms(1)]
  have h1: "host_inv dev_inv file_ok (fds (proc_of s0)) (uheap (proc_of s0)) sockfd info s1"
    using aesdchar.host_run_inv [OF assms(2,1)] by blast
  note run = aesdchar.host_run_answers [OF assms(4) h1 start assms(3)]
  then have pi: "pool_inv dev_inv file_ok (crew s)" by (simp add: host_inv_def)
  have cs: "fst (abs_dev (devst (proc_of s))) = commands (devst (proc_of s))" by (simp add: abs_dev_def)
  obtain pos where pos: "answers_from ws (commands (devst (proc_of s))) pos" "file_at (\<lambda>f. unat (f_pos f)) (proc_of s) fd pos"
    using run assms(5) by (auto simp: aesdchar.answers_def cs)
  have "\<forall>env. \<exists>p'. thread_turn aesd_ops env args' (int c') (Sending old fd b) (proc_of s) =
      Some (Done (Closing old (client_gets (read_signals env) (send_results env) 0 (drop pos (stored (devst (proc_of s))))), p'))"
    using aesdchar.sending_answer [OF pool_invD(1) [OF pi] pool_invD(2) [OF pi assms(5)] pos(2)] by (simp add: stored_def cs)
  then show ?thesis
    using pos(1) run by (intro exI [of _ pos]) (auto simp: answers_from_def abs_dev_def spec_write_newline)
qed

theorem every_client_answered_witness:
  "\<exists>s env p'. thread_turn aesd_ops env 50 4 (Sending 5 5 61) (s :: (kst, file_t) proc) =
     Some (Done (Closing 5 [CHR ''a'', CHR ''b'', newline, CHR ''c'', CHR ''d'', CHR ''e'', newline, CHR ''x'', CHR ''z'', newline], p'))"
proof -
  obtain q where q: "pool_run aesd_ops aesd_env_ok (crew demo_joining) [[CHR ''z'', newline]] q"
    "workers q 7 = Some (50, 4, Sending 5 5 61)" using demo_sends by blast
  have run: "host_run aesd_ops aesd_env_ok True 3 40 demo_joining [[CHR ''z'', newline]] (demo_joining\<lparr>crew := q\<rparr>)"
    using host_threads [OF q(1) Host_none refl] by (simp add: demo_joining_def)
  have gets: "client_gets (read_signals (demo_env [])) (send_results (demo_env [])) 0 data = data" for data
    by (rule client_gets_all) (simp_all add: exI [of _ 1024])
  show ?thesis
    using every_client_answered [OF demo_host_start demo_joins _ run, of 7 50 4 50 4 5 5 61] q(2)
    by (auto simp: abs_dev_def stored_def demo_abs push_def dest!: spec [of _ "demo_env []"]) (auto simp: gets intro!: exI)
qed

end
