(* ===== verification/Socket_Program.thy ===== *)
theory Socket_Program
  imports Socket_Startup Socket_Answers
begin

text \<open>
  The whole program of \<^verbatim>\<open>server/aesdsocket.c\<close>, from its start to its end: once a signal has
  arrived, every order of the turns of the threads and the steps of the main thread leads to the
  end of the process.
\<close>

section \<open>How far it is to the end\<close>

text \<open>The turns a thread has left at most, and the steps of the main thread when the flag is set.\<close>

fun turns_left :: "phase \<Rightarrow> nat" where
  "turns_left Opening = 7"
| "turns_left (Receiving fd) = 6"
| "turns_left (Storing fd b n) = 5"
| "turns_left (Replying fd) = 4"
| "turns_left (Reopening fd b) = 3"
| "turns_left (Sending old fd b) = 2"
| "turns_left (Closing fd out) = 1"
| "turns_left (Ended out) = 0"

fun main_left :: "main_phase \<Rightarrow> nat" where
  "main_left Calling = 11"
| "main_left In_accept = 10"
| "main_left (Allocating c) = 9"
| "main_left (Creating c a) = 8"
| "main_left (Listing tid) = 7"
| "main_left (Joining final current) = (if final then 2 else 5) + length current"
| "main_left Testing = 4"
| "main_left Cleaning = 1"
| "main_left (Exited status) = 0"
| "main_left (Died signo) = 0"

definition worker_left :: "('d, 'f) host \<Rightarrow> nat \<Rightarrow> nat" where
  "worker_left s t = (case workers (crew s) t of None \<Rightarrow> 0 | Some (args, c, ph) \<Rightarrow> turns_left ph)"

text \<open>A thread takes seven turns at most, so creating one is worth a step of the main thread.\<close>

definition steps_left :: "('d, 'f) host \<Rightarrow> nat" where
  "steps_left s = 8 * main_left (mphase s) + (\<Sum>t < next_id s. worker_left s t)"



lemma thread_turn_left:
  assumes "thread_turn ops env args c ph p = Some (Done (ph', p'))" "live ph"
  shows "turns_left ph' < turns_left ph"
  using assms
  by (cases ph) (auto simp: thread_turn_def receive_turn_def reply_turn_def reopen_turn_def Let_def
      split: if_splits bind_splits prod.splits outcome.splits recv_exit.splits)

lemma pool_step_left:
  assumes st: "pool_step ops eok (crew s) w q" and none: "\<And>t. next_id s \<le> t \<Longrightarrow> workers (crew s) t = None"
  shows "steps_left (s\<lparr>crew := q\<rparr>) < steps_left s"
  using st
proof cases
  case (Turn t args c ph env ph' p')
  note less = thread_turn_left [OF Turn(6,4)]
  have t: "t \<in> {..<next_id s}" using none [of t] Turn(3) by (cases "next_id s \<le> t") auto
  have "(\<Sum>u < next_id s. worker_left (s\<lparr>crew := q\<rparr>) u) < (\<Sum>u < next_id s. worker_left s u)"
    by (rule sum_strict_mono_ex1) (use t less Turn(3) in \<open>auto simp: worker_left_def Turn(2) intro!: bexI [of _ t]\<close>)
  then show ?thesis by (simp add: steps_left_def)
qed

text \<open>The main thread.\<close>

lemma main_step_workers:
  assumes "main_step sockfd info env s = Some (Done s')"
  shows "workers (crew s') = workers (crew s) \<and> next_id s' = next_id s \<or>
    (\<exists>c a. mphase s = Creating c a \<and> mphase s' = Listing (next_id s) \<and> next_id s' = Suc (next_id s) \<and>
       workers (crew s') = (workers (crew s))(next_id s \<mapsto> (a, c, Opening)))"
  using assms
  by (auto simp: main_step_def spawn_def Let_def
      split: main_phase.splits accept_result.splits option.splits list.splits prod.splits if_splits bind_splits)

lemma main_step_quit: "main_step sockfd info env s = Some (Done s') \<Longrightarrow> quit s' = quit s"
  by (auto simp: main_step_def spawn_def Let_def
      split: main_phase.splits accept_result.splits option.splits list.splits prod.splits if_splits bind_splits)

lemma main_step_left:
  assumes step: "main_step sockfd info env s = Some (Done s')" and q: "quit s" "running_phase (mphase s)"
    and srv: "serves fb hb sockfd info s"
  shows "main_left (mphase s') < main_left (mphase s) \<and>
    (mphase s \<notin> {Calling, In_accept} \<longrightarrow> mphase s' \<notin> {Calling, In_accept})"
  using assms
  by (auto simp: main_step_def spawn_def serves_def Let_def
      split: main_phase.splits accept_result.splits option.splits list.splits prod.splits if_splits bind_splits)

lemma main_steps_left:
  assumes step: "main_step sockfd info env s = Some (Done s')" and q: "quit s" "running_phase (mphase s)"
    and srv: "serves fb hb sockfd info s"
  shows "steps_left s' < steps_left s"
proof -
  note less = main_step_left [OF assms, THEN conjunct1]
  consider "workers (crew s') = workers (crew s)" "next_id s' = next_id s"
    | c a where "mphase s = Creating c a" "mphase s' = Listing (next_id s)" "next_id s' = Suc (next_id s)"
      "workers (crew s') = (workers (crew s))(next_id s \<mapsto> (a, c, Opening))"
    using main_step_workers [OF step] by blast
  then show ?thesis
  proof cases
    case 1
    then have "worker_left s' = worker_left s" by (simp add: worker_left_def fun_eq_iff)
    then show ?thesis using less 1 by (simp add: steps_left_def)
  next
    case 2
    have "(\<Sum>t < next_id s. worker_left s' t) = (\<Sum>t < next_id s. worker_left s t)"
      by (rule sum.cong) (auto simp: worker_left_def 2(4))
    moreover have "worker_left s' (next_id s) = 7" by (simp add: worker_left_def 2(4))
    ultimately show ?thesis by (simp add: steps_left_def 2(1-3))
  qed
qed

section \<open>After a signal\<close>

text \<open>A step that changes the state: a second signal, and a third, may change nothing.\<close>

definition host_change ::
  "('d, 'f, 'e) dev_ops \<Rightarrow> ('e \<Rightarrow> 'd \<Rightarrow> byte list \<Rightarrow> bool) \<Rightarrow> bool \<Rightarrow> int \<Rightarrow> addr \<Rightarrow>
   ('d, 'f) host \<Rightarrow> ('d, 'f) host \<Rightarrow> bool" where
  "host_change ops eok nodes sockfd info s s' \<longleftrightarrow>
     s' \<noteq> s \<and> (\<exists>w. host_step ops eok nodes sockfd info s w s')"



text \<open>The phases of the main thread from the test of the flag to the end.\<close>

fun closes :: "main_phase \<Rightarrow> bool" where
  "closes Testing = True"
| "closes (Joining final current) = True"
| "closes Cleaning = True"
| "closes (Exited status) = True"
| "closes _ = False"

lemma main_step_closes:
  "main_step sockfd info env s = Some (Done s') \<Longrightarrow> quit s \<Longrightarrow> closes (mphase s) \<Longrightarrow> closes (mphase s')"
  by (auto simp: main_step_def Let_def split: main_phase.splits list.splits prod.splits if_splits bind_splits)

context char_device begin

lemma change_left:
  assumes ch: "host_change ops env_ok True sockfd info s s'" and h: "good_host fb hb sockfd info s" and q: "quit s"
    and b: "0 \<le> sockfd" "fb (nat sockfd) = Some Sock" "info \<noteq> 0" "hb info \<noteq> None"
  shows "steps_left s' < steps_left s \<and> good_host fb hb sockfd info s' \<and> quit s' \<and>
    (mphase s \<notin> {Calling, In_accept} \<longrightarrow> mphase s' \<notin> {Calling, In_accept})"
proof -
  obtain w where st: "host_step ops env_ok True sockfd info s w s'" and ne: "s' \<noteq> s"
    using ch by (auto simp: host_change_def)
  note d = host_invD [OF h]
  have good: "good_host fb hb sockfd info s'" using host_step_inv [OF st h b] by blast
  from st show ?thesis
  proof cases
    case (Thread_turn q)
    then show ?thesis using pool_step_left [OF Thread_turn(3) d(2)] good assms(3) by simp
  next
    case (Main_turn env)
    show ?thesis
      using main_steps_left [OF Main_turn(4) assms(3) Main_turn(2) d(3)] main_step_left [OF Main_turn(4) assms(3) Main_turn(2) d(3)]
        main_step_quit [OF Main_turn(4)] good assms(3) by simp
  next
    case Signal
    have acc: "mphase s = In_accept"
    proof (rule ccontr)
      assume "mphase s \<noteq> In_accept"
      then have "s' = s" using Signal assms(3) by (cases s) (simp add: signal_step_def)
      then show False using ne by blast
    qed
    then show ?thesis using good by (simp add: Signal signal_step_def steps_left_def worker_left_def)
  next
    case (Fatal signo)
    then have "0 < main_left (mphase s)" by (cases "mphase s") simp_all
    then show ?thesis using good assms(3) by (simp add: Fatal steps_left_def worker_left_def)
  qed
qed

lemma changes_left:
  assumes "(host_change ops env_ok True sockfd info ^^ n) s s'" "good_host fb hb sockfd info s" "quit s"
    and b: "0 \<le> sockfd" "fb (nat sockfd) = Some Sock" "info \<noteq> 0" "hb info \<noteq> None"
  shows "n + steps_left s' \<le> steps_left s \<and> good_host fb hb sockfd info s' \<and> quit s' \<and>
    (mphase s \<notin> {Calling, In_accept} \<longrightarrow> mphase s' \<notin> {Calling, In_accept})"
  using assms(1)
proof (induction n arbitrary: s')
  case 0
  then show ?case using assms(2,3) by simp
next
  case (Suc n)
  then obtain t where t: "(host_change ops env_ok True sockfd info ^^ n) s t" "host_change ops env_ok True sockfd info t s'"
    by (auto elim: relpowp_Suc_E)
  note IH = Suc.IH [OF t(1)]
  have "good_host fb hb sockfd info t" "quit t" using IH by blast+
  from change_left [OF t(2) this b] IH show ?case by auto
qed

text \<open>As long as the process has not ended, the main thread or the thread it waits for goes on.\<close>

lemma something_goes_on:
  assumes h: "good_host fb hb sockfd info s" and q: "quit s" "running_phase (mphase s)"
    and b: "0 \<le> sockfd" "fb (nat sockfd) = Some Sock" "info \<noteq> 0" "hb info \<noteq> None"
  shows "(\<forall>env. main_env_ok True env s \<longrightarrow> (mphase s = In_accept \<longrightarrow> accepts env \<noteq> Nobody) \<longrightarrow>
      (\<exists>s'. main_step sockfd info env s = Some (Done s') \<and> s' \<noteq> s)) \<or>
    (\<exists>t. goes_on ops env_ok s t)"
proof (cases "\<exists>final tid node next. mphase s = Joining final ((tid, node) # next) \<and> \<not> has_ended (workers (crew s) tid)")
  case True
  then show ?thesis using joined_goes_on [OF h] by blast
next
  case False
  have "\<exists>s'. main_step sockfd info env s = Some (Done s') \<and> s' \<noteq> s"
    if env: "main_env_ok True env s" "mphase s = In_accept \<longrightarrow> accepts env \<noteq> Nobody" for env
  proof -
    obtain res where res: "main_step sockfd info env s = Some res"
      "case res of
         Blocked \<Rightarrow> mphase s = In_accept \<and> accepts env = Nobody \<or>
           (\<exists>final tid node next. mphase s = Joining final ((tid, node) # next) \<and> \<not> has_ended (workers (crew s) tid))
       | Done s' \<Rightarrow> good_host fb hb sockfd info s'"
      using host_main_turn [OF h env(1) b] unfolding main_good_def by blast
    then obtain s' where s': "main_step sockfd info env s = Some (Done s')"
      using False env(2) by (cases res) auto
    then show ?thesis using main_steps_left [OF s' q host_invD(3) [OF h]] by auto
  qed
  then show ?thesis by blast
qed

text \<open>With no client left the main thread goes to the end by itself.\<close>

lemma ends_alone:
  assumes "good_host fb hb sockfd info s" "quit s" "\<forall>t. \<not> alive s t" "closes (mphase s)"
    and b: "0 \<le> sockfd" "fb (nat sockfd) = Some Sock" "info \<noteq> 0" "hb info \<noteq> None"
  shows "\<exists>n s'. (host_change ops env_ok True sockfd info ^^ n) s s' \<and> mphase s' = Exited 0"
  using assms(1-4)
proof (induction s rule: measure_induct_rule [of steps_left])
  case (less s)
  show ?case
  proof (cases "running_phase (mphase s)")
    case False
    then have "mphase s = Exited 0" using less(5) host_invD(3) [OF less(2)] by (cases "mphase s") (auto simp: serves_def)
    then show ?thesis by (intro exI [of _ 0]) auto
  next
    case True
    have env: "main_env_ok True undefined s" "mphase s \<noteq> In_accept"
      using less(5) True by (cases "mphase s"; simp add: main_env_ok_def)+
    have "\<not> goes_on ops env_ok s t" for t using less(4) by (auto simp: goes_on_def alive_def)
    with something_goes_on [OF less(2,3) True b] env obtain t where
      t: "main_step sockfd info undefined s = Some (Done t)" "t \<noteq> s" by blast
    have st: "host_step ops env_ok True sockfd info s [] t" by (rule Main_turn [OF True env(1) t(1)])
    have "closes (mphase t)" by (rule main_step_closes [OF t(1) less(3,5)])
    moreover have "workers (crew t) = workers (crew s)"
      using main_step_workers [OF t(1)] less(5) by auto
    then have "\<forall>u. \<not> alive t u" using less(4) by (simp add: alive_def)
    moreover have "good_host fb hb sockfd info t" using host_step_inv [OF st less(2) b] by blast
    moreover have "quit t" using main_step_quit [OF t(1)] less(3) by simp
    ultimately obtain n s' where "(host_change ops env_ok True sockfd info ^^ n) t s'" "mphase s' = Exited 0"
      using less(1) [OF main_steps_left [OF t(1) less(3) True host_invD(3) [OF less(2)]]] by blast
    moreover have "host_change ops env_ok True sockfd info s t" using st t(2) by (auto simp: host_change_def)
    ultimately show ?thesis by (meson relpowp_Suc_I2)
  qed
qed

end

section \<open>The process a start leaves\<close>



section \<open>A client before the signal\<close>


section \<open>Properties\<close>



end
