(* ===== verification/Socket_File.thy ===== *)
theory Socket_File
  imports Socket_Thread
begin

text \<open>
  The other build of \<^verbatim>\<open>server/aesdsocket.c\<close>: without \<^verbatim>\<open>USE_AESD_CHAR_DEVICE\<close> the lines are appended to
  the regular file \<^verbatim>\<open>/var/tmp/aesdsocketdata\<close>, and \<^verbatim>\<open>return_socketdata_to_client\<close> rewinds the file
  instead of opening it again.  Receiving, storing and the sending loop are the definitions of
  \<open>Socket_Server\<close>, over the operations of a regular file.
\<close>

section \<open>The file\<close>

text \<open>
  Its state is what it contains, that of an open file the position.  It is opened with
  \<^verbatim>\<open>O_APPEND\<close>, so a write adds at the end, as much as there is room for, and leaves the position
  there.  A regular file knows no ioctl of the driver.
\<close>

datatype append_result = Appends nat | Append_fails

definition appended :: "append_result \<Rightarrow> byte list \<Rightarrow> nat" where
  "appended e data = (case e of Append_fails \<Rightarrow> 0 | Appends k \<Rightarrow> min k (min (length data) max_rw_count))"

definition data_file_ops :: "(byte list, nat, append_result) dev_ops" where
  "data_file_ops =
     \<lparr>dev_open = (\<lambda>d. (0, d)),
      dev_write = (\<lambda>e d pos data.
        if e = Append_fails then Some (- 1, pos, d)
        else let n = appended e data in Some (int n, length d + n, d @ take n data)),
      dev_read = (\<lambda>intr d pos n.
        if intr then Some (- 1, [], pos, d)
        else let out = take n (drop pos d) in Some (int (length out), out, pos + length out, d)),
      dev_ioctl = (\<lambda>d pos cmd s. Some (- 1, pos, d))\<rparr>"

interpretation data_file: byte_file data_file_ops "\<lambda>_. True" "\<lambda>_. True" "\<lambda>pos. pos" "\<lambda>d. d"
  by unfold_locales (simp_all add: data_file_ops_def Let_def)

section \<open>A thread\<close>

text \<open>\<^verbatim>\<open>lseek(fd, 0, SEEK_SET)\<close>, which fails on a socket and on a descriptor that is not open.\<close>

definition sys_rewind :: "int \<Rightarrow> ('d, nat) proc \<Rightarrow> int \<times> ('d, nat) proc" where
  "sys_rewind fd p =
     (case fd_entry p fd of
        Some (Dev pos) \<Rightarrow> (0, p\<lparr>fds := (fds p)(nat fd \<mapsto> Dev 0)\<rparr>)
      | _ \<Rightarrow> (- 1, p))"

definition return_filedata_to_client ::
  "addr \<Rightarrow> (nat \<Rightarrow> bool) \<Rightarrow> (nat \<Rightarrow> send_result) \<Rightarrow> (byte list, nat) proc \<Rightarrow> int \<Rightarrow> int \<Rightarrow>
   (int \<times> byte list \<times> (byte list, nat) proc) outcome option" where
  "return_filedata_to_client ma intr sends p client_fd file_fd =
     (let (send_buffer, h) = malloc (uheap p) ma CLIENT_BUFFER_LEN in
      if send_buffer = 0 then Some (Done (- 1, [], p))
      else if rw_held p then Some Blocked
      else
        let (rc, p1) = sys_rewind file_fd (p\<lparr>uheap := h, rw_held := True\<rparr>) in
        if rc = - 1 then do {
          h' \<leftarrow> free (uheap p1) send_buffer;
          Some (Done (- 1, [], p1\<lparr>uheap := h', rw_held := False\<rparr>))
        }
        else do {
          (r, out, p2) \<leftarrow> reply_loop data_file_ops intr sends 0 p1 client_fd file_fd send_buffer [];
          h' \<leftarrow> free (uheap p2) send_buffer;
          Some (Done (r, out, p2\<lparr>uheap := h', rw_held := False\<rparr>))
        })"

definition file_thread_operation ::
  "append_result thread_env \<Rightarrow> (byte list, nat) proc \<Rightarrow> addr \<Rightarrow> int \<Rightarrow>
   (byte list \<times> (byte list, nat) proc) outcome option" where
  "file_thread_operation env p args client_fd = do {
     guard (uheap p args \<noteq> None);
     let (file_fd, p1) = sys_open data_file_ops (open_succeeds env) p;
     if file_fd = - 1 then do {
       let p2 = sys_close client_fd p1;
       h \<leftarrow> free (uheap p2) args;
       Some (Done ([], p2\<lparr>uheap := h\<rparr>))
     }
     else do {
       stored \<leftarrow> send_rcv_socket_data data_file_ops (calloc_addr env) (realloc_addr env) (client_events env)
         (write_envs env) p1 client_fd file_fd;
       (case stored of
          Blocked \<Rightarrow> Some Blocked
        | Done (written_bytes, p2) \<Rightarrow> do {
            replied \<leftarrow>
              (if written_bytes > 0
               then return_filedata_to_client (malloc_addr env) (read_signals env) (send_results env) p2 client_fd file_fd
               else Some (Done (0, [], p2)));
            (case replied of
               Blocked \<Rightarrow> Some Blocked
             | Done (_, out, p3) \<Rightarrow> do {
                 let p4 = sys_close client_fd (sys_close file_fd p3);
                 h \<leftarrow> free (uheap p4) args;
                 Some (Done (out, p4\<lparr>uheap := h\<rparr>))
               })
          })
     }
   }"

section \<open>Storing and replying\<close>

text \<open>What becomes of a request: appended, as far as it was; a result above 0 means all of it, and a seek fails.\<close>

definition file_stored :: "(byte list \<Rightarrow> append_result) \<Rightarrow> byte list \<Rightarrow> byte list \<Rightarrow> byte list \<Rightarrow> int \<Rightarrow> bool" where
  "file_stored env bs d d' r \<longleftrightarrow>
     (if seek_request bs then d' = d \<and> r = - 1
      else d' = d @ take (appended (env bs) bs) bs \<and> (0 < r \<longleftrightarrow> appended (env bs) bs = length bs))"

lemma file_store_run:
  assumes "fds p fd = Some (Dev f)" "\<not> rw_held p" "unat n = length bs" "bs \<noteq> []"
    and "uheap p = h0(b \<mapsto> map Some bs @ Some (CHR 0x00) # rest)" "h0 b = None" "b \<noteq> 0"
  shows "\<exists>r p' f'. store_request data_file_ops env p (int fd) b n = Some (Done (r, p')) \<and> uheap p' = h0 \<and>
    \<not> rw_held p' \<and> fds p' = (fds p)(fd \<mapsto> Dev f') \<and> file_stored env bs (devst p) (devst p') r"
proof (cases "seek_request bs")
  case True
  then show ?thesis
    using assms(1,6,7)
    by (auto simp: store_request_eval [OF assms(2,5,3)] sys_ioctl_def data_file_ops_def file_stored_def assms(5)
        fun_upd_idem split: option.split intro!: exI [of _ f])
next
  case False
  have ap: "appended (env bs) bs = length bs" if "int (appended (env bs) bs) = int (length bs)" using that by simp
  have w: "sys_write data_file_ops (env bs) (p\<lparr>rw_held := True\<rparr>) (int fd) bs =
      (if env bs = Append_fails then Some (- 1, p\<lparr>rw_held := True, fds := (fds p)(fd \<mapsto> Dev f)\<rparr>)
       else Some (int (appended (env bs) bs), p\<lparr>rw_held := True, devst := devst p @ take (appended (env bs) bs) bs,
         fds := (fds p)(fd \<mapsto> Dev (length (devst p) + appended (env bs) bs))\<rparr>))"
    using assms(1) by (cases p) (auto simp: sys_write_def data_file_ops_def Let_def)
  have "free (h0(b \<mapsto> map Some bs @ Some (CHR 0x00) # rest)) b = Some h0" using assms(6,7) by (simp add: fun_upd_idem)
  then show ?thesis
    unfolding store_request_eval [OF assms(2,5,3)] w if_not_P [OF False]
    using False assms(4) by (auto simp: file_stored_def assms(5) appended_def)
qed

lemma file_reply_run:
  assumes "fds p fd = Some (Dev f)" "fd_entry p client_fd = Some Sock" "\<not> rw_held p"
    and "malloc_contract (uheap p) ma CLIENT_BUFFER_LEN"
  shows "\<exists>r p' v. return_filedata_to_client ma intr sends p client_fd (int fd) =
      Some (Done (r, if ma = 0 then [] else client_gets intr sends 0 (devst p), p')) \<and>
    devst p' = devst p \<and> uheap p' = uheap p \<and> \<not> rw_held p' \<and> fds p' = (fds p)(fd := v)"
proof (cases "ma = 0")
  case True
  then show ?thesis
    using assms(1,3) by (auto simp: return_filedata_to_client_def malloc_def fun_upd_idem intro!: exI [of _ "fds p fd"])
next
  case False
  have fresh: "uheap p ma = None" using assms(4) False by (simp add: malloc_contract_def)
  let ?q = "p\<lparr>uheap := (uheap p)(ma \<mapsto> replicate 1024 None), rw_held := True, fds := (fds p)(fd \<mapsto> Dev 0)\<rparr>"
  have "fd_entry ?q client_fd = Some Sock" using assms(1,2) by (auto simp: fd_entry_def split: if_splits)
  then obtain r q' g' where "do {
      (r, out, p3) \<leftarrow> reply_loop data_file_ops intr sends 0 ?q client_fd (int fd) ma [];
      h' \<leftarrow> free (uheap p3) ma;
      Some (Done (r, out, p3\<lparr>uheap := h', rw_held := False\<rparr>))
    } = Some (Done (r, client_gets intr sends 0 (devst p), q'))"
    "devst q' = devst p" "uheap q' = uheap p" "\<not> rw_held q'" "fds q' = (fds p)(fd \<mapsto> Dev g')"
    using data_file.reply_section [of ?q fd 0 client_fd "uheap p" ma "replicate 1024 None" intr sends] False fresh by auto
  then show ?thesis
    using False assms(1,3) by (auto simp: return_filedata_to_client_def malloc_def sys_rewind_def Let_def)
qed

section \<open>What a thread does\<close>

text \<open>Up to its reply: nothing could be received, or a request was stored.\<close>

definition file_failed :: "append_result thread_env \<Rightarrow> (byte list, nat) proc \<Rightarrow> bool" where
  "file_failed env p \<longleftrightarrow> \<not> open_succeeds env \<or> lowest_fd (fds p) = None \<or>
     receive_oom (calloc_addr env) (realloc_addr env) (length (arriving (client_events env)))"

definition file_received :: "append_result thread_env \<Rightarrow> (byte list, nat) proc \<Rightarrow> byte list \<Rightarrow> int \<Rightarrow> bool" where
  "file_received env p d' r \<longleftrightarrow>
     d' = devst p \<and> r \<le> 0 \<and> (newline \<in> set (arriving (client_events env)) \<longrightarrow> file_failed env p) \<or>
     (\<exists>bs. request_of (arriving (client_events env)) bs \<and> file_stored (write_envs env) bs (devst p) d' r)"

lemma file_thread_receives:
  assumes c: "fds p c = Some Sock" "\<not> rw_held p" "allocs_ok (uheap p) env" and fd: "lowest_fd (fds p) = Some fd"
  defines "p1 \<equiv> p\<lparr>fds := (fds p)(fd \<mapsto> Dev 0)\<rparr>"
  shows "\<exists>res. send_rcv_socket_data data_file_ops (calloc_addr env) (realloc_addr env) (client_events env)
       (write_envs env) p1 (int c) (int fd) = Some res \<and>
    (case res of
       Blocked \<Rightarrow> newline \<notin> set (arriving (client_events env))
     | Done (r, p2) \<Rightarrow> uheap p2 = uheap p \<and> \<not> rw_held p2 \<and> (\<exists>f. fds p2 = (fds p)(fd \<mapsto> Dev f)) \<and>
         file_received env p (devst p2) r)"
proof -
  have p1: "uheap p1 = uheap p" "\<not> rw_held p1" "devst p1 = devst p" "fds p1 = (fds p)(fd \<mapsto> Dev 0)"
    using c(2) by (simp_all add: p1_def)
  have sock: "fd_entry p1 (int c) = Some Sock" using c(1) lowest_fd_free [OF fd] p1(4) by (cases "c = fd") simp_all
  note al = c(3) [unfolded allocs_ok_def]
  show ?thesis
  proof (cases rule: send_rcv_cases [OF sock, of "calloc_addr env" "realloc_addr env" data_file_ops "client_events env"
        "write_envs env" "int fd"])
    case 4
    then show ?thesis using p1 by (auto simp: file_received_def file_failed_def intro!: exI [of _ "Done (- 1, p1)"])
  next
    case (5 b n bs rest)
    let ?q = "p1\<lparr>uheap := (uheap p)(b \<mapsto> map Some bs @ Some (CHR 0x00) # rest)\<rparr>"
    obtain r p2 f' where "store_request data_file_ops (write_envs env) ?q (int fd) b n = Some (Done (r, p2))"
      "uheap p2 = uheap p" "\<not> rw_held p2" "fds p2 = (fds p)(fd \<mapsto> Dev f')" "file_stored (write_envs env) bs (devst p) (devst p2) r"
      using file_store_run [of ?q fd 0 n bs "uheap p" b rest "write_envs env"] p1 5(1-4) by auto
    then show ?thesis using 5(5,6) p1(1) by (auto simp: file_received_def)
  qed (use al p1(1) in auto)
qed

text \<open>From the result \<open>r\<close> of the request on: the reply, closing and freeing.\<close>

lemma file_thread_finishes:
  assumes args: "args \<noteq> 0" "uheap p args \<noteq> None" "fds p c = Some Sock" and fdn: "fds p fd = None"
    and al: "malloc_contract (uheap p) (malloc_addr env) CLIENT_BUFFER_LEN"
    and so: "sys_open data_file_ops (open_succeeds env) p = (int fd, p1)"
    and rcv: "send_rcv_socket_data data_file_ops (calloc_addr env) (realloc_addr env) (client_events env)
       (write_envs env) p1 (int c) (int fd) = Some (Done (r, p2))"
    and p2: "uheap p2 = uheap p" "\<not> rw_held p2" "fds p2 = (fds p)(fd \<mapsto> Dev f)"
  defines "out \<equiv> if r \<le> 0 \<or> malloc_addr env = 0 then [] else client_gets (read_signals env) (send_results env) 0 (devst p2)"
  shows "\<exists>p'. file_thread_operation env p args (int c) = Some (Done (out, p')) \<and> \<not> rw_held p' \<and>
    fds p' = (fds p)(c := None) \<and> uheap p' = (uheap p)(args := None) \<and> devst p' = devst p2"
proof -
  have sock: "fd_entry p2 (int c) = Some Sock" using args(3) fdn p2(3) by (cases "c = fd") simp_all
  have "\<exists>r' p3 v. (if r > 0 then return_filedata_to_client (malloc_addr env) (read_signals env) (send_results env)
        p2 (int c) (int fd) else Some (Done (0, [], p2))) = Some (Done (r', out, p3)) \<and>
      devst p3 = devst p2 \<and> uheap p3 = uheap p \<and> \<not> rw_held p3 \<and> fds p3 = (fds p)(fd := v)"
    using file_reply_run [of p2 fd f "int c" "malloc_addr env" "read_signals env" "send_results env"] p2 sock al
    by (auto simp: out_def)
  then obtain r' p3 v where p3: "(if r > 0 then return_filedata_to_client (malloc_addr env) (read_signals env)
        (send_results env) p2 (int c) (int fd) else Some (Done (0, [], p2))) = Some (Done (r', out, p3))"
    "devst p3 = devst p2" "uheap p3 = uheap p" "\<not> rw_held p3" "fds p3 = (fds p)(fd := v)" by blast
  define p4 where "p4 = sys_close (int c) (sys_close (int fd) p3)"
  note cl = thread_closes [OF p3(5) fdn args(3), folded p4_def]
  have "file_thread_operation env p args (int c) = Some (Done (out, p4\<lparr>uheap := (uheap p)(args := None)\<rparr>))"
    using args(1,2) so rcv p3(1,3) cl(2) by (auto simp: file_thread_operation_def p4_def [symmetric] free_def)
  then show ?thesis using cl p3 by auto
qed

lemma file_thread_run:
  assumes args: "args \<noteq> 0" "uheap p args \<noteq> None" "fds p c = Some Sock" and ok: "\<not> rw_held p" "allocs_ok (uheap p) env"
  shows "\<exists>res. file_thread_operation env p args (int c) = Some res \<and>
    (case res of
       Blocked \<Rightarrow> newline \<notin> set (arriving (client_events env))
     | Done (out, p') \<Rightarrow> \<not> rw_held p' \<and> fds p' = (fds p)(c := None) \<and> uheap p' = (uheap p)(args := None) \<and>
         (\<exists>r. file_received env p (devst p') r \<and> out = (if r \<le> 0 \<or> malloc_addr env = 0 then []
            else client_gets (read_signals env) (send_results env) 0 (devst p'))))"
proof (cases "open_succeeds env \<and> lowest_fd (fds p) \<noteq> None")
  case False
  then have "sys_open data_file_ops (open_succeeds env) p = (- 1, p)" by (auto simp: sys_open_def split: option.split)
  moreover have "sys_close (int c) p = p\<lparr>fds := (fds p)(c := None)\<rparr>" using args(3) by (simp add: sys_close_def)
  ultimately show ?thesis
    using args(1,2) ok(1) False by (auto simp: file_thread_operation_def free_def file_received_def file_failed_def intro!: exI [of _ 0])
next
  case True
  then obtain fd where fd: "lowest_fd (fds p) = Some fd" and op: "open_succeeds env" by auto
  let ?p1 = "p\<lparr>fds := (fds p)(fd \<mapsto> Dev 0)\<rparr>"
  have so: "sys_open data_file_ops (open_succeeds env) p = (int fd, ?p1)"
    using fd op by (cases p) (simp add: sys_open_def data_file_ops_def)
  obtain res where r1: "send_rcv_socket_data data_file_ops (calloc_addr env) (realloc_addr env) (client_events env)
       (write_envs env) ?p1 (int c) (int fd) = Some res"
    "case res of Blocked \<Rightarrow> newline \<notin> set (arriving (client_events env))
     | Done (r, p2) \<Rightarrow> uheap p2 = uheap p \<and> \<not> rw_held p2 \<and> (\<exists>f. fds p2 = (fds p)(fd \<mapsto> Dev f)) \<and>
         file_received env p (devst p2) r"
    using file_thread_receives [OF args(3) ok fd] by blast
  show ?thesis
  proof (cases res)
    case Blocked
    then show ?thesis using args(2) so r1 by (auto simp: file_thread_operation_def)
  next
    case (Done rp)
    then obtain r p2 f where p2: "res = Done (r, p2)" "uheap p2 = uheap p" "\<not> rw_held p2" "fds p2 = (fds p)(fd \<mapsto> Dev f)"
      "file_received env p (devst p2) r" using r1(2) by (cases rp) auto
    then show ?thesis
      using file_thread_finishes [OF args lowest_fd_free [OF fd] _ so r1(1) [unfolded p2(1)] p2(2-4)] ok(2)
      by (auto simp: allocs_ok_def)
  qed
qed

section \<open>Properties\<close>

definition demo_file_proc :: "(byte list, nat) proc" where
  "demo_file_proc = \<lparr>devst = ''ab'', fds = [0 \<mapsto> Sock, 1 \<mapsto> Sock, 2 \<mapsto> Sock, 3 \<mapsto> Sock, 4 \<mapsto> Sock],
     uheap = [50 \<mapsto> []], rw_held = False, ioctl_just_performed = False\<rparr>"

definition demo_file_env :: "nat \<Rightarrow> append_result thread_env" where
  "demo_file_env k = \<lparr>open_succeeds = True, calloc_addr = 60,
     realloc_addr = (\<lambda>n. if unat n < 2 ^ 63 then 60 else 0), client_events = [Data [CHR ''z'', newline]],
     write_envs = (\<lambda>_. Appends k), malloc_addr = 60, reopen_succeeds = True,
     read_signals = (\<lambda>_. False), send_results = (\<lambda>_. Sent 1024)\<rparr>"

lemma demo_file_proc_sel [simp]:
  "devst demo_file_proc = ''ab''" "uheap demo_file_proc = [50 \<mapsto> []]" "fds demo_file_proc 4 = Some Sock"
  "\<not> rw_held demo_file_proc" "client_events (demo_file_env k) = [Data [CHR ''z'', newline]]"
  "write_envs (demo_file_env k) bs = Appends k"
  by (simp_all add: demo_file_proc_def demo_file_env_def)

lemma demo_file_allocs: "allocs_ok (uheap demo_file_proc) (demo_file_env k)"
  by (auto simp: allocs_ok_def malloc_contract_def realloc_contract_def demo_file_env_def demo_file_proc_def)

lemma demo_file_works: "\<not> file_failed (demo_file_env k) demo_file_proc"
proof -
  have "lowest_fd (fds demo_file_proc) = Some 5" by (rule lowest_fdI) (auto simp: demo_file_proc_def)
  then show ?thesis by (auto simp: file_failed_def receive_oom_def demo_file_env_def)
qed

text \<open>
  C25.  The server built for a regular file: a thread, whatever the client sends, the allocator
  returns and the writes and sends transfer, has a defined result and waits only for a client that
  sends no newline; it closes and frees everything it had and releases the mutex.  A client's line
  is appended as far as the write got, and the client receives the whole file exactly when that was
  all of the line: after a short write a part of a line stays in the file and nothing is sent.  A
  seek command is refused.
\<close>

theorem file_build_thread:
  assumes "args \<noteq> 0" "uheap p args \<noteq> None" "fds p c = Some Sock" "\<not> rw_held p" "allocs_ok (uheap p) env"
  shows "\<exists>res. file_thread_operation env p args (int c) = Some res \<and>
    (case res of
       Blocked \<Rightarrow> newline \<notin> set (arriving (client_events env))
     | Done (out, p') \<Rightarrow> \<not> rw_held p' \<and> fds p' = (fds p)(c := None) \<and> uheap p' = (uheap p)(args := None) \<and>
         (devst p' = devst p \<and> out = [] \<and> (newline \<in> set (arriving (client_events env)) \<longrightarrow> file_failed env p) \<or>
          (\<exists>bs. request_of (arriving (client_events env)) bs \<and>
             (if seek_request bs then devst p' = devst p \<and> out = []
              else let n = appended (write_envs env bs) bs in
                devst p' = devst p @ take n bs \<and>
                out = (if n = length bs \<and> malloc_addr env \<noteq> 0
                  then client_gets (read_signals env) (send_results env) 0 (devst p') else [])))))"
proof -
  obtain res where res: "file_thread_operation env p args (int c) = Some res"
    "case res of
       Blocked \<Rightarrow> newline \<notin> set (arriving (client_events env))
     | Done (out, p') \<Rightarrow> \<not> rw_held p' \<and> fds p' = (fds p)(c := None) \<and> uheap p' = (uheap p)(args := None) \<and>
         (\<exists>r. file_received env p (devst p') r \<and> out = (if r \<le> 0 \<or> malloc_addr env = 0 then []
            else client_gets (read_signals env) (send_results env) 0 (devst p')))"
    using file_thread_run [OF assms] by blast
  show ?thesis
  proof (cases res)
    case (Done op)
    then show ?thesis
      using res by (cases op) (fastforce simp: file_received_def file_stored_def Let_def not_le)
  qed (use res in simp)
qed

theorem file_build_thread_witness:
  "\<exists>p'. file_thread_operation (demo_file_env 1) demo_file_proc 50 4 = Some (Done ([], p')) \<and> devst p' = ''abz''"
proof -
  let ?line = "[CHR ''z'', newline]"
  have req: "bs = ?line" if "request_of ?line bs" for bs
    using request_of_line [of "''z''" bs] that by simp
  have "\<not> seek_request ?line" "appended (Appends 1) ?line = 1"
    by (simp_all add: seek_request_def SEEK_COMMAND_def appended_def max_rw_count_def)
  moreover obtain res where res: "file_thread_operation (demo_file_env 1) demo_file_proc 50 (int 4) = Some res"
    "case res of Blocked \<Rightarrow> newline \<notin> set ?line
     | Done (out, p') \<Rightarrow> \<exists>bs. request_of ?line bs \<and>
         (if seek_request bs then devst p' = ''ab'' \<and> out = []
          else devst p' = ''ab'' @ take (appended (Appends 1) bs) bs \<and> (appended (Appends 1) bs \<noteq> length bs \<longrightarrow> out = []))"
    using file_build_thread [OF _ _ _ _ demo_file_allocs, of 50 4 1] demo_file_works [of 1]
    by (fastforce simp: Let_def split: outcome.splits if_splits)
  ultimately show ?thesis by (cases res) (auto dest!: req)
qed

end
