(* ===== verification/Systemcalls.thy ===== *)
theory Systemcalls
  imports Libc
begin

text \<open>
  \<^verbatim>\<open>examples/systemcalls/systemcalls.c\<close>: running a command with \<^verbatim>\<open>system\<close>, and with
  \<^verbatim>\<open>fork\<close>, \<^verbatim>\<open>execv\<close> and \<^verbatim>\<open>wait\<close>.  A call may return in two processes; the record
  \<open>returns\<close> says what it returns in each.
\<close>

section \<open>Processes\<close>

text \<open>
  What the operating system does: the value \<^verbatim>\<open>fork\<close> returns in the parent (negative for a
  failure), whether \<^verbatim>\<open>execv\<close> of a path replaces the child, and the status the command exits with.
\<close>

record exec_env =
  path_exists :: "byte list \<Rightarrow> bool"
  fork_pid :: int
  exec_works :: "byte list \<Rightarrow> bool"
  exit_status :: int
  open_works :: bool
  dup2_works :: bool

text \<open>A process becomes the command, returns from the function, or is aborted.\<close>

datatype fate = Becomes "byte list" "byte list list" | Returns_value bool | Aborts

text \<open>The fate of the caller, and of the child when one was created.\<close>

record returns =
  parent :: bool
  child :: "fate option"

section \<open>The code\<close>

definition do_system :: "(byte list option \<Rightarrow> int) \<Rightarrow> byte list option \<Rightarrow> bool" where
  "do_system sys cmd = (let return_code = sys cmd in if return_code = 0 then True else False)"

text \<open>\<^verbatim>\<open>strstr(s, pat) != NULL\<close>\<close>

fun strstr_found :: "byte list \<Rightarrow> byte list \<Rightarrow> bool" where
  "strstr_found s pat = (take (length pat) s = pat \<or> (case s of [] \<Rightarrow> False | _ # s' \<Rightarrow> strstr_found s' pat))"

declare strstr_found.simps [simp del]

text \<open>
  The array \<^verbatim>\<open>command\<close>: the arguments and a NULL.  Reading behind its end is undefined, and so is
  passing NULL to \<^verbatim>\<open>strstr\<close>; \<^verbatim>\<open>access\<close> of NULL fails.
\<close>

definition command_array :: "byte list list \<Rightarrow> byte list option list" where
  "command_array args = map Some args @ [None]"

definition exec_child :: "exec_env \<Rightarrow> byte list list \<Rightarrow> fate" where
  "exec_child env args =
     (if args \<noteq> [] \<and> exec_works env (hd args) then Becomes (hd args) args else Returns_value False)"

text \<open>
  \<^verbatim>\<open>wait\<close> returns the child and hands out its status; \<^verbatim>\<open>wait(NULL)\<close> in the parent drops both.
\<close>

definition wait_child :: "exec_env \<Rightarrow> int \<times> int" where
  "wait_child env = (fork_pid env, exit_status env)"

definition do_exec :: "exec_env \<Rightarrow> byte list list \<Rightarrow> returns option" where
  "do_exec env args =
     (let command = command_array args in
      if (case command ! 0 of None \<Rightarrow> True | Some path \<Rightarrow> \<not> path_exists env path)
      then Some \<lparr>parent = False, child = None\<rparr>
      else if length command \<le> 2 then None
      else case command ! 2 of
        None \<Rightarrow> None
      | Some arg \<Rightarrow>
          if \<not> strstr_found arg ''bin'' then Some \<lparr>parent = False, child = None\<rparr>
          else if fork_pid env > 0 then
            let (waited, status) = wait_child env in Some \<lparr>parent = True, child = Some (exec_child env args)\<rparr>
          else Some \<lparr>parent = False, child = None\<rparr>)"

text \<open>
  The redirecting variant, with the open descriptors of the caller; \<open>out\<close> is the opened file.
  The third component are the descriptors of the command.
\<close>

definition do_exec_redirect ::
  "exec_env \<Rightarrow> 'o \<Rightarrow> byte list list \<Rightarrow> (nat \<rightharpoonup> 'o) \<Rightarrow> returns \<times> (nat \<rightharpoonup> 'o) \<times> (nat \<rightharpoonup> 'o)" where
  "do_exec_redirect env out args m =
     (case (if open_works env then lowest_fd m else None) of
        None \<Rightarrow> (\<lparr>parent = False, child = None\<rparr>, m, Map.empty)
      | Some fd \<Rightarrow>
          let m1 = m(fd \<mapsto> out) in
          if fork_pid env > 0 then
            let (waited, status) = wait_child env in
            (\<lparr>parent = True, child = Some (if \<not> dup2_works env then Aborts else exec_child env args)\<rparr>,
             m1, (m1(1 := m1 fd))(fd := None))
          else (\<lparr>parent = False, child = None\<rparr>, m1(fd := None), Map.empty))"

section \<open>Properties\<close>

text \<open>
  \<^verbatim>\<open>do_exec\<close> with an existing path, by the number of arguments: the third one is looked at in every
  case.
\<close>

lemma do_exec_result:
  assumes "args \<noteq> []" "path_exists env (hd args)"
  shows "do_exec env args =
    (if length args < 3 then None
     else if strstr_found (args ! 2) ''bin'' \<and> 0 < fork_pid env
     then Some \<lparr>parent = True, child = Some (if exec_works env (hd args) then Becomes (hd args) args
                                             else Returns_value False)\<rparr>
     else Some \<lparr>parent = False, child = None\<rparr>)"
proof -
  have c0: "command_array args ! 0 = Some (hd args)" "length (command_array args) = Suc (length args)"
    using assms(1) by (cases args; simp add: command_array_def)+
  have c2: "command_array args ! 2 = (if length args = 2 then None else Some (args ! 2))" if "2 \<le> length args"
    using that by (auto simp: command_array_def nth_append)
  show ?thesis
  proof (cases "length args < 2")
    case True
    then show ?thesis using assms c0 by (simp add: do_exec_def Let_def)
  next
    case False
    then show ?thesis using assms c0 c2 by (simp add: do_exec_def exec_child_def wait_child_def Let_def)
  qed
qed

text \<open>
  C33.  A successful \<^verbatim>\<open>do_exec_redirect\<close> runs the command with its standard output in the file and
  without a second descriptor for it, and leaves the file open in the caller; a failing one leaves the
  caller's descriptors as they were.
\<close>

theorem do_exec_redirect_descriptors:
  assumes "do_exec_redirect env out args m = (r, m', mc)"
  shows "if parent r then (\<exists>fd. m fd = None \<and> m' = m(fd \<mapsto> out) \<and>
            (child r = Some (Becomes (hd args) args) \<longrightarrow> mc 1 = (if fd = 1 then None else Some out) \<and> mc fd = None))
         else m' = m"
proof (cases "if open_works env then lowest_fd m else None")
  case None
  then have "do_exec_redirect env out args m = (\<lparr>parent = False, child = None\<rparr>, m, Map.empty)"
    unfolding do_exec_redirect_def by (simp only: option.case)
  then have "r = \<lparr>parent = False, child = None\<rparr>" "m' = m" using assms by simp_all
  then show ?thesis by simp
next
  case (Some fd)
  then have fd: "m fd = None" by (cases "open_works env") (simp_all add: lowest_fd_free)
  note code = do_exec_redirect_def [of env out args m, unfolded Some option.case Let_def]
  show ?thesis
  proof (cases "fork_pid env > 0")
    case True
    then have r: "r = \<lparr>parent = True, child = Some (if \<not> dup2_works env then Aborts else exec_child env args)\<rparr>"
      "m' = m(fd \<mapsto> out)" "mc = (m(fd \<mapsto> out, 1 \<mapsto> out))(fd := None)"
      using assms unfolding code by auto
    have "m fd = None \<and> m' = m(fd \<mapsto> out) \<and> mc 1 = (if fd = 1 then None else Some out) \<and> mc fd = None"
      using fd unfolding r by simp
    then show ?thesis using r(1) by auto
  next
    case False
    then have "r = \<lparr>parent = False, child = None\<rparr>" "m' = m"
      using assms fd unfolding code by (simp_all add: fun_upd_idem)
    then show ?thesis by simp
  qed
qed

theorem do_exec_redirect_descriptors_witness:
  "\<exists>r m' mc. do_exec_redirect \<lparr>path_exists = (\<lambda>_. True), fork_pid = 5, exec_works = (\<lambda>_. True), exit_status = 0,
      open_works = True, dup2_works = True\<rparr> ''file'' [''/bin/ls''] [0 \<mapsto> ''tty'', 1 \<mapsto> ''tty'', 2 \<mapsto> ''tty''] = (r, m', mc) \<and>
    parent r \<and> (\<exists>fd. m' fd = Some ''file'')"
proof -
  let ?env = "\<lparr>path_exists = (\<lambda>_. True), fork_pid = 5, exec_works = (\<lambda>_. True), exit_status = 0,
      open_works = True, dup2_works = True\<rparr>"
  let ?m = "[0 \<mapsto> ''tty'', 1 \<mapsto> ''tty'', 2 \<mapsto> ''tty'']"
  have "lowest_fd ?m = Some 3" by (rule lowest_fdI) auto
  then obtain r m' mc where r: "do_exec_redirect ?env ''file'' [''/bin/ls''] ?m = (r, m', mc)" "parent r"
    by (auto simp: do_exec_redirect_def Let_def)
  from do_exec_redirect_descriptors [OF r(1)] r show ?thesis by auto
qed

end
