(* ===== verification/Threading.thy ===== *)
theory Threading
  imports Libc
begin

text \<open>
  \<^verbatim>\<open>examples/threading/threading.c\<close>: threads that wait, take a mutex, wait, and release it.
  \<^verbatim>\<open>threadfunc\<close> is a program counter per thread that moves at its calls; any number of threads
  on any number of mutexes interleave.  A call that fails does so with an error number and without
  changing the mutex.
\<close>

section \<open>State\<close>

record 'm thread_data =
  tmutex :: 'm
  wait_to_obtain_ms :: "32 word"
  wait_to_release_ms :: "32 word"
  thread_complete_success :: bool

text \<open>Where a thread is in \<^verbatim>\<open>threadfunc\<close>; a finished thread has returned its argument.\<close>

datatype pc = Sleeping | Locking | Holding | Unlocking | Finished

text \<open>The order in which a thread goes through them.\<close>

instantiation pc :: linorder
begin

fun pc_rank :: "pc \<Rightarrow> nat" where
  "pc_rank Sleeping = 0"
| "pc_rank Locking = 1"
| "pc_rank Holding = 2"
| "pc_rank Unlocking = 3"
| "pc_rank Finished = 4"

definition less_eq_pc :: "pc \<Rightarrow> pc \<Rightarrow> bool" where
  "less_eq_pc p q \<longleftrightarrow> pc_rank p \<le> pc_rank q"

definition less_pc :: "pc \<Rightarrow> pc \<Rightarrow> bool" where
  "less_pc p q \<longleftrightarrow> pc_rank p < pc_rank q"

instance
proof
  fix p q :: pc
  show "p \<le> q \<Longrightarrow> q \<le> p \<Longrightarrow> p = q" by (cases p; cases q) (simp_all add: less_eq_pc_def)
qed (auto simp: less_eq_pc_def less_pc_def)

end

text \<open>
  The threads with their heap-allocated data, for every mutex the thread that holds it, and the
  commands each thread has given to \<^verbatim>\<open>system\<close>.
\<close>

record 'm threads =
  pcs :: "nat \<rightharpoonup> pc"
  tdata :: "nat \<rightharpoonup> 'm thread_data"
  owner :: "'m \<rightharpoonup> nat"
  system_calls :: "nat \<Rightarrow> byte list list"

section \<open>Steps\<close>

text \<open>
  \<^verbatim>\<open>start_thread_obtaining_mutex\<close> with the results of \<^verbatim>\<open>malloc\<close> and \<^verbatim>\<open>pthread_create\<close>; the
  id \<open>t\<close> is the one \<^verbatim>\<open>pthread_create\<close> stores.  The pointer arguments may be NULL.
\<close>

definition start_thread_obtaining_mutex ::
  "bool \<Rightarrow> bool \<Rightarrow> nat option \<Rightarrow> 'm option \<Rightarrow> 32 word \<Rightarrow> 32 word \<Rightarrow> 'm threads \<Rightarrow> bool \<times> 'm threads" where
  "start_thread_obtaining_mutex allocated created thread mutex obtain_ms release_ms s =
     (case (thread, mutex) of
        (Some t, Some m) \<Rightarrow>
          if \<not> allocated then (False, s)
          else let data = \<lparr>tmutex = m, wait_to_obtain_ms = obtain_ms, wait_to_release_ms = release_ms,
                          thread_complete_success = False\<rparr> in
            if \<not> created then (False, s)
            else (True, s\<lparr>pcs := (pcs s)(t \<mapsto> Sleeping), tdata := (tdata s)(t \<mapsto> data)\<rparr>)
      | _ \<Rightarrow> (False, s))"

definition set_success :: "nat \<Rightarrow> bool \<Rightarrow> 'm threads \<Rightarrow> 'm threads" where
  "set_success t b s = s\<lparr>tdata := (tdata s)(t := map_option (\<lambda>d. d\<lparr>thread_complete_success := b\<rparr>) (tdata s t))\<rparr>"

definition goto :: "nat \<Rightarrow> pc \<Rightarrow> 'm threads \<Rightarrow> 'm threads" where
  "goto t p s = s\<lparr>pcs := (pcs s)(t \<mapsto> p)\<rparr>"

text \<open>
  \<^verbatim>\<open>snprintf(command, 100, "./sleep.sh %d", ms)\<close>, which cuts at 99 characters, and the call of
  \<^verbatim>\<open>system\<close>, whose result is ignored.
\<close>

definition decimal_int :: "32 word \<Rightarrow> byte list" where
  "decimal_int w = (if sint w < 0 then CHR ''-'' # decimal (nat (- sint w)) else decimal (nat (sint w)))"

definition sleep_command :: "32 word \<Rightarrow> byte list" where
  "sleep_command ms = take 99 (''./sleep.sh '' @ decimal_int ms)"

definition run_system :: "nat \<Rightarrow> byte list \<Rightarrow> 'm threads \<Rightarrow> 'm threads" where
  "run_system t cmd s = s\<lparr>system_calls := (system_calls s)(t := system_calls s t @ [cmd])\<rparr>"

text \<open>
  One move of thread \<open>t\<close> in \<^verbatim>\<open>threadfunc\<close>; \<open>rc\<close> is the result of the mutex call it makes.
  Locking a mutex that is held waits, which is no move.
\<close>

inductive thread_step :: "nat \<Rightarrow> int \<Rightarrow> 'm threads \<Rightarrow> 'm threads \<Rightarrow> bool" where
  Null_argument: "pcs s t = Some Sleeping \<Longrightarrow> tdata s t = None \<Longrightarrow> thread_step t rc s (goto t Finished s)"
| Obtain_wait: "pcs s t = Some Sleeping \<Longrightarrow> tdata s t = Some d \<Longrightarrow>
    thread_step t rc s (goto t Locking (run_system t (sleep_command (wait_to_obtain_ms d)) s))"
| Lock: "pcs s t = Some Locking \<Longrightarrow> tdata s t = Some d \<Longrightarrow> owner s (tmutex d) = None \<Longrightarrow>
    thread_step t 0 s (goto t Holding (s\<lparr>owner := (owner s)(tmutex d \<mapsto> t)\<rparr>))"
| Lock_fails: "pcs s t = Some Locking \<Longrightarrow> rc \<noteq> 0 \<Longrightarrow>
    thread_step t rc s (goto t Finished (set_success t False s))"
| Release_wait: "pcs s t = Some Holding \<Longrightarrow> tdata s t = Some d \<Longrightarrow>
    thread_step t rc s (goto t Unlocking (run_system t (sleep_command (wait_to_release_ms d)) s))"
| Unlock: "pcs s t = Some Unlocking \<Longrightarrow> tdata s t = Some d \<Longrightarrow>
    thread_step t 0 s (goto t Finished (set_success t True (s\<lparr>owner := (owner s)(tmutex d := None)\<rparr>)))"
| Unlock_fails: "pcs s t = Some Unlocking \<Longrightarrow> rc \<noteq> 0 \<Longrightarrow>
    thread_step t rc s (goto t Finished (set_success t False s))"

inductive_cases thread_stepE: "thread_step t rc s s'"

text \<open>A step of the system: starting a thread with a new id, or a move of one.\<close>

inductive system_step :: "'m threads \<Rightarrow> 'm threads \<Rightarrow> bool" where
  Start: "pcs s t = None \<Longrightarrow>
    start_thread_obtaining_mutex a c (Some t) (Some m) obtain_ms release_ms s = (r, s') \<Longrightarrow> system_step s s'"
| Move: "thread_step t rc s s' \<Longrightarrow> system_step s s'"

definition no_threads :: "'m threads" where
  "no_threads = \<lparr>pcs = Map.empty, tdata = Map.empty, owner = Map.empty, system_calls = (\<lambda>_. [])\<rparr>"

inductive reachable :: "'m threads \<Rightarrow> bool" where
  Init: "reachable no_threads"
| Step: "reachable s \<Longrightarrow> system_step s s' \<Longrightarrow> reachable s'"

section \<open>Invariant\<close>

abbreviation in_section :: "pc option \<Rightarrow> bool" where
  "in_section p \<equiv> p = Some Holding \<or> p = Some Unlocking"

text \<open>
  Every thread has its data; a thread between lock and unlock owns its mutex; an owner is in that
  section, or finished without success; a thread that succeeded owns nothing.
\<close>

definition thr_inv :: "'m threads \<Rightarrow> bool" where
  "thr_inv s \<longleftrightarrow>
     (\<forall>t. pcs s t = None \<longleftrightarrow> tdata s t = None) \<and>
     (\<forall>t d. tdata s t = Some d \<longrightarrow> in_section (pcs s t) \<longrightarrow> owner s (tmutex d) = Some t) \<and>
     (\<forall>m t. owner s m = Some t \<longrightarrow> (\<exists>d. tdata s t = Some d \<and> tmutex d = m \<and>
        (in_section (pcs s t) \<or> pcs s t = Some Finished \<and> \<not> thread_complete_success d))) \<and>
     (\<forall>t d. tdata s t = Some d \<longrightarrow> thread_complete_success d \<longrightarrow> pcs s t = Some Finished)"

lemma goto_sel [simp]:
  "pcs (goto t p s) = (pcs s)(t \<mapsto> p)" "tdata (goto t p s) = tdata s" "owner (goto t p s) = owner s"
  "pcs (set_success t b s) = pcs s" "owner (set_success t b s) = owner s"
  "tdata (set_success t b s) =
     (tdata s)(t := map_option (\<lambda>d. d\<lparr>thread_complete_success := b\<rparr>) (tdata s t))"
    "pcs (run_system t cmd s) = pcs s" "tdata (run_system t cmd s) = tdata s" "owner (run_system t cmd s) = owner s"
  "system_calls (goto t p s) = system_calls s" "system_calls (set_success t b s) = system_calls s"
  "system_calls (run_system t cmd s) = (system_calls s)(t := system_calls s t @ [cmd])"
  by (simp_all add: goto_def set_success_def run_system_def)

lemma thr_inv_init: "thr_inv no_threads"
  by (simp add: thr_inv_def no_threads_def)

lemma thr_inv_start:
  assumes "thr_inv s" "pcs s t = None"
    "start_thread_obtaining_mutex a c (Some t) (Some m) obtain_ms release_ms s = (r, s')"
  shows "thr_inv s'"
proof -
  have "owner s m' \<noteq> Some t" for m' using assms(1,2) by (fastforce simp: thr_inv_def)
  then show ?thesis
    using assms by (auto simp: thr_inv_def start_thread_obtaining_mutex_def Let_def split: if_splits)
qed

lemma thr_invD:
  assumes "thr_inv s"
  shows "pcs s t \<noteq> None \<Longrightarrow> \<exists>d. tdata s t = Some d"
    "tdata s t = Some d \<Longrightarrow> in_section (pcs s t) \<Longrightarrow> owner s (tmutex d) = Some t"
    "owner s m = Some t \<Longrightarrow> \<exists>d. tdata s t = Some d \<and> tmutex d = m \<and>
       (in_section (pcs s t) \<or> pcs s t = Some Finished \<and> \<not> thread_complete_success d)"
    "tdata s t = Some d \<Longrightarrow> thread_complete_success d \<Longrightarrow> pcs s t = Some Finished"
proof -
  have i: "\<forall>t. pcs s t = None \<longleftrightarrow> tdata s t = None" using assms by (simp add: thr_inv_def)
  show "pcs s t \<noteq> None \<Longrightarrow> \<exists>d. tdata s t = Some d" using i by (metis not_None_eq)
qed (use assms in \<open>auto simp: thr_inv_def\<close>)

lemma thr_inv_step:
  assumes "thr_inv s" "thread_step t rc s s'"
  shows "thr_inv s'"
proof -
  have "pcs s t \<noteq> None" using assms(2) by (rule thread_stepE) auto
  then obtain d where d: "tdata s t = Some d" using thr_invD(1) [OF assms(1)] by blast
  have own: "owner s m = Some t \<Longrightarrow> m = tmutex d \<and> (in_section (pcs s t) \<or> pcs s t = Some Finished)" for m
    using thr_invD(3) [OF assms(1), of m t] d by auto
  have suc: "thread_complete_success d \<Longrightarrow> pcs s t = Some Finished"
    using thr_invD(4) [OF assms(1) d] .
  show ?thesis
    using assms(2)
  proof cases
    case Null_argument
    then show ?thesis using d by simp
  next
    case Obtain_wait
    then show ?thesis using assms(1) d own suc by (auto simp: thr_inv_def)
  next
    case (Lock d')
    have "tmutex da \<noteq> tmutex d" if "tdata s ta = Some da" "in_section (pcs s ta)" for ta da
      using thr_invD(2) [OF assms(1) that] Lock d by auto
    with Lock show ?thesis using assms(1) d own suc by (auto simp: thr_inv_def)
  next
    case Lock_fails
    then show ?thesis using assms(1) d own suc by (auto simp: thr_inv_def)
  next
    case Release_wait
    then show ?thesis using assms(1) d own suc by (auto simp: thr_inv_def)
  next
    case (Unlock d')
    have "tmutex da \<noteq> tmutex d" if "tdata s ta = Some da" "in_section (pcs s ta)" "ta \<noteq> t" for ta da
      using thr_invD(2) [OF assms(1) that(1,2)] thr_invD(2) [OF assms(1) d] Unlock that(3) by auto
    with Unlock show ?thesis using assms(1) d own suc by (auto simp: thr_inv_def)
  next
    case Unlock_fails
    then show ?thesis using assms(1) d own suc by (auto simp: thr_inv_def)
  qed
qed

lemma thr_inv_reachable: "reachable s \<Longrightarrow> thr_inv s"
proof (induction rule: reachable.induct)
  case Init
  show ?case by (rule thr_inv_init)
next
  case (Step s s')
  from Step(2) show ?case
    by cases (auto intro: thr_inv_start [OF Step(3)] thr_inv_step [OF Step(3)])
qed

text \<open>While no finished thread owns a mutex, some thread that has not finished can move.\<close>

lemma threads_can_move:
  assumes inv: "thr_inv s" and left: "\<forall>m t. owner s m = Some t \<longrightarrow> pcs s t \<noteq> Some Finished"
    and t: "pcs s t = Some p" "p \<noteq> Finished"
  shows "\<exists>t s'. thread_step t 0 s s'"
proof -
  obtain d where d: "tdata s t = Some d" using thr_invD(1) [OF inv, of t] t(1) by auto
  show ?thesis
  proof (cases p)
    case Locking
    show ?thesis
    proof (cases "owner s (tmutex d)")
      case None
      then show ?thesis using Lock [of s t d] t(1) Locking d by blast
    next
      case (Some u)
      then obtain e where e: "tdata s u = Some e" "in_section (pcs s u)"
        using thr_invD(3) [OF inv Some] left by auto
      then show ?thesis using Release_wait [of s u e 0] Unlock [of s u e] by blast
    qed
  next
    case Unlocking
    then show ?thesis using Unlock [of s t d] t(1) d by blast
  qed (use t d Obtain_wait [of s t d 0] Release_wait [of s t d 0] in \<open>auto\<close>)
qed

section \<open>The commands\<close>

text \<open>A decimal number has no more digits than needed, so the command is never cut.\<close>

lemma length_decimal: "n < 10 ^ Suc k \<Longrightarrow> length (decimal n) \<le> Suc k"
proof (induction k arbitrary: n)
  case 0
  then show ?case by (subst decimal.simps) simp
next
  case (Suc k)
  then have "n div 10 < 10 ^ Suc k" by (simp add: div_less_iff_less_mult)
  with Suc.IH show ?case by (subst decimal.simps) simp
qed

lemma length_decimal_int: "length (decimal_int w) \<le> 11"
proof -
  have "- (2 ^ 31) \<le> sint w" "sint w < 2 ^ 31" using sint_range_size [of w] by (simp_all add: word_size)
  then have "nat (- sint w) \<le> 2 ^ 31" "nat (sint w) \<le> 2 ^ 31" by simp_all
  moreover have "(2 :: nat) ^ 31 < 10 ^ Suc 9" by simp
  ultimately have "nat (- sint w) < 10 ^ Suc 9" "nat (sint w) < 10 ^ Suc 9" by (simp_all only: le_less_trans)
  note len = length_decimal [OF this(1)] length_decimal [OF this(2)]
  show ?thesis unfolding decimal_int_def using len by (cases "sint w < 0") simp_all
qed

lemma sleep_command_whole: "sleep_command ms = ''./sleep.sh '' @ decimal_int ms"
  using length_decimal_int [of ms] by (simp add: sleep_command_def)

text \<open>What a thread has run, by its place.\<close>

abbreviation both_sleeps :: "'m thread_data \<Rightarrow> byte list list" where
  "both_sleeps d \<equiv> [sleep_command (wait_to_obtain_ms d), sleep_command (wait_to_release_ms d)]"

fun ran_ok :: "pc option \<Rightarrow> 'm thread_data option \<Rightarrow> byte list list \<Rightarrow> bool" where
  "ran_ok None data cmds = (cmds = [])"
| "ran_ok (Some Sleeping) data cmds = (cmds = [])"
| "ran_ok (Some Locking) (Some d) cmds = (cmds = take 1 (both_sleeps d))"
| "ran_ok (Some Holding) (Some d) cmds = (cmds = take 1 (both_sleeps d))"
| "ran_ok (Some Unlocking) (Some d) cmds = (cmds = both_sleeps d)"
| "ran_ok (Some Finished) (Some d) cmds = (thread_complete_success d \<longrightarrow> cmds = both_sleeps d)"
| "ran_ok p None cmds = True"

definition ran_inv :: "'m threads \<Rightarrow> bool" where
  "ran_inv s \<longleftrightarrow> (\<forall>t. ran_ok (pcs s t) (tdata s t) (system_calls s t))"

lemma ran_inv_step:
  assumes "ran_inv s" "thread_step t rc s s'"
  shows "ran_inv s'"
  unfolding ran_inv_def
proof
  fix u
  have ok: "ran_ok (pcs s t) (tdata s t) (system_calls s t)" "ran_ok (pcs s u) (tdata s u) (system_calls s u)"
    using assms(1) by (simp_all add: ran_inv_def)
  from assms(2) show "ran_ok (pcs s' u) (tdata s' u) (system_calls s' u)"
    using ok by cases (cases "u = t"; cases "tdata s t"; simp)+
qed

lemma ran_inv_reachable: "reachable s \<Longrightarrow> ran_inv s"
proof (induction rule: reachable.induct)
  case Init
  show ?case by (simp add: ran_inv_def no_threads_def)
next
  case (Step s s')
  from Step(2) show ?case
  proof cases
    case (Start t a c m obtain_ms release_ms r)
    have "ran_ok (pcs s t) (tdata s t) (system_calls s t)" using Step(3) unfolding ran_inv_def by blast
    then have "system_calls s t = []" using Start by simp
    then show ?thesis
      using Start Step(3) by (auto simp: ran_inv_def start_thread_obtaining_mutex_def Let_def split: if_splits)
  next
    case (Move t rc)
    then show ?thesis using ran_inv_step [OF Step(3)] by blast
  qed
qed

text \<open>A move takes the thread further, so it makes at most four.\<close>

lemma thread_step_advances: "thread_step t rc s s' \<Longrightarrow> \<exists>p p'. pcs s t = Some p \<and> pcs s' t = Some p' \<and> p < p'"
  by (cases rule: thread_step.cases) (auto simp: less_pc_def)

section \<open>Example\<close>

text \<open>One thread on one mutex, and two of which the first has taken it.\<close>

abbreviation demo_data :: "bool \<Rightarrow> unit thread_data" where
  "demo_data b \<equiv> \<lparr>tmutex = (), wait_to_obtain_ms = 10, wait_to_release_ms = 20, thread_complete_success = b\<rparr>"

abbreviation demo_threads :: "pc \<Rightarrow> bool \<Rightarrow> (unit \<rightharpoonup> nat) \<Rightarrow> nat \<Rightarrow> unit threads" where
  "demo_threads p b m n \<equiv> \<lparr>pcs = [7 \<mapsto> p], tdata = [7 \<mapsto> demo_data b], owner = m,
     system_calls = (\<lambda>_. [])(7 := take n (both_sleeps (demo_data b)))\<rparr>"

lemma demo_reachable:
  "reachable (demo_threads Holding False [() \<mapsto> 7] 1)" "reachable (demo_threads Finished True Map.empty 2)"
proof -
  have "start_thread_obtaining_mutex True True (Some 7) (Some ()) 10 20 no_threads =
      (True, demo_threads Sleeping False Map.empty 0)"
    by (simp add: start_thread_obtaining_mutex_def no_threads_def fun_upd_idem)
  from Step [OF Init Start [OF _ this]] have "reachable (demo_threads Sleeping False Map.empty 0)"
    by (simp add: no_threads_def)
  from Step [OF this Move [OF Obtain_wait [of _ 7]]] have "reachable (demo_threads Locking False Map.empty 1)"
    by (simp add: goto_def run_system_def)
  from Step [OF this Move [OF Lock [of _ 7 "demo_data False"]]] show
    h: "reachable (demo_threads Holding False [() \<mapsto> 7] 1)" by (simp add: goto_def)
  from Step [OF h Move [OF Release_wait [of _ 7]]] have "reachable (demo_threads Unlocking False [() \<mapsto> 7] 2)"
    by (simp add: goto_def run_system_def)
  from Step [OF this Move [OF Unlock [of _ 7 "demo_data False"]]] show
    "reachable (demo_threads Finished True Map.empty 2)"
    by (simp add: goto_def set_success_def)
qed

definition demo_pair :: "unit threads" where
  "demo_pair = \<lparr>pcs = [7 \<mapsto> Holding, 8 \<mapsto> Locking], tdata = [7 \<mapsto> demo_data False, 8 \<mapsto> demo_data False],
     owner = [() \<mapsto> 7], system_calls = (\<lambda>_. [])(7 := [sleep_command 10], 8 := [sleep_command 10])\<rparr>"

lemma demo_pair_sel [simp]:
  "pcs demo_pair = [7 \<mapsto> Holding, 8 \<mapsto> Locking]" "tdata demo_pair 7 = Some (demo_data False)"
  "tdata demo_pair 8 = Some (demo_data False)"
  by (simp_all add: demo_pair_def)

lemma demo_pair_reachable: "reachable demo_pair"
proof -
  let ?h = "demo_threads Holding False [() \<mapsto> 7] 1"
  let ?s = "?h\<lparr>pcs := (pcs ?h)(8 \<mapsto> Sleeping), tdata := (tdata ?h)(8 \<mapsto> demo_data False)\<rparr>"
  have "start_thread_obtaining_mutex True True (Some 8) (Some ()) 10 20 ?h = (True, ?s)"
    by (simp add: start_thread_obtaining_mutex_def)
  from Step [OF demo_reachable(1) Start [OF _ this]] have "reachable ?s" by simp
  from Step [OF this Move [OF Obtain_wait [of _ 8]]] show ?thesis
    by (simp add: goto_def run_system_def demo_pair_def)
qed

section \<open>Properties\<close>

text \<open>
  C34.  In every interleaving two different threads that were given the same mutex are never both
  between their successful lock and the end of their unlock.
\<close>

theorem threads_exclude_each_other:
  assumes "reachable s" "tdata s t1 = Some d1" "tdata s t2 = Some d2" "tmutex d1 = tmutex d2"
    and "pcs s t1 \<in> {Some Holding, Some Unlocking}" "pcs s t2 \<in> {Some Holding, Some Unlocking}"
  shows "t1 = t2"
  using thr_invD(2) [OF thr_inv_reachable [OF assms(1)]] assms(2-6) by (metis insertE option.inject singletonD)

theorem threads_exclude_each_other_witness:
  "pcs demo_pair 7 = Some Holding \<and> pcs demo_pair 8 \<notin> {Some Holding, Some Unlocking}"
proof
  show h: "pcs demo_pair 7 = Some Holding" by simp
  show "pcs demo_pair 8 \<notin> {Some Holding, Some Unlocking}"
    using threads_exclude_each_other [OF demo_pair_reachable demo_pair_sel(2,3) refl, unfolded h] by auto
qed

text \<open>
  C35.  A thread that reports success has finished, has waited as long as asked before taking the
  mutex and again before releasing it, and no longer owns any mutex; every move takes a thread
  further towards its end; and as long as some thread has not finished and no mutex was left
  behind by a failing unlock, some thread can make its next call successfully: all threads end.
\<close>

theorem threads_succeed_and_progress:
  assumes "reachable s"
  shows "(\<forall>t d. tdata s t = Some d \<longrightarrow> thread_complete_success d \<longrightarrow>
           pcs s t = Some Finished \<and> (\<forall>m. owner s m \<noteq> Some t) \<and>
           system_calls s t = [''./sleep.sh '' @ decimal_int (wait_to_obtain_ms d),
                      ''./sleep.sh '' @ decimal_int (wait_to_release_ms d)]) \<and>
    (\<forall>t rc s'. thread_step t rc s s' \<longrightarrow> (\<exists>p p'. pcs s t = Some p \<and> pcs s' t = Some p' \<and> p < p')) \<and>
    ((\<forall>m t. owner s m = Some t \<longrightarrow> pcs s t \<noteq> Some Finished) \<longrightarrow>
     (\<exists>t. pcs s t \<noteq> None \<and> pcs s t \<noteq> Some Finished) \<longrightarrow> (\<exists>t s'. thread_step t 0 s s'))"
proof (intro conjI)
  note inv = thr_inv_reachable [OF assms]
  show "\<forall>t d. tdata s t = Some d \<longrightarrow> thread_complete_success d \<longrightarrow>
      pcs s t = Some Finished \<and> (\<forall>m. owner s m \<noteq> Some t) \<and>
      system_calls s t = [''./sleep.sh '' @ decimal_int (wait_to_obtain_ms d),
                 ''./sleep.sh '' @ decimal_int (wait_to_release_ms d)]"
  proof (intro allI impI conjI)
    fix t d
    assume d: "tdata s t = Some d" "thread_complete_success d"
    show f: "pcs s t = Some Finished" by (rule thr_invD(4) [OF inv d])
    show "owner s m \<noteq> Some t" for m using thr_invD(3) [OF inv, of m t] d f by fastforce
    show "system_calls s t = [''./sleep.sh '' @ decimal_int (wait_to_obtain_ms d),
        ''./sleep.sh '' @ decimal_int (wait_to_release_ms d)]"
      using ran_inv_reachable [OF assms] d f unfolding ran_inv_def
      by (auto simp: sleep_command_whole dest!: spec [of _ t])
  qed
  show "(\<forall>m t. owner s m = Some t \<longrightarrow> pcs s t \<noteq> Some Finished) \<longrightarrow>
      (\<exists>t. pcs s t \<noteq> None \<and> pcs s t \<noteq> Some Finished) \<longrightarrow> (\<exists>t s'. thread_step t 0 s s')"
    using threads_can_move [OF inv] by blast
qed (use thread_step_advances in blast)

theorem threads_succeed_and_progress_witness:
  "(\<forall>m. owner (demo_threads Finished True Map.empty 2) m \<noteq> Some 7) \<and>
   system_calls (demo_threads Finished True Map.empty 2) 7 = [''./sleep.sh 10'', ''./sleep.sh 20'']"
proof -
  have "decimal 10 = ''10''" "decimal 20 = ''20''" by (simp_all add: decimal.simps char_of_def bit_iff_odd)
  then have "decimal_int 10 = ''10''" "decimal_int 20 = ''20''" by (simp_all add: decimal_int_def)
  then show ?thesis
    using threads_succeed_and_progress [OF demo_reachable(2)] by (auto dest!: spec [of _ 7])
qed

end
