(* ===== verification/Writer.thy ===== *)
theory Writer
  imports Prelude
begin

text \<open>
  \<^verbatim>\<open>finder-app/writer.c\<close>: append a string to a file.  The file system is a map from paths to
  contents; the results of \<^verbatim>\<open>open\<close> and \<^verbatim>\<open>write\<close> are arguments.  What the program sends to the
  system log is part of the result.
\<close>

section \<open>The code\<close>

type_synonym file_system = "byte list \<rightharpoonup> byte list"

text \<open>\<^verbatim>\<open>None\<close> is a NULL passed for the file name.\<close>

datatype log_entry = Wrong_input | Open_error | Write_error | Writing "byte list" "byte list option"

text \<open>The suffix that starts at the last occurrence of a character, \<open>None\<close> for NULL.\<close>

fun strrchr :: "byte list \<Rightarrow> byte \<Rightarrow> byte list option" where
  "strrchr [] c = None"
| "strrchr (x # xs) c =
     (case strrchr xs c of Some s \<Rightarrow> Some s | None \<Rightarrow> if x = c then Some (x # xs) else None)"

text \<open>
  \<open>opens\<close> is whether the file can be opened (it is created when missing), \<open>wr\<close> what \<^verbatim>\<open>write\<close>
  returns: \<open>-1\<close>, or how many bytes it appended.
\<close>

definition read_write ::
  "bool \<Rightarrow> int \<Rightarrow> file_system \<Rightarrow> byte list \<Rightarrow> byte list \<Rightarrow> int \<times> file_system \<times> log_entry list" where
  "read_write opens wr fs file_path file_content =
     (let file_name = map_option tl (strrchr file_path (CHR ''/'')) in
      if \<not> opens then (0, fs, [Open_error])
      else
        let old = (case fs file_path of None \<Rightarrow> [] | Some bs \<Rightarrow> bs); fs1 = fs(file_path \<mapsto> old) in
        if wr = - 1 then (0, fs1, [Write_error])
        else (0, fs1(file_path \<mapsto> old @ take (nat wr) file_content), [Writing file_content file_name]))"

text \<open>
  The array \<^verbatim>\<open>argv\<close> ends with a NULL; reading behind it is undefined.  Both arguments are read
  before their number is checked.
\<close>

definition writer_main ::
  "bool \<Rightarrow> int \<Rightarrow> file_system \<Rightarrow> byte list list \<Rightarrow> (int \<times> file_system \<times> log_entry list) option" where
  "writer_main opens wr fs argv =
     (let arr = map Some argv @ [None] in
      if length arr \<le> 2 then None
      else
        let file_path = arr ! 1; file_content = arr ! 2 in
        if length argv \<noteq> 3 then Some (1, fs, [Wrong_input])
        else case (file_path, file_content) of
          (Some p, Some c) \<Rightarrow> let (_, fs', log) = read_write opens wr fs p c in Some (0, fs', log)
        | _ \<Rightarrow> None)"

section \<open>Properties\<close>





text \<open>
  With a number of arguments other than two the program changes nothing and ends with
  status 1, but only if there is at least one: without any it reads behind the end of its
  argument vector before it checks their number.
\<close>

lemma writer_usage:
  assumes "length argv \<noteq> 3"
  shows "writer_main opens wr fs argv = (if length argv < 2 then None else Some (1, fs, [Wrong_input]))"
  using assms by (simp add: writer_main_def Let_def)

end
