(* ===== verification/Test_Programs.thy ===== *)
theory Test_Programs
  imports Char_Device
begin

text \<open>
  The programs beside the driver that were written to try it: the user programs
  \<^verbatim>\<open>aesd-char-driver/test/test_lseek.c\<close> and \<^verbatim>\<open>aesd-char-driver/test_aesdchar.c\<close>, composed with
  the driver's own operations, and the \<^verbatim>\<open>llseek\<close> of the module
  \<^verbatim>\<open>aesd-char-driver/test/test_module.c\<close>.
\<close>

section \<open>The seek of the test module\<close>

text \<open>
  \<open>dev\<close> is the size stored in the structure behind \<^verbatim>\<open>private_data\<close>, \<open>None\<close> for a NULL pointer.
  The new position is computed in 64 bits and stored in an \<^verbatim>\<open>int\<close>.
\<close>

definition my_lseek :: "32 word option \<Rightarrow> loff_t \<Rightarrow> loff_t \<Rightarrow> int \<Rightarrow> (loff_t \<times> loff_t) option" where
  "my_lseek dev pos offset cmd = do {
     new_pos \<leftarrow>
       (if cmd = SEEK_SET then Some (Some (ucast offset :: 32 word))
        else if cmd = SEEK_CUR then Some (Some (ucast (pos + offset)))
        else if cmd = SEEK_END then map_option (\<lambda>sz. Some (ucast (scast sz + offset))) dev
        else Some None);
     (case new_pos of
        None \<Rightarrow> Some (- EINVAL, pos)
      | Some n \<Rightarrow> if sint n < 0 then Some (- EINVAL, pos) else Some (scast n, scast n))
   }"

text \<open>Opening the module's device leaves \<^verbatim>\<open>private_data\<close> as it was, which is NULL.\<close>

definition driver_open :: "32 word option \<Rightarrow> int \<times> 32 word option" where
  "driver_open dev = (0, dev)"

definition driver_close :: "32 word option \<Rightarrow> int \<times> 32 word option" where
  "driver_close dev = (0, dev)"

lemma sint32_nonneg:
  fixes n :: u32
  shows "sint n < 0 \<longleftrightarrow> 2 ^ 31 \<le> unat n"
    and "unat n < 2 ^ 31 \<Longrightarrow> (scast n :: u64) = word_of_nat (unat n)"
proof -
  have a: "sint n = int (unat n)" if "unat n < 2 ^ 31"
  proof -
    have "uint n < 2 ^ 31" using that uint_less_iff_unat [of n 31] by simp
    moreover have "- (2 ^ 31) \<le> uint n" using uint_ge_0 [of n] by (rule order.trans [rotated]) simp
    ultimately have "signed_take_bit 31 (uint n) = uint n"
      by (intro signed_take_bit_int_eq_self) simp_all
    then show ?thesis by (simp add: sint_uint)
  qed
  have b: "sint n < 0" if "2 ^ 31 \<le> unat n"
  proof (rule ccontr)
    assume "\<not> sint n < 0"
    then have "uint n = sint n"
      using sint_lt [of n] by (simp add: uint_sint take_bit_eq_mod)
    with that sint_lt [of n] show False
      using uint_less_iff_unat [of n 31] by simp
  qed
  show "sint n < 0 \<longleftrightarrow> 2 ^ 31 \<le> unat n" using a b by (cases "unat n < 2 ^ 31") auto
  assume l: "unat n < 2 ^ 31"
  have "(scast n :: u64) = word_of_int (sint n)" by transfer simp
  then show "(scast n :: u64) = word_of_nat (unat n)" by (simp add: a [OF l])
qed

section \<open>Programs that use the driver\<close>

text \<open>
  The part of \<^verbatim>\<open>test_lseek.c\<close> before reading: the request number is built from other
  parameters than the driver's.  The result is the exit status and what was read; opening may
  fail.
\<close>

definition TEST_IOCSEEKTO :: u32 where
  "TEST_IOCSEEKTO = IOC 1 0x61 1 8"

definition test_lseek_main :: "bool \<Rightarrow> bool \<Rightarrow> kst \<Rightarrow> (int \<times> byte list option \<times> kst) option" where
  "test_lseek_main opens intr k =
     (if \<not> opens then Some (1, None, k)
      else do {
        let (fd, k1) = dev_open aesd_ops k;
        let seekto = \<lparr>write_cmd = 1, write_cmd_offset = 3\<rparr>;
        (r, fd1, k2) \<leftarrow> dev_ioctl aesd_ops k1 fd TEST_IOCSEEKTO seekto;
        if r < 0 then Some (1, None, k2)
        else do {
          (n, buf, fd2, k3) \<leftarrow> dev_read aesd_ops intr k2 fd1 99;
          Some (0, Some buf, k3)
        }
      })"

text \<open>
  \<^verbatim>\<open>test_aesdchar.c\<close> sends two request numbers and reports for each whether it succeeded.  It
  passes no third argument, so \<open>arg\<close> stands for whatever the kernel finds in its place.
\<close>

definition test_aesdchar_main :: "bool \<Rightarrow> aesd_seekto \<Rightarrow> kst \<Rightarrow> (int \<times> bool list \<times> kst) option" where
  "test_aesdchar_main opens arg k =
     (if \<not> opens then Some (1, [], k)
      else do {
        let (fd, k1) = dev_open aesd_ops k;
        (r1, fd1, k2) \<leftarrow> dev_ioctl aesd_ops k1 fd 0x1234 arg;
        (r2, fd2, k3) \<leftarrow> dev_ioctl aesd_ops k2 fd1 0x5678 arg;
        Some (0, [0 \<le> r1, 0 \<le> r2], k3)
      })"

section \<open>Properties\<close>

lemma my_lseek_store:
  "(if sint (ucast t :: u32) < 0 then Some (- EINVAL, pos) else Some (scast (ucast t :: u32), scast (ucast t :: u32)) :: (loff_t \<times> loff_t) option) =
   (if unat t mod 2 ^ 32 < 2 ^ 31 then Some (word_of_nat (unat t mod 2 ^ 32), word_of_nat (unat t mod 2 ^ 32))
    else Some (- EINVAL, pos))" for t :: u64
proof -
  have u: "unat (ucast t :: u32) = unat t mod 2 ^ 32"
    by (simp add: unsigned_ucast_eq take_bit_eq_mod)
  show ?thesis
    using sint32_nonneg [of "ucast t :: u32"] unfolding u by (auto simp: not_le)
qed

text \<open>
  The test module's seek reduces the requested position modulo \<open>2 ^ 32\<close>: every position it
  returns is below \<open>2 ^ 31\<close>, so a seek beyond 2 GiB fails, or ends up 4 GiB before the position
  asked for; seeking from the end is undefined on a file its own \<^verbatim>\<open>open\<close> has opened.
\<close>

lemma my_lseek_truncates:
  "my_lseek (snd (driver_open None)) pos offset cmd =
     (if cmd = SEEK_END then None
      else if cmd \<noteq> SEEK_SET \<and> cmd \<noteq> SEEK_CUR then Some (- EINVAL, pos)
      else let k = unat (if cmd = SEEK_SET then offset else pos + offset) mod 2 ^ 32 in
        if k < 2 ^ 31 then Some (word_of_nat k, word_of_nat k) else Some (- EINVAL, pos))"
  using my_lseek_store [of offset pos] my_lseek_store [of "pos + offset" pos]
  by (auto simp: my_lseek_def driver_open_def SEEK_SET_def SEEK_CUR_def SEEK_END_def Let_def)

text \<open>
  The request numbers of the test programs are not the driver's, so on any device the first
  always ends with status 1 without having read anything, and the second always reports two
  failures and ends with status 0; neither changes the device.
\<close>

lemma test_programs_never_seek:
  "test_lseek_main opens intr k = Some (1, None, k) \<and>
   test_aesdchar_main opens arg k = (if opens then Some (0, [False, False], k) else Some (1, [], k))"
proof -
  have n: "TEST_IOCSEEKTO \<noteq> AESDCHAR_IOCSEEKTO" "0x1234 \<noteq> AESDCHAR_IOCSEEKTO" "0x5678 \<noteq> AESDCHAR_IOCSEEKTO"
    by (simp_all add: TEST_IOCSEEKTO_def AESDCHAR_IOCSEEKTO_def IOC_def)
  have "dev_ioctl aesd_ops k f cmd s = Some (- 25, f, k)" if "cmd \<noteq> AESDCHAR_IOCSEEKTO" for f cmd s
    using that by (simp add: aesd_ops_def aesd_ioctl_other(1))
  moreover obtain f where "dev_open aesd_ops k = (f, k)" using Char_Device.driver_open by blast
  ultimately show ?thesis using n
    by (auto simp: test_lseek_main_def test_aesdchar_main_def Let_def split: prod.split)
qed

end
