(* ===== verification/Test_Validation.thy ===== *)
theory Test_Validation
  imports Prelude
begin

text \<open>
  The check of the test set-up: the functions of
  \<^verbatim>\<open>examples/autotest-validate/autotest-validate.c\<close>, the program
  \<^verbatim>\<open>autotest-validate-main.c\<close> that prints what they return, and the unit test
  \<^verbatim>\<open>student-test/assignment1/Test_validate_username.c\<close>.  Reading \<^verbatim>\<open>conf/username.txt\<close> and the
  assertion belong to the test submodule and its framework, which are not in the repository: both
  are parameters.
\<close>

section \<open>Definitions\<close>

definition this_function_returns_true :: bool where
  "this_function_returns_true = True"

definition this_function_returns_false :: bool where
  "this_function_returns_false = False"

definition my_username :: string where
  "my_username = ''BhaktiRamani''"

text \<open>The program declares a name of its own beside the one the functions return.\<close>

definition git_username :: string where
  "git_username = ''akshita-bhasin''"

definition yes_no :: "bool \<Rightarrow> string" where
  "yes_no b = (if b then ''true'' else ''false'')"

definition validate_main :: "int \<times> string list" where
  "validate_main =
     (0, [''this_function_returns_true returned '' @ yes_no this_function_returns_true,
          ''this_function_returns_false returned '' @ yes_no this_function_returns_false])"

text \<open>
  \<open>assert_equal_string\<close> says whether the framework lets the test pass on the two pointers, and
  \<open>conf\<close> is what \<^verbatim>\<open>malloc_username_from_conf_file\<close> returns, \<open>None\<close> for a NULL pointer.
\<close>

definition test_validate_my_username ::
  "(string option \<Rightarrow> string option \<Rightarrow> bool) \<Rightarrow> string option \<Rightarrow> bool" where
  "test_validate_my_username assert_equal_string conf = assert_equal_string (Some my_username) conf"

section \<open>What they show\<close>

lemma validate_main_output:
  "validate_main = (0, [''this_function_returns_true returned true'', ''this_function_returns_false returned false''])"
  by (simp add: validate_main_def yes_no_def this_function_returns_true_def this_function_returns_false_def)

text \<open>The test passes exactly on the repository's own name, and would not on the program's.\<close>

lemma test_validate_my_username_iff:
  assumes "\<And>a b. assert_equal_string a b \<longleftrightarrow> a = b"
  shows "test_validate_my_username assert_equal_string conf \<longleftrightarrow> conf = Some ''BhaktiRamani''"
    and "\<not> test_validate_my_username assert_equal_string (Some git_username)"
  by (auto simp: test_validate_my_username_def my_username_def git_username_def assms)

end
