(* ===== verification/Spec2Isabelle.thy ===== *)
theory Spec2Isabelle
  imports Aesd_Results Aesd_Concurrent Socket_Program Socket_File Systemcalls Threading Writer Test_Programs Test_Validation
begin

text \<open>
  A model of the AESD assignments: the character driver \<^verbatim>\<open>aesd-char-driver\<close>, the socket server
  \<^verbatim>\<open>server/aesdsocket.c\<close> on top of it, and the smaller programs \<^verbatim>\<open>examples/systemcalls\<close>,
  \<^verbatim>\<open>examples/threading\<close>, \<^verbatim>\<open>finder-app/writer.c\<close> and the test programs of the driver.

  \<^bold>\<open>The program.\<close>  The driver keeps the last ten completed commands (writes up to a newline) in a
  circular buffer of kernel blocks, and the bytes of the command that is not complete yet in one
  more block.  Files read the concatenation of the stored commands, seek in it, and seek to a byte
  of a command by an ioctl.  The server accepts a client, starts a thread for it, and joins the
  thread.  The thread receives a line, stores it in the device (or, for the text
  \<^verbatim>\<open>AESDCHAR_IOCSEEKTO:\<close>\<open>X,Y\<close>, performs the ioctl), and sends back what it reads from the device.

  \<^bold>\<open>Conventions.\<close>  A function returns an option: \<open>None\<close> is undefined behaviour of C (a NULL or freed
  pointer, an access outside a block, the read of a cell never written, unlocking a mutex that is
  not held), so a result \<open>Some\<close> is a proof of memory safety.  User-space functions that may wait
  return an \<open>outcome\<close>, \<open>Blocked\<close> or \<open>Done\<close>.  Integers are words of their C width (\<^verbatim>\<open>u8\<close> ring indices,
  \<^verbatim>\<open>u32\<close> request arguments, \<^verbatim>\<open>size_t\<close> and \<^verbatim>\<open>loff_t\<close> of 64 bits); results of system calls in user space
  are \<open>int\<close>.  What the code does not decide (whether an allocation, a copy from user space, a
  call of the kernel or of the C library succeeds, what a client sends) is an argument; the
  contracts such an argument has to keep (a new block is not in use, and is not larger than the
  allocator gives) are named predicates: \<open>write_alloc_contract\<close>, \<open>malloc_contract\<close>,
  \<open>realloc_contract\<close>, \<open>allocs_ok\<close>, \<open>event_ok\<close>.
\<close>

section \<open>The theories\<close>

text \<open>
  \<^item> \<open>Prelude\<close>: types, error numbers, lemmas on words and lists, \<^verbatim>\<open>memchr\<close>.  \<open>Kmem\<close>: the kernel heap (a
    map from addresses to blocks of cells that may be unwritten), \<^verbatim>\<open>kmalloc\<close>, \<^verbatim>\<open>krealloc\<close>, \<^verbatim>\<open>kfree\<close>,
    memory reads and writes.  \<open>Libc\<close>: the same for user space, with descriptors and \<^verbatim>\<open>sscanf\<close>.
  \<^item> \<open>Command_Store\<close>: the contract of a store of the last \<open>n\<close> commands, a locale, with \<open>locate\<close> as
    the reference for the search.  \<open>Circular_Buffer\<close> (\<^verbatim>\<open>aesd-circular-buffer.c\<close>) has the record of
    \<^verbatim>\<open>struct aesd_circular_buffer\<close> and its three functions, and interprets the locale.
  \<^item> \<open>Aesd_Dev\<close> (\<^verbatim>\<open>aesdchar.h\<close>): the state \<open>kst\<close> (kernel heap and \<^verbatim>\<open>aesd_device\<close>), its invariant
    \<open>dev_inv\<close> (every stored entry has an initialised block of its own, the mutex is free), and the
    abstraction \<open>abs_dev\<close> to the list of complete commands and the unfinished bytes, with the
    specification \<open>spec_write\<close> of a write.
  \<^item> \<open>Aesd_Write\<close>, \<open>Aesd_Read\<close>, \<open>Aesd_Seek\<close>, \<open>Aesd_Module\<close> (\<^verbatim>\<open>main.c\<close>): \<^verbatim>\<open>aesd_write\<close>, \<^verbatim>\<open>aesd_read\<close>,
    \<^verbatim>\<open>aesd_llseek\<close> and \<^verbatim>\<open>aesd_unlocked_ioctl\<close>, and loading, unloading, opening, releasing.  Each
    shows what its function computes on every branch, and that it keeps \<open>dev_inv\<close>.
  \<^item> \<open>File_Operations\<close>: the locales \<open>device_op\<close> and \<open>read_only_op\<close>, interpreted on the four operations.
    \<open>Aesd_System\<close>: executions of the operations on any number of open files, from loading the
    module; progress, refinement of \<open>spec_write\<close>, what is read back after any history (the last ten
    commands, which are the last ten lines when no write goes on behind a newline), what unloading
    leaks.
    \<open>Aesd_Results\<close>: the range of every result.
  \<^item> \<open>Aesd_Calls\<close>: the four operations cut into turns where the call of another process can come
    between (before the mutex, while holding it, after it; the file layer reads and stores the
    position outside), shown to compose to the operations again.  \<open>Aesd_Call_Turns\<close>: what each turn
    needs, what it leaves alone, and the specification \<open>spec_call\<close> of the decision a call makes.
    \<open>Aesd_Concurrent\<close>: runs of any number of calls in any order; they are linearizable, never stuck,
    lose no temporary block, and can read the same bytes twice through one open file.
  \<^item> \<open>Char_Device\<close>: what the server relies on of the device, as a record of operations and two locales
    of their laws: \<open>byte_file\<close> for replies, and \<open>char_device\<close>, which extends it, interpreted on the
    driver (\<open>aesdchar\<close>).
  \<^item> \<open>Socket_Receive\<close>, \<open>Socket_Server\<close> (\<^verbatim>\<open>aesdsocket.c\<close>): the receiving loop, \<^verbatim>\<open>send_rcv_socket_data\<close>,
    \<^verbatim>\<open>return_socketdata_to_client\<close>, \<^verbatim>\<open>thread_operation\<close>.  \<open>Socket_Thread\<close> proves them inside the locales
    \<open>byte_file\<close> (the reply) and \<open>char_device\<close> (the rest); \<open>Socket_Properties\<close> states the results for the driver.  \<open>Socket_Main\<close>: the thread
    list, the accept loop and termination, as one function over the events \<^verbatim>\<open>accept\<close> sees;
    \<open>Socket_Startup\<close>: daemon mode, the start of \<^verbatim>\<open>main\<close>, and the program over these events.
  \<^item> \<open>Socket_Turns\<close>: \<^verbatim>\<open>thread_operation\<close> cut into turns at the calls where another thread can come
    between, shown to compose to it again.  \<open>Socket_Interleaving\<close>: what each turn needs and leaves
    alone.  \<open>Socket_Pool\<close>: runs of any number of threads in any order; memory safety, no deadlock,
    lines stored whole, and the two races of the descriptor and of the flag.
  \<^item> \<open>Socket_Host\<close>: the whole process, the main thread cut into steps (test of the flag, \<^verbatim>\<open>accept\<close>,
    \<^verbatim>\<open>malloc\<close>, \<^verbatim>\<open>pthread_create\<close>, \<^verbatim>\<open>thread_node_add\<close>, each \<^verbatim>\<open>pthread_join\<close>, the end) beside the turns
    of the threads and the signals (the two handled ones, and any other, which is fatal), with an
    invariant that follows its descriptors and its heap exactly.  \<open>Socket_Concurrent\<close>: its runs; one
    client at a time, no stuck main thread, the schedule that is \<open>Socket_Main\<close>, a signal in \<^verbatim>\<open>accept\<close>
    and just before it, and the race of an unlisted thread.  \<open>Socket_Answers\<close>: what each client of
    such a run receives.  \<open>Socket_Program\<close>: the start of \<open>Socket_Startup\<close> followed by the process of
    \<open>Socket_Host\<close>; \<open>steps_left\<close> decreases with every step after a signal, so the program ends.
  \<^item> \<open>Socket_File\<close>: the build without \<^verbatim>\<open>USE_AESD_CHAR_DEVICE\<close>, whose threads append to a regular file.
  \<^item> \<open>Systemcalls\<close> (\<^verbatim>\<open>systemcalls.c\<close>), \<open>Threading\<close> (\<^verbatim>\<open>threading.c\<close>), \<open>Writer\<close> (\<^verbatim>\<open>writer.c\<close>),
    \<open>Test_Programs\<close> (\<^verbatim>\<open>test_lseek.c\<close>, \<^verbatim>\<open>test_aesdchar.c\<close>, \<^verbatim>\<open>test_module.c\<close>) and
    \<open>Test_Validation\<close> (\<^verbatim>\<open>autotest-validate.c\<close> and the test of the user name).
\<close>

section \<open>Bounds\<close>

text \<open>
  A block of \<^verbatim>\<open>kmalloc\<close> has at most \<open>kmalloc_max\<close> = \<open>2 ^ 32\<close> bytes, above the largest order of
  any configuration of Linux, so that ten commands stay below \<open>2 ^ 63\<close> and no position overflows.  A
  block of user space has less than \<open>2 ^ 63\<close> bytes, the limit of glibc.  A read or write moves at
  most \<open>max_rw_count\<close> bytes, as in Linux, and a process has 1024 descriptors.  The loops of
  \<^verbatim>\<open>aesd_read\<close>, of the receiver and of the reply are partial functions without fuel; that they end
  is proved (\<open>Aesd_Read.aesd_read_terminates\<close>, \<open>Socket_Properties.recv_loop_collects\<close>,
  \<open>Socket_Properties.thread_cleans_up\<close>), for a client that sends a newline or closes.
\<close>

section \<open>Not modelled\<close>

text \<open>
  Logging (except in \<open>Writer\<close>, where the logged name is computed), the text of the client's
  address, and the options of the socket.  Logging reaches the state in one place: the descriptor
  \<^verbatim>\<open>syslog\<close> opens for itself takes a number, so that the numbers the server gets can be one higher;
  the theorems compare the descriptors with those at the start and do not fix a number.  The
  registration of the character device with the kernel is a result given as an argument.  The
  main thread and the interleavings of the server are modelled as built with
  \<^verbatim>\<open>USE_AESD_CHAR_DEVICE\<close>, the default; of the other build, a thread.  A critical section of a thread
  is one turn, except for the reopening of the file, which other threads can come between: that they
  open or close a file, which needs no mutex, between two reads of one reply is left out, and cannot
  happen when every thread can be listed, as only one is at work then.  \<open>Socket_Main.main_loop\<close> has the signals
  that arrive in \<^verbatim>\<open>accept\<close> only; \<open>Socket_Host\<close> has them at every moment, with both handlers
  installed, and the \<^verbatim>\<open>SIGPIPE\<close> of a \<^verbatim>\<open>send\<close> as one without a handler: the bytes sent before it are not
  recorded.  What a thread does with a descriptor
  of the device that has become the socket of another client is not modelled either: the theorems
  on all interleavings are for threads that can be listed, or for a fixed set of clients.  The
  shell scripts and build files contain no C.
\<close>

end
